(* ===== verification/Prelude.thy ===== *)
theory Prelude
  imports Main "HOL-Library.Word"
begin

unbundle bit_operations_syntax

text \<open>
  Shared foundations: the C integer types, the result monad in which kernel code is written
  (state passing, with panics, context switches and undefined behaviour as outcomes), total
  correctness triples for it, byte arrays with their get and put laws, and the little-endian
  encodings the on-disk and in-memory structures use.
\<close>

section \<open>C types\<close>

type_synonym byte = "8 word"
type_synonym u16 = "16 word"
type_synonym u32 = "32 word"
type_synonym u64 = "64 word"

section \<open>The result monad\<close>

text \<open>
  A kernel operation maps a state to an outcome. \<open>Panic\<close> is a call of \<open>panic()\<close> with its
  message, \<open>Switch\<close> a call of \<open>swtch()\<close> that leaves the running thread (sleep, yield, exit), and
  \<open>Undef\<close> an access that the C standard leaves undefined (a null pointer, an index outside its
  array).
\<close>

datatype ('s, 'a) outcome =
    Ok 'a 's
  | Panic string
  | Switch 's
  | Undef string

definition ret :: "'a \<Rightarrow> 's \<Rightarrow> ('s, 'a) outcome" where
  "ret x = (\<lambda>s. Ok x s)"

definition mbind :: "('s \<Rightarrow> ('s, 'a) outcome) \<Rightarrow> ('a \<Rightarrow> 's \<Rightarrow> ('s, 'b) outcome) \<Rightarrow> 's \<Rightarrow> ('s, 'b) outcome" where
  "mbind m f = (\<lambda>s. case m s of
       Ok x s' \<Rightarrow> f x s'
     | Panic e \<Rightarrow> Panic e
     | Switch s' \<Rightarrow> Switch s'
     | Undef e \<Rightarrow> Undef e)"

definition panic :: "string \<Rightarrow> 's \<Rightarrow> ('s, 'a) outcome" where
  "panic e = (\<lambda>s. Panic e)"

definition undef :: "string \<Rightarrow> 's \<Rightarrow> ('s, 'a) outcome" where
  "undef e = (\<lambda>s. Undef e)"

definition gets :: "('s \<Rightarrow> 'a) \<Rightarrow> 's \<Rightarrow> ('s, 'a) outcome" where
  "gets f = (\<lambda>s. Ok (f s) s)"

definition modify :: "('s \<Rightarrow> 's) \<Rightarrow> 's \<Rightarrow> ('s, unit) outcome" where
  "modify f = (\<lambda>s. Ok () (f s))"

text \<open>A C \<open>for\<close> loop over a list of indices whose body always continues.\<close>

primrec for_each :: "'i list \<Rightarrow> ('i \<Rightarrow> 's \<Rightarrow> ('s, unit) outcome) \<Rightarrow> 's \<Rightarrow> ('s, unit) outcome" where
  "for_each [] body = ret ()"
| "for_each (i # js) body = mbind (body i) (\<lambda>_. for_each js body)"

text \<open>\<open>n\<close> runs of the same operation, collecting the results.\<close>

primrec repeat_m :: "nat \<Rightarrow> ('s \<Rightarrow> ('s, 'a) outcome) \<Rightarrow> 's \<Rightarrow> ('s, 'a list) outcome" where
  "repeat_m 0 m = ret []"
| "repeat_m (Suc n) m = mbind m (\<lambda>x. mbind (repeat_m n m) (\<lambda>xs. ret (x # xs)))"

named_theorems monad_simps "symbolic execution of the result monad"

lemma ret_apply [simp, monad_simps]: "ret x s = Ok x s"
  by (simp add: ret_def)

lemma panic_apply [simp, monad_simps]: "panic e s = Panic e"
  by (simp add: panic_def)

lemma undef_apply [simp, monad_simps]: "undef e s = Undef e"
  by (simp add: undef_def)

lemma gets_apply [simp, monad_simps]: "gets f s = Ok (f s) s"
  by (simp add: gets_def)

lemma modify_apply [simp, monad_simps]: "modify f s = Ok () (f s)"
  by (simp add: modify_def)

lemma mbind_apply [simp, monad_simps]:
  "mbind m f s = (case m s of
       Ok x s' \<Rightarrow> f x s' | Panic e \<Rightarrow> Panic e | Switch s' \<Rightarrow> Switch s' | Undef e \<Rightarrow> Undef e)"
  by (simp add: mbind_def)

lemma mbind_OkE:
  assumes "mbind m f s = Ok y t"
  obtains x u where "m s = Ok x u" and "f x u = Ok y t"
  using assms by (cases "m s") (auto simp: mbind_def)

lemma mbind_ret [simp]: "mbind (ret x) f = f x"
  by (rule ext) simp

lemma mbind_assoc: "mbind (mbind m f) g = mbind m (\<lambda>x. mbind (f x) g)"
  by (rule ext) (simp add: mbind_def split: outcome.split)

lemma for_each_append:
  "for_each (xs @ ys) body = mbind (for_each xs body) (\<lambda>_. for_each ys body)"
  by (induction xs) (simp_all add: mbind_assoc del: mbind_apply ret_apply)

section \<open>Frames\<close>

text \<open>\<open>keeps f m\<close>: whenever \<open>m\<close> returns, the component \<open>f\<close> of the state is unchanged.\<close>

definition keeps :: "('s \<Rightarrow> 'c) \<Rightarrow> ('s \<Rightarrow> ('s, 'a) outcome) \<Rightarrow> bool" where
  "keeps f m \<longleftrightarrow> (\<forall>s x t. m s = Ok x t \<longrightarrow> f t = f s)"

named_theorems keeps_intros "operations that keep a component of the state"

lemma keepsD: "keeps f m \<Longrightarrow> m s = Ok x t \<Longrightarrow> f t = f s"
  by (simp add: keeps_def)

lemma keeps_ret [keeps_intros]: "keeps f (ret x)"
  by (simp add: keeps_def)

lemma keeps_panic [keeps_intros]: "keeps f (panic e)"
  by (simp add: keeps_def)

lemma keeps_undef [keeps_intros]: "keeps f (undef e)"
  by (simp add: keeps_def)

lemma keeps_gets [keeps_intros]: "keeps f (gets g)"
  by (simp add: keeps_def)

lemma keeps_modify [keeps_intros]: "(\<And>s. f (g s) = f s) \<Longrightarrow> keeps f (modify g)"
  by (auto simp: keeps_def)

lemma keeps_bind [keeps_intros]: "keeps f m \<Longrightarrow> (\<And>x. keeps f (g x)) \<Longrightarrow> keeps f (mbind m g)"
  unfolding keeps_def by (metis mbind_OkE)

lemma keeps_if [keeps_intros]: "(b \<Longrightarrow> keeps f m) \<Longrightarrow> (\<not> b \<Longrightarrow> keeps f n) \<Longrightarrow> keeps f (if b then m else n)"
  by simp

lemma keeps_option [keeps_intros]:
  "keeps f m \<Longrightarrow> (\<And>y. keeps f (g y)) \<Longrightarrow> keeps f (case x of None \<Rightarrow> m | Some y \<Rightarrow> g y)"
  by (cases x) auto

lemma keeps_for_each [keeps_intros]: "(\<And>i. keeps f (body i)) \<Longrightarrow> keeps f (for_each js body)"
  by (induction js) (auto intro: keeps_intros simp del: mbind_apply)

text \<open>A read of a kept component can be moved over the operation.\<close>

lemma bind_commute:
  assumes "keeps f m" and "\<And>t. f t = f s \<Longrightarrow> r t = Ok v t"
  shows "mbind m (\<lambda>x. mbind r (g x)) s = mbind m (\<lambda>x. g x v) s"
  using assms by (cases "m s") (auto simp: keeps_def)

section \<open>Total correctness triples\<close>

text \<open>
  \<open>spec P m Q\<close>: from every state satisfying \<open>P\<close>, \<open>m\<close> returns (no panic, no switch, no undefined
  behaviour) and result and final state satisfy \<open>Q\<close>.
\<close>

definition spec :: "('s \<Rightarrow> bool) \<Rightarrow> ('s \<Rightarrow> ('s, 'a) outcome) \<Rightarrow> ('a \<Rightarrow> 's \<Rightarrow> bool) \<Rightarrow> bool" where
  "spec P m Q \<longleftrightarrow> (\<forall>s. P s \<longrightarrow> (\<exists>x t. m s = Ok x t \<and> Q x t))"

lemma specI:
  assumes "\<And>s. P s \<Longrightarrow> \<exists>x t. m s = Ok x t \<and> Q x t"
  shows "spec P m Q"
  using assms by (simp add: spec_def)

lemma specD:
  assumes "spec P m Q" and "P s"
  obtains x t where "m s = Ok x t" and "Q x t"
  using assms by (auto simp: spec_def)

lemma spec_bind:
  assumes "spec P m R" and "\<And>x. spec (R x) (f x) Q"
  shows "spec P (mbind m f) Q"
proof (rule specI)
  fix s assume "P s"
  with assms(1) obtain x t where m: "m s = Ok x t" and "R x t"
    by (rule specD)
  with assms(2) obtain y u where "f x t = Ok y u" "Q y u"
    by (meson specD)
  with m show "\<exists>y u. mbind m f s = Ok y u \<and> Q y u" by auto
qed

lemma spec_conseq:
  assumes "spec P m Q" and "\<And>s. P' s \<Longrightarrow> P s" and "\<And>x t. Q x t \<Longrightarrow> Q' x t"
  shows "spec P' m Q'"
  using assms unfolding spec_def by blast

lemma spec_for_each:
  assumes "\<And>i. i \<in> set js \<Longrightarrow> spec I (body i) (\<lambda>_. I)"
  shows "spec I (for_each js body) (\<lambda>_. I)"
  using assms
proof (induction js)
  case Nil
  show ?case by (simp add: spec_def)
next
  case (Cons i js)
  then have "spec I (body i) (\<lambda>_. I)" and "spec I (for_each js body) (\<lambda>_. I)" by auto
  then show ?case by (auto intro!: spec_bind simp del: mbind_apply)
qed

section \<open>Byte arrays\<close>

definition get_bytes :: "nat \<Rightarrow> nat \<Rightarrow> byte list \<Rightarrow> byte list" where
  "get_bytes off n bs = take n (drop off bs)"

definition put_bytes :: "nat \<Rightarrow> byte list \<Rightarrow> byte list \<Rightarrow> byte list" where
  "put_bytes off new bs = take off bs @ new @ drop (off + length new) bs"

lemma length_put_bytes [simp]:
  "off + length new \<le> length bs \<Longrightarrow> length (put_bytes off new bs) = length bs"
  by (simp add: put_bytes_def)

lemma get_put_same [simp]:
  "off \<le> length bs \<Longrightarrow> n = length new \<Longrightarrow> get_bytes off n (put_bytes off new bs) = new"
  by (simp add: get_bytes_def put_bytes_def)

lemma nth_put_bytes:
  assumes "off + length new \<le> length bs" and "i < length bs"
  shows "put_bytes off new bs ! i =
    (if off \<le> i \<and> i < off + length new then new ! (i - off) else bs ! i)"
  using assms by (auto simp: put_bytes_def nth_append)

lemma length_get_bytes [simp]:
  "off + n \<le> length bs \<Longrightarrow> length (get_bytes off n bs) = n"
  by (simp add: get_bytes_def)

lemma nth_get_bytes [simp]:
  "off + n \<le> length bs \<Longrightarrow> i < n \<Longrightarrow> get_bytes off n bs ! i = bs ! (off + i)"
  by (simp add: get_bytes_def)

lemma get_put_other:
  assumes "off + length new \<le> length bs" and "off' + n \<le> length bs"
    and "off' + n \<le> off \<or> off + length new \<le> off'"
  shows "get_bytes off' n (put_bytes off new bs) = get_bytes off' n bs"
  using assms by (intro nth_equalityI) (auto simp: nth_put_bytes)

lemma put_put_same [simp]:
  "off + length new \<le> length bs \<Longrightarrow> length new = length new' \<Longrightarrow>
   put_bytes off new' (put_bytes off new bs) = put_bytes off new' bs"
  by (simp add: put_bytes_def)

lemma put_get_same [simp]:
  "off + n \<le> length bs \<Longrightarrow> put_bytes off (get_bytes off n bs) bs = bs"
  by (rule nth_equalityI) (auto simp: nth_put_bytes)

section \<open>Little-endian words\<close>

definition le16 :: "u16 \<Rightarrow> byte list" where
  "le16 w = [ucast w, ucast (drop_bit 8 w)]"

definition le32 :: "u32 \<Rightarrow> byte list" where
  "le32 w = [ucast w, ucast (drop_bit 8 w), ucast (drop_bit 16 w), ucast (drop_bit 24 w)]"

definition of_le16 :: "byte list \<Rightarrow> u16" where
  "of_le16 bs = ucast (bs ! 0) OR push_bit 8 (ucast (bs ! 1))"

definition of_le32 :: "byte list \<Rightarrow> u32" where
  "of_le32 bs = ucast (bs ! 0) OR push_bit 8 (ucast (bs ! 1))
     OR push_bit 16 (ucast (bs ! 2)) OR push_bit 24 (ucast (bs ! 3))"

lemma length_le16 [simp]: "length (le16 w) = 2"
  by (simp add: le16_def)

lemma length_le32 [simp]: "length (le32 w) = 4"
  by (simp add: le32_def)

lemma of_le16_le16 [simp]: "of_le16 (le16 w) = w"
  by (rule bit_word_eqI) (auto simp: of_le16_def le16_def bit_simps)

lemma of_le32_le32 [simp]: "of_le32 (le32 w) = w"
proof (rule bit_word_eqI)
  fix n assume "n < LENGTH(32)"
  then consider "n < 8" | "8 \<le> n" "n < 16" | "16 \<le> n" "n < 24" | "24 \<le> n" "n < 32"
    by fastforce
  then show "bit (of_le32 (le32 w)) n = bit w n"
    by cases (auto simp: of_le32_def le32_def bit_simps)
qed

definition get16 :: "nat \<Rightarrow> byte list \<Rightarrow> u16" where
  "get16 off bs = of_le16 (get_bytes off 2 bs)"

definition put16 :: "nat \<Rightarrow> u16 \<Rightarrow> byte list \<Rightarrow> byte list" where
  "put16 off w bs = put_bytes off (le16 w) bs"

definition get32 :: "nat \<Rightarrow> byte list \<Rightarrow> u32" where
  "get32 off bs = of_le32 (get_bytes off 4 bs)"

definition put32 :: "nat \<Rightarrow> u32 \<Rightarrow> byte list \<Rightarrow> byte list" where
  "put32 off w bs = put_bytes off (le32 w) bs"

lemma length_put16 [simp]: "off + 2 \<le> length bs \<Longrightarrow> length (put16 off w bs) = length bs"
  by (simp add: put16_def)

lemma length_put32 [simp]: "off + 4 \<le> length bs \<Longrightarrow> length (put32 off w bs) = length bs"
  by (simp add: put32_def)

lemma get16_put16 [simp]: "off \<le> length bs \<Longrightarrow> get16 off (put16 off w bs) = w"
  by (simp add: get16_def put16_def)

lemma get32_put32 [simp]: "off \<le> length bs \<Longrightarrow> get32 off (put32 off w bs) = w"
  by (simp add: get32_def put32_def)

lemma get32_put32_other:
  "off + 4 \<le> length bs \<Longrightarrow> off' + 4 \<le> length bs \<Longrightarrow> off' + 4 \<le> off \<or> off + 4 \<le> off' \<Longrightarrow>
   get32 off' (put32 off w bs) = get32 off' bs"
  by (simp add: get32_def put32_def get_put_other)

lemma get16_put16_other:
  "off + 2 \<le> length bs \<Longrightarrow> off' + 2 \<le> length bs \<Longrightarrow> off' + 2 \<le> off \<or> off + 2 \<le> off' \<Longrightarrow>
   get16 off' (put16 off w bs) = get16 off' bs"
  by (simp add: get16_def put16_def get_put_other)

lemma get32_put16_other:
  "off + 2 \<le> length bs \<Longrightarrow> off' + 4 \<le> length bs \<Longrightarrow> off' + 4 \<le> off \<or> off + 2 \<le> off' \<Longrightarrow>
   get32 off' (put16 off w bs) = get32 off' bs"
  by (simp add: get32_def put16_def get_put_other)

lemma get16_put32_other:
  "off + 4 \<le> length bs \<Longrightarrow> off' + 2 \<le> length bs \<Longrightarrow> off' + 2 \<le> off \<or> off + 4 \<le> off' \<Longrightarrow>
   get16 off' (put32 off w bs) = get16 off' bs"
  by (simp add: get16_def put32_def get_put_other)

lemmas get_put_others = get32_put32_other get16_put16_other get32_put16_other get16_put32_other

end
