(* ===== verification/Kstate.thy ===== *)
theory Kstate
  imports Prelude
begin

text \<open>
  The kernel's data: constants (\<open>param.h\<close>, \<open>fs.h\<close>, \<open>riscv.h\<close>, \<open>memlayout.h\<close>), the structures of
  the headers as records, and one record \<open>kstate\<close> with the kernel's global variables and the
  devices it drives. Pointers into a static table are indices, with \<^const>\<open>None\<close> for the null
  pointer; pointers to pages of physical memory are addresses. Page-table pages, user pages and the
  links of the page free list are bytes of \<open>mem\<close>; objects of other C types that live in allocated
  pages are kept in one typed heap per type (\<open>tframes\<close>, \<open>pipes\<close>).
\<close>

section \<open>Constants\<close>

definition NPROC :: nat where "NPROC = 64"
definition NOFILE :: nat where "NOFILE = 16"
definition NFILE :: nat where "NFILE = 100"
definition NINODE :: nat where "NINODE = 50"
definition NDEV :: int where "NDEV = 10"
definition ROOTDEV :: u32 where "ROOTDEV = 1"
definition MAXARG :: nat where "MAXARG = 32"
definition MAXOPBLOCKS :: int where "MAXOPBLOCKS = 10"
definition LOGSIZE :: nat where "LOGSIZE = 30"
definition NBUF :: nat where "NBUF = 30"
definition MAXPATH :: nat where "MAXPATH = 128"

definition ROOTINO :: u32 where "ROOTINO = 1"
definition BSIZE :: nat where "BSIZE = 1024"
definition FSMAGIC :: u32 where "FSMAGIC = 0x10203040"
definition NDIRECT :: nat where "NDIRECT = 10"
definition NINDIRECT :: nat where "NINDIRECT = 256"
definition MAXFILE :: nat where "MAXFILE = NDIRECT + NINDIRECT"
definition IPB :: u32 where "IPB = 16"
definition BPB :: u32 where "BPB = 8192"
definition DIRSIZ :: nat where "DIRSIZ = 14"
definition T_DIR :: u16 where "T_DIR = 1"
definition T_FILE :: u16 where "T_FILE = 2"
definition T_DEVICE :: u16 where "T_DEVICE = 3"
definition PGSIZE :: u64 where "PGSIZE = 4096"

lemmas const_defs = NPROC_def NOFILE_def NFILE_def NINODE_def NDEV_def ROOTDEV_def MAXARG_def
  MAXOPBLOCKS_def LOGSIZE_def NBUF_def MAXPATH_def ROOTINO_def BSIZE_def FSMAGIC_def NDIRECT_def
  NINDIRECT_def MAXFILE_def IPB_def BPB_def DIRSIZ_def T_DIR_def T_FILE_def T_DEVICE_def PGSIZE_def

section \<open>Locks and sleep channels\<close>

text \<open>A sleep lock is named by the object it is embedded in.\<close>

datatype slid = SL_buf nat | SL_inode nat

datatype lockid =
    L_bcache | L_log | L_itable | L_ftable | L_kmem | L_pid | L_wait | L_ticks | L_cons | L_uart
  | L_pr | L_vdisk | L_proc nat | L_pipe u64 | L_sleep slid

text \<open>Channels are kernel addresses; distinct constructors stand for distinct addresses.\<close>

datatype chan =
    C_log | C_sleep slid | C_proc nat | C_pipe_nread u64 | C_pipe_nwrite u64 | C_ticks
  | C_cons_r | C_uart_tx_r | C_disk_free | C_buf nat

record sleeplock =
  sl_locked :: bool
  sl_pid :: int

section \<open>Processes\<close>

datatype procstate = UNUSED | USED | SLEEPING | RUNNABLE | RUNNING | ZOMBIE

record kcontext =
  ctx_ra :: u64
  ctx_sp :: u64
  ctx_s :: "u64 list"

record trapframe =
  kernel_satp :: u64
  kernel_sp :: u64
  kernel_trap :: u64
  tf_epc :: u64
  kernel_hartid :: u64
  tf_ra :: u64
  tf_sp :: u64
  tf_gp :: u64
  tf_tp :: u64
  tf_t0 :: u64
  tf_t1 :: u64
  tf_t2 :: u64
  tf_s0 :: u64
  tf_s1 :: u64
  tf_a0 :: u64
  tf_a1 :: u64
  tf_a2 :: u64
  tf_a3 :: u64
  tf_a4 :: u64
  tf_a5 :: u64
  tf_a6 :: u64
  tf_a7 :: u64
  tf_s2 :: u64
  tf_s3 :: u64
  tf_s4 :: u64
  tf_s5 :: u64
  tf_s6 :: u64
  tf_s7 :: u64
  tf_s8 :: u64
  tf_s9 :: u64
  tf_s10 :: u64
  tf_s11 :: u64
  tf_t3 :: u64
  tf_t4 :: u64
  tf_t5 :: u64
  tf_t6 :: u64

record proc =
  p_state :: procstate
  p_chan :: "chan option"
  p_killed :: bool
  p_xstate :: int
  p_pid :: int
  p_parent :: "nat option"
  p_kstack :: u64
  p_sz :: u64
  p_pagetable :: u64
  p_trapframe :: u64
  p_context :: kcontext
  p_ofile :: "nat option list"
  p_cwd :: "nat option"
  p_name :: "byte list"

section \<open>Pipes and files\<close>

record pipe =
  pi_data :: "byte list"
  pi_nread :: u32
  pi_nwrite :: u32
  pi_readopen :: bool
  pi_writeopen :: bool

datatype ftype = FD_NONE | FD_PIPE | FD_INODE | FD_DEVICE

record kfile =
  f_type :: ftype
  f_ref :: int
  f_readable :: bool
  f_writable :: bool
  f_pipe :: u64
  f_ip :: nat
  f_off :: u32
  f_major :: u16

section \<open>Buffers, log, superblock, inodes\<close>

record buf =
  b_valid :: bool
  b_disk :: bool
  b_dev :: u32
  b_blockno :: u32
  b_lock :: sleeplock
  b_refcnt :: u32
  b_data :: "byte list"

record logheader =
  lh_n :: int
  lh_block :: "u32 list"

record log =
  l_start :: u32
  l_size :: int
  l_outstanding :: int
  l_committing :: bool
  l_dev :: u32
  l_lh :: logheader

record superblock =
  sb_magic :: u32
  sb_size :: u32
  sb_nblocks :: u32
  sb_ninodes :: u32
  sb_nlog :: u32
  sb_logstart :: u32
  sb_inodestart :: u32
  sb_bmapstart :: u32

record inode =
  i_dev :: u32
  i_inum :: u32
  i_ref :: int
  i_lock :: sleeplock
  i_valid :: bool
  i_type :: u16
  i_major :: u16
  i_minor :: u16
  i_nlink :: u16
  i_size :: u32
  i_addrs :: "u32 list"

section \<open>Console and UART\<close>

record consbuf =
  cons_buf :: "byte list"
  cons_r :: u32
  cons_w :: u32
  cons_e :: u32

text \<open>The transmit ring of \<open>uart.c\<close>, and the device: \<open>u_room\<close> is the number of bytes the transmitter
  accepts before the line status register stops reporting it idle, \<open>u_rx\<close> the received bytes
  waiting to be read.\<close>

record uartdev =
  u_tx_buf :: "byte list"
  u_tx_w :: u64
  u_tx_r :: u64
  u_room :: nat
  u_rx :: "byte list"

section \<open>Control registers, interrupt controller and link-time addresses\<close>

record csrs =
  r_sstatus :: u64
  r_sepc :: u64
  r_scause :: u64
  r_stval :: u64
  r_stvec :: u64
  r_satp :: u64
  r_stimecmp :: u64
  r_time :: u64
  r_tp :: u64

text \<open>The platform interrupt controller: the sources pending for this hart in the order it hands
  them out, and those claimed but not yet completed.\<close>

record plicdev =
  plic_pending :: "u32 list"
  plic_claimed :: "u32 set"

record ksyms =
  sym_forkret :: u64
  sym_usertrap :: u64
  sym_kernelvec :: u64
  sym_uservec :: u64
  sym_userret :: u64

section \<open>The kernel state\<close>

text \<open>
  \<open>held\<close> is the set of spin locks the running hart holds and \<open>curproc\<close> the process it runs. \<open>disk\<close> is the content of the virtio disk
  by block number, and \<open>dwrites\<close> the block writes the device has completed so far, in order: a
  power failure leaves the disk as some prefix of them made it. \<open>uart_out\<close> are the bytes written to
  the UART's transmit register. \<open>kend\<close>, \<open>ketext\<close> and \<open>ktramp\<close> are the addresses the linker gives to
  \<open>end\<close>, \<open>etext\<close> and \<open>trampoline\<close>, and \<open>ksym\<close> those it gives to code whose address is taken.
  \<open>forkret_first\<close> is the static variable of \<open>forkret\<close>, and \<open>testdev\<close> the last word stored in the
  register at 0x100000 with which QEMU's virt machine is switched off.
\<close>

record kstate =
  held :: "lockid set"
  curproc :: "nat option"
  procs :: "proc list"
  nextpid :: int
  initproc :: nat
  ticks :: u32
  mem :: "u64 \<Rightarrow> byte"
  freelist :: u64
  tframes :: "u64 \<Rightarrow> trapframe"
  pipes :: "u64 \<Rightarrow> pipe"
  bufs :: "buf list"
  lru :: "nat list"
  disk :: "u32 \<Rightarrow> byte list"
  dwrites :: "(u32 \<times> byte list) list"
  klog :: log
  sb :: superblock
  inodes :: "inode list"
  files :: "kfile list"
  uart_out :: "byte list"
  kend :: u64
  ketext :: u64
  ktramp :: u64
  kpgtbl :: u64
  cons :: consbuf
  uart :: uartdev
  csr :: csrs
  plic :: plicdev
  ksym :: ksyms
  forkret_first :: bool
  testdev :: u32

type_synonym 'a K = "kstate \<Rightarrow> (kstate, 'a) outcome"

text \<open>A concrete state for examples: the zero-initialised globals of the kernel image, an all-zero
  disk, and process 0 running.\<close>

definition zero_proc :: proc where
  "zero_proc = \<lparr>p_state = UNUSED, p_chan = None, p_killed = False, p_xstate = 0, p_pid = 0,
     p_parent = None, p_kstack = 0, p_sz = 0, p_pagetable = 0, p_trapframe = 0,
     p_context = \<lparr>ctx_ra = 0, ctx_sp = 0, ctx_s = replicate 12 0\<rparr>, p_ofile = replicate NOFILE None,
     p_cwd = None, p_name = replicate 16 0\<rparr>"

definition zero_inode :: inode where
  "zero_inode = \<lparr>i_dev = 0, i_inum = 0, i_ref = 0, i_lock = \<lparr>sl_locked = False, sl_pid = 0\<rparr>,
     i_valid = False, i_type = 0, i_major = 0, i_minor = 0, i_nlink = 0, i_size = 0,
     i_addrs = replicate (NDIRECT + 1) 0\<rparr>"

definition zero_file :: kfile where
  "zero_file = \<lparr>f_type = FD_NONE, f_ref = 0, f_readable = False, f_writable = False, f_pipe = 0,
     f_ip = 0, f_off = 0, f_major = 0\<rparr>"

definition zero_log :: log where
  "zero_log = \<lparr>l_start = 0, l_size = 0, l_outstanding = 0, l_committing = False, l_dev = 0,
     l_lh = \<lparr>lh_n = 0, lh_block = replicate LOGSIZE 0\<rparr>\<rparr>"

definition zero_tframe :: trapframe where
  "zero_tframe = \<lparr>kernel_satp = 0, kernel_sp = 0, kernel_trap = 0, tf_epc = 0, kernel_hartid = 0,
     tf_ra = 0, tf_sp = 0, tf_gp = 0, tf_tp = 0, tf_t0 = 0, tf_t1 = 0, tf_t2 = 0, tf_s0 = 0, tf_s1 = 0,
     tf_a0 = 0, tf_a1 = 0, tf_a2 = 0, tf_a3 = 0, tf_a4 = 0, tf_a5 = 0, tf_a6 = 0, tf_a7 = 0,
     tf_s2 = 0, tf_s3 = 0, tf_s4 = 0, tf_s5 = 0, tf_s6 = 0, tf_s7 = 0, tf_s8 = 0, tf_s9 = 0,
     tf_s10 = 0, tf_s11 = 0, tf_t3 = 0, tf_t4 = 0, tf_t5 = 0, tf_t6 = 0\<rparr>"

definition zero_state :: kstate where
  "zero_state = \<lparr>held = {}, curproc = Some 0, procs = replicate NPROC zero_proc, nextpid = 1,
     initproc = 0, ticks = 0, mem = (\<lambda>_. 0), freelist = 0, tframes = (\<lambda>_. zero_tframe),
     pipes = (\<lambda>_. \<lparr>pi_data = replicate 512 0, pi_nread = 0, pi_nwrite = 0, pi_readopen = False, pi_writeopen = False\<rparr>),
     bufs = [], lru = [], disk = (\<lambda>_. replicate BSIZE 0), dwrites = [], klog = zero_log,
     sb = \<lparr>sb_magic = 0, sb_size = 0, sb_nblocks = 0, sb_ninodes = 0, sb_nlog = 0, sb_logstart = 0,
       sb_inodestart = 0, sb_bmapstart = 0\<rparr>,
     inodes = replicate NINODE zero_inode, files = replicate NFILE zero_file, uart_out = [],
     kend = 0x80022000, ketext = 0x80008000, ktramp = 0x80007000, kpgtbl = 0,
     cons = \<lparr>cons_buf = replicate 128 0, cons_r = 0, cons_w = 0, cons_e = 0\<rparr>,
     uart = \<lparr>u_tx_buf = replicate 32 0, u_tx_w = 0, u_tx_r = 0, u_room = 16, u_rx = []\<rparr>,
     csr = \<lparr>r_sstatus = 0, r_sepc = 0, r_scause = 0, r_stval = 0, r_stvec = 0, r_satp = 0,
       r_stimecmp = 0, r_time = 0, r_tp = 0\<rparr>,
     plic = \<lparr>plic_pending = [], plic_claimed = {}\<rparr>,
     ksym = \<lparr>sym_forkret = 0x80001a00, sym_usertrap = 0x80002700, sym_kernelvec = 0x80005b00,
       sym_uservec = 0x80007000, sym_userret = 0x8000709c\<rparr>,
     forkret_first = True, testdev = 0\<rparr>"

section \<open>Spin locks as seen by one hart\<close>

text \<open>
  What \<open>acquire\<close> and \<open>release\<close> of \<open>spinlock.c\<close> mean for the hart that runs the code: taking a lock it
  already holds and releasing one it does not hold panic. The implementation is modelled in
  \<open>Spinlock.thy\<close>, which proves that it refines these two operations.
\<close>

definition holding :: "lockid \<Rightarrow> bool K" where
  "holding lk = gets (\<lambda>s. lk \<in> held s)"

definition acquire :: "lockid \<Rightarrow> unit K" where
  "acquire lk = (\<lambda>s. if lk \<in> held s then Panic ''acquire''
     else Ok () (s\<lparr>held := insert lk (held s)\<rparr>))"

definition release :: "lockid \<Rightarrow> unit K" where
  "release lk = (\<lambda>s. if lk \<notin> held s then Panic ''release''
     else Ok () (s\<lparr>held := held s - {lk}\<rparr>))"

lemma acquire_Ok [simp]:
  "lk \<notin> held s \<Longrightarrow> acquire lk s = Ok () (s\<lparr>held := insert lk (held s)\<rparr>)"
  by (simp add: acquire_def)

lemma release_Ok [simp]:
  "lk \<in> held s \<Longrightarrow> release lk s = Ok () (s\<lparr>held := held s - {lk}\<rparr>)"
  by (simp add: release_def)

lemma held_roundtrip [simp]: "lk \<notin> A \<Longrightarrow> insert lk A - {lk} = A"
  by auto

lemma held_idem [simp]: "held s = A \<Longrightarrow> s\<lparr>held := A\<rparr> = s"
  by auto

lemma keeps_acquire [keeps_intros]: "(\<And>s h. f (s\<lparr>held := h\<rparr>) = f s) \<Longrightarrow> keeps f (acquire lk)"
  by (auto simp: keeps_def acquire_def)

lemma keeps_release [keeps_intros]: "(\<And>s h. f (s\<lparr>held := h\<rparr>) = f s) \<Longrightarrow> keeps f (release lk)"
  by (auto simp: keeps_def release_def)

lemma keeps_holding [keeps_intros]: "keeps f (holding lk)"
  by (simp add: holding_def keeps_gets)

text \<open>Kernel \<open>printf\<close> of a constant message: its bytes reach the UART.\<close>

definition kprint :: "string \<Rightarrow> unit K" where
  "kprint msg = modify (\<lambda>s. s\<lparr>uart_out := uart_out s @ map of_char msg\<rparr>)"

text \<open>Reading an element of a table through a pointer, and updating one.\<close>

definition tbl_upd :: "nat \<Rightarrow> ('a \<Rightarrow> 'a) \<Rightarrow> 'a list \<Rightarrow> 'a list" where
  "tbl_upd i f xs = (if i < length xs then xs[i := f (xs ! i)] else xs)"

lemma length_tbl_upd [simp]: "length (tbl_upd i f xs) = length xs"
  by (simp add: tbl_upd_def)

lemma nth_tbl_upd [simp]:
  "j < length xs \<Longrightarrow> tbl_upd i f xs ! j = (if i = j then f (xs ! j) else xs ! j)"
  by (auto simp: tbl_upd_def)

lemma tbl_upd_twice [simp]: "tbl_upd i f (tbl_upd i g xs) = tbl_upd i (f \<circ> g) xs"
  by (simp add: tbl_upd_def)

lemma map_tbl_upd:
  "(\<And>x. h (f x) = h x) \<Longrightarrow> map h (tbl_upd i f xs) = map h xs"
  by (rule nth_equalityI) auto

end
