(* ===== verification/Sched.thy ===== *)
theory Sched
  imports Kstate
begin

text \<open>
  Sleep, wakeup and kill (\<open>proc.c\<close>) and sleep locks (\<open>sleeplock.c\<close>). A thread that gives up the
  processor ends in \<^const>\<open>Switch\<close> with the state it leaves behind; the loops around \<open>sleep\<close>
  re-test their condition when the thread runs again, so one pass of such a loop is modelled.
\<close>

section \<open>The current process\<close>

definition myproc :: "nat option K" where
  "myproc = gets curproc"

text \<open>Dereferencing \<open>myproc()\<close> where the code does so without a null check.\<close>

definition me :: "nat K" where
  "me = mbind myproc (\<lambda>p. case p of None \<Rightarrow> undef ''myproc() is null'' | Some i \<Rightarrow> ret i)"

definition upd_proc :: "nat \<Rightarrow> (proc \<Rightarrow> proc) \<Rightarrow> unit K" where
  "upd_proc i f = modify (\<lambda>s. s\<lparr>procs := tbl_upd i f (procs s)\<rparr>)"

definition swtch :: "unit K" where
  "swtch = (\<lambda>s. Switch s)"

definition sched :: "unit K" where
  "sched =
     mbind me (\<lambda>p.
     mbind (holding (L_proc p)) (\<lambda>h.
     if \<not> h then panic ''sched p->lock'' else
     mbind (gets (\<lambda>s. card (held s))) (\<lambda>noff.
     if noff \<noteq> 1 then panic ''sched locks'' else
     mbind (gets (\<lambda>s. p_state (procs s ! p))) (\<lambda>st.
     if st = RUNNING then panic ''sched running'' else swtch))))"

definition yield :: "unit K" where
  "yield =
     mbind me (\<lambda>p.
     mbind (acquire (L_proc p)) (\<lambda>_.
     mbind (upd_proc p (\<lambda>q. q\<lparr>p_state := RUNNABLE\<rparr>)) (\<lambda>_.
     mbind sched (\<lambda>_.
     release (L_proc p)))))"

definition sleep :: "chan \<Rightarrow> lockid \<Rightarrow> unit K" where
  "sleep ch lk =
     mbind me (\<lambda>p.
     mbind (acquire (L_proc p)) (\<lambda>_.
     mbind (release lk) (\<lambda>_.
     mbind (upd_proc p (\<lambda>q. q\<lparr>p_chan := Some ch, p_state := SLEEPING\<rparr>)) (\<lambda>_.
     mbind sched (\<lambda>_.
     mbind (upd_proc p (\<lambda>q. q\<lparr>p_chan := None\<rparr>)) (\<lambda>_.
     mbind (release (L_proc p)) (\<lambda>_.
     acquire lk)))))))"

definition wakeup_one :: "chan \<Rightarrow> nat \<Rightarrow> unit K" where
  "wakeup_one ch p =
     mbind myproc (\<lambda>m.
     if m = Some p then ret () else
     mbind (acquire (L_proc p)) (\<lambda>_.
     mbind (gets (\<lambda>s. procs s ! p)) (\<lambda>q.
     mbind (if p_state q = SLEEPING \<and> p_chan q = Some ch
            then upd_proc p (\<lambda>q. q\<lparr>p_state := RUNNABLE\<rparr>) else ret ()) (\<lambda>_.
     release (L_proc p)))))"

definition wakeup :: "chan \<Rightarrow> unit K" where
  "wakeup ch = for_each [0..<NPROC] (wakeup_one ch)"

fun kill_from :: "int \<Rightarrow> nat list \<Rightarrow> int K" where
  "kill_from pid [] = ret (-1)"
| "kill_from pid (p # ps) =
     mbind (acquire (L_proc p)) (\<lambda>_.
     mbind (gets (\<lambda>s. procs s ! p)) (\<lambda>q.
     if p_pid q = pid then
       mbind (upd_proc p (\<lambda>q. q\<lparr>p_killed := True\<rparr>)) (\<lambda>_.
       mbind (if p_state q = SLEEPING then upd_proc p (\<lambda>q. q\<lparr>p_state := RUNNABLE\<rparr>) else ret ()) (\<lambda>_.
       mbind (release (L_proc p)) (\<lambda>_.
       ret 0)))
     else
       mbind (release (L_proc p)) (\<lambda>_.
       kill_from pid ps)))"

definition kill :: "int \<Rightarrow> int K" where
  "kill pid = kill_from pid [0..<NPROC]"

definition setkilled :: "nat \<Rightarrow> unit K" where
  "setkilled p =
     mbind (acquire (L_proc p)) (\<lambda>_.
     mbind (upd_proc p (\<lambda>q. q\<lparr>p_killed := True\<rparr>)) (\<lambda>_.
     release (L_proc p)))"

definition killed :: "nat \<Rightarrow> bool K" where
  "killed p =
     mbind (acquire (L_proc p)) (\<lambda>_.
     mbind (gets (\<lambda>s. p_killed (procs s ! p))) (\<lambda>k.
     mbind (release (L_proc p)) (\<lambda>_.
     ret k)))"

section \<open>Sleep locks\<close>

fun get_sl :: "slid \<Rightarrow> kstate \<Rightarrow> sleeplock" where
  "get_sl (SL_buf b) s = b_lock (bufs s ! b)"
| "get_sl (SL_inode i) s = i_lock (inodes s ! i)"

fun set_sl :: "slid \<Rightarrow> sleeplock \<Rightarrow> kstate \<Rightarrow> kstate" where
  "set_sl (SL_buf b) l s = s\<lparr>bufs := tbl_upd b (\<lambda>x. x\<lparr>b_lock := l\<rparr>) (bufs s)\<rparr>"
| "set_sl (SL_inode i) l s = s\<lparr>inodes := tbl_upd i (\<lambda>x. x\<lparr>i_lock := l\<rparr>) (inodes s)\<rparr>"

definition initsleeplock :: "slid \<Rightarrow> unit K" where
  "initsleeplock l = modify (set_sl l \<lparr>sl_locked = False, sl_pid = 0\<rparr>)"

definition acquiresleep :: "slid \<Rightarrow> unit K" where
  "acquiresleep l =
     mbind (acquire (L_sleep l)) (\<lambda>_.
     mbind (gets (\<lambda>s. sl_locked (get_sl l s))) (\<lambda>locked.
     mbind (if locked then sleep (C_sleep l) (L_sleep l) else ret ()) (\<lambda>_.
     mbind me (\<lambda>p.
     mbind (modify (\<lambda>s. set_sl l \<lparr>sl_locked = True, sl_pid = p_pid (procs s ! p)\<rparr> s)) (\<lambda>_.
     release (L_sleep l))))))"

definition releasesleep :: "slid \<Rightarrow> unit K" where
  "releasesleep l =
     mbind (acquire (L_sleep l)) (\<lambda>_.
     mbind (modify (set_sl l \<lparr>sl_locked = False, sl_pid = 0\<rparr>)) (\<lambda>_.
     mbind (wakeup (C_sleep l)) (\<lambda>_.
     release (L_sleep l))))"

definition holdingsleep :: "slid \<Rightarrow> bool K" where
  "holdingsleep l =
     mbind (acquire (L_sleep l)) (\<lambda>_.
     mbind me (\<lambda>p.
     mbind (gets (\<lambda>s. sl_locked (get_sl l s) \<and> sl_pid (get_sl l s) = p_pid (procs s ! p))) (\<lambda>r.
     mbind (release (L_sleep l)) (\<lambda>_.
     ret r))))"

section \<open>Frames\<close>

lemma keeps_me [keeps_intros]: "keeps f me"
  by (auto simp: me_def myproc_def intro!: keeps_intros)

text \<open>\<open>sched\<close> never returns to its caller within a run of the model.\<close>

lemma sched_not_Ok: "sched s \<noteq> Ok x t"
  by (auto simp: sched_def swtch_def me_def myproc_def holding_def split: outcome.splits option.splits)

lemma keeps_sched [keeps_intros]: "keeps f sched"
  by (simp add: keeps_def sched_not_Ok)

lemma sleep_not_Ok: "sleep ch lk s \<noteq> Ok x t"
  by (auto simp: sleep_def sched_not_Ok split: outcome.splits)

lemma keeps_sleep [keeps_intros]: "keeps f (sleep ch lk)"
  by (simp add: keeps_def sleep_not_Ok)

lemma keeps_upd_proc [keeps_intros]:
  "(\<And>s ps. f (s\<lparr>procs := ps\<rparr>) = f s) \<Longrightarrow> keeps f (upd_proc i g)"
  by (simp add: upd_proc_def keeps_modify)

lemma keeps_wakeup [keeps_intros]:
  assumes "\<And>s ps. f (s\<lparr>procs := ps\<rparr>) = f s" and "\<And>s h. f (s\<lparr>held := h\<rparr>) = f s"
  shows "keeps f (wakeup ch)"
  unfolding wakeup_def wakeup_one_def myproc_def by (intro keeps_intros assms)

lemma keeps_acquiresleep [keeps_intros]:
  assumes "\<And>s h. f (s\<lparr>held := h\<rparr>) = f s" and "\<And>s x. f (set_sl l x s) = f s"
  shows "keeps f (acquiresleep l)"
  unfolding acquiresleep_def by (intro keeps_intros assms)

lemma keeps_holdingsleep [keeps_intros]:
  assumes "\<And>s h. f (s\<lparr>held := h\<rparr>) = f s"
  shows "keeps f (holdingsleep l)"
  unfolding holdingsleep_def by (intro keeps_intros assms)

lemma keeps_releasesleep [keeps_intros]:
  assumes "\<And>s ps. f (s\<lparr>procs := ps\<rparr>) = f s" and "\<And>s h. f (s\<lparr>held := h\<rparr>) = f s"
    and "\<And>s x. f (set_sl l x s) = f s"
  shows "keeps f (releasesleep l)"
  unfolding releasesleep_def by (intro keeps_intros assms)

section \<open>What wakeup does\<close>

text \<open>The effect of \<open>wakeup(chan)\<close> on the process table, as a function.\<close>

definition wake :: "chan \<Rightarrow> nat option \<Rightarrow> proc list \<Rightarrow> proc list" where
  "wake ch m ps = map (\<lambda>i. if m \<noteq> Some i \<and> p_state (ps ! i) = SLEEPING \<and> p_chan (ps ! i) = Some ch
     then (ps ! i)\<lparr>p_state := RUNNABLE\<rparr> else ps ! i) [0..<length ps]"

lemma length_wake [simp]: "length (wake ch m ps) = length ps"
  by (simp add: wake_def)

lemma nth_wake [simp]:
  "i < length ps \<Longrightarrow> wake ch m ps ! i =
     (if m \<noteq> Some i \<and> p_state (ps ! i) = SLEEPING \<and> p_chan (ps ! i) = Some ch
      then (ps ! i)\<lparr>p_state := RUNNABLE\<rparr> else ps ! i)"
  by (simp add: wake_def)

definition no_proc_locks :: "kstate \<Rightarrow> bool" where
  "no_proc_locks s \<longleftrightarrow> (\<forall>p. L_proc p \<notin> held s)"

definition wake_upto :: "nat \<Rightarrow> chan \<Rightarrow> nat option \<Rightarrow> proc list \<Rightarrow> proc list" where
  "wake_upto n ch m ps = map (\<lambda>i. if i < n then wake ch m ps ! i else ps ! i) [0..<length ps]"

lemma wakeup_one_Ok:
  assumes "L_proc p \<notin> held s" and "p < length (procs s)"
  shows "wakeup_one ch p s = Ok () (s\<lparr>procs := (procs s)[p := wake ch (curproc s) (procs s) ! p]\<rparr>)"
  using assms by (auto simp: wakeup_one_def myproc_def upd_proc_def tbl_upd_def)

lemma wakeup_upto:
  assumes "no_proc_locks s" and "n \<le> length (procs s)"
  shows "for_each [0..<n] (wakeup_one ch) s
    = Ok () (s\<lparr>procs := wake_upto n ch (curproc s) (procs s)\<rparr>)"
  using assms(2)
proof (induction n)
  case 0
  have "wake_upto 0 ch (curproc s) (procs s) = procs s"
    by (rule nth_equalityI) (auto simp: wake_upto_def)
  then show ?case by simp
next
  case (Suc n)
  let ?t = "s\<lparr>procs := wake_upto n ch (curproc s) (procs s)\<rparr>"
  have len: "length (wake_upto n ch (curproc s) (procs s)) = length (procs s)"
    by (simp add: wake_upto_def)
  have nth: "wake_upto n ch (curproc s) (procs s) ! n = procs s ! n"
    using Suc.prems by (simp add: wake_upto_def)
  have step: "wakeup_one ch n ?t
      = Ok () (?t\<lparr>procs := (procs ?t)[n := wake ch (curproc s) (procs ?t) ! n]\<rparr>)"
    using wakeup_one_Ok[of n ?t ch] assms(1) Suc.prems len by (simp add: no_proc_locks_def)
  have "(procs ?t)[n := wake ch (curproc s) (procs ?t) ! n]
      = wake_upto (Suc n) ch (curproc s) (procs s)"
    using Suc.prems len nth
    by (intro nth_equalityI) (auto simp: wake_upto_def nth_list_update)
  with step Suc show ?case by (simp add: for_each_append)
qed

lemma wakeup_Ok:
  assumes "no_proc_locks s" and "length (procs s) = NPROC"
  shows "wakeup ch s = Ok () (s\<lparr>procs := wake ch (curproc s) (procs s)\<rparr>)"
proof -
  have "wake_upto NPROC ch (curproc s) (procs s) = wake ch (curproc s) (procs s)"
    using assms(2) by (intro nth_equalityI) (auto simp: wake_upto_def)
  then show ?thesis using wakeup_upto[of s NPROC ch] assms by (simp add: wakeup_def)
qed

section \<open>Sleep locks when no spin lock is held\<close>

text \<open>The setting in which file-system code runs: a process is running and holds no spin lock.\<close>

definition in_proc :: "nat \<Rightarrow> kstate \<Rightarrow> bool" where
  "in_proc p s \<longleftrightarrow> curproc s = Some p \<and> p < NPROC \<and> length (procs s) = NPROC \<and> held s = {}"

lemma in_proc_cong:
  "curproc t = curproc s \<Longrightarrow> length (procs t) = length (procs s) \<Longrightarrow> held t = held s \<Longrightarrow>
   in_proc p t = in_proc p s"
  by (simp add: in_proc_def)

lemma in_procD:
  assumes "in_proc p s"
  shows "curproc s = Some p" and "p < NPROC" and "length (procs s) = NPROC" and "held s = {}"
  using assms by (auto simp: in_proc_def)

lemma me_Ok [simp]: "curproc s = Some p \<Longrightarrow> me s = Ok p s"
  by (simp add: me_def myproc_def)

lemma set_sl_fields [simp]:
  "held (set_sl l x s) = held s" "curproc (set_sl l x s) = curproc s"
  "procs (set_sl l x s) = procs s" "set_sl l x (s\<lparr>held := h\<rparr>) = (set_sl l x s)\<lparr>held := h\<rparr>"
  "lru (set_sl l x s) = lru s" "disk (set_sl l x s) = disk s" "dwrites (set_sl l x s) = dwrites s"
  "klog (set_sl l x s) = klog s"
  by (cases l; simp)+

lemma acquiresleep_Ok:
  assumes "in_proc p s" and "\<not> sl_locked (get_sl l s)"
  shows "acquiresleep l s = Ok () (set_sl l \<lparr>sl_locked = True, sl_pid = p_pid (procs s ! p)\<rparr> s)"
proof -
  have [simp]: "get_sl l (s\<lparr>held := h\<rparr>) = get_sl l s" for h by (cases l) auto
  from assms show ?thesis by (auto simp: acquiresleep_def in_proc_def)
qed

lemma holdingsleep_Ok:
  assumes "in_proc p s"
  shows "holdingsleep l s
    = Ok (sl_locked (get_sl l s) \<and> sl_pid (get_sl l s) = p_pid (procs s ! p)) s"
proof -
  have [simp]: "get_sl l (s\<lparr>held := h\<rparr>) = get_sl l s" for h by (cases l) auto
  from assms show ?thesis by (auto simp: holdingsleep_def in_proc_def)
qed

lemma releasesleep_Ok:
  assumes "in_proc p s"
  shows "releasesleep l s = Ok () ((set_sl l \<lparr>sl_locked = False, sl_pid = 0\<rparr> s)
    \<lparr>procs := wake (C_sleep l) (curproc s) (procs s)\<rparr>)"
  using assms by (auto simp: releasesleep_def wakeup_Ok no_proc_locks_def in_proc_def)

text \<open>\<open>sleep\<close> called with exactly the lock it gives up: the thread leaves the processor as
  sleeper on the channel, holding only its own process lock.\<close>

lemma sleep_Switch:
  assumes "curproc s = Some p" and "p < length (procs s)" and "held s = {lk}" and "lk \<noteq> L_proc p"
  shows "sleep ch lk s = Switch (s\<lparr>held := {L_proc p},
    procs := (procs s)[p := (procs s ! p)\<lparr>p_chan := Some ch, p_state := SLEEPING\<rparr>]\<rparr>)"
proof -
  have "insert (L_proc p) {lk} - {lk} = {L_proc p}" using assms(4) by auto
  then show ?thesis using assms
    by (simp add: sleep_def upd_proc_def sched_def holding_def swtch_def tbl_upd_def)
qed

section \<open>What kill does\<close>

text \<open>What \<open>kill\<close> makes of the process it finds: a sleeper is woken so that it can see the mark.\<close>

definition kill_mark :: "proc \<Rightarrow> proc" where
  "kill_mark q = q\<lparr>p_killed := True, p_state := (if p_state q = SLEEPING then RUNNABLE else p_state q)\<rparr>"

lemma kill_from_Ok:
  assumes "no_proc_locks s" and "\<forall>p \<in> set ps. p < length (procs s)"
  shows "kill_from pid ps s =
    (case find (\<lambda>p. p_pid (procs s ! p) = pid) ps of
       None \<Rightarrow> Ok (-1) s
     | Some p \<Rightarrow> Ok 0 (s\<lparr>procs := tbl_upd p kill_mark (procs s)\<rparr>))"
  using assms
proof (induction ps)
  case (Cons p ps)
  then have [simp]: "L_proc p \<notin> held s" "p < length (procs s)" by (auto simp: no_proc_locks_def)
  show ?case
    using Cons by (auto simp: upd_proc_def tbl_upd_def kill_mark_def)
qed simp

text \<open>A process table with one sleeper, in slot 2, whose pid is 7.\<close>

definition sleeper_state :: kstate where
  "sleeper_state = zero_state\<lparr>procs := (replicate NPROC zero_proc)
     [2 := zero_proc\<lparr>p_pid := 7, p_state := SLEEPING, p_chan := Some C_ticks\<rparr>]\<rparr>"

text \<open>
  C30: \<open>kill(pid)\<close> marks the first process with that pid and makes it runnable when it sleeps, with no
  other process touched; it returns -1 and changes nothing when no process has the pid.
\<close>
theorem kill_marks:
  assumes "no_proc_locks s" and "length (procs s) = NPROC"
  shows "kill pid s =
    (case find (\<lambda>p. p_pid (procs s ! p) = pid) [0..<NPROC] of
       None \<Rightarrow> Ok (-1) s
     | Some p \<Rightarrow> Ok 0 (s\<lparr>procs := tbl_upd p kill_mark (procs s)\<rparr>))"
  unfolding kill_def using assms by (intro kill_from_Ok) auto

lemma kill_marks_witness:
  "\<exists>t. kill 7 sleeper_state = Ok 0 t \<and> p_state (procs t ! 2) = RUNNABLE \<and> p_killed (procs t ! 2)
     \<and> kill 9 sleeper_state = Ok (-1) sleeper_state"
proof -
  have l: "no_proc_locks sleeper_state" "length (procs sleeper_state) = NPROC"
    by (simp_all add: no_proc_locks_def sleeper_state_def zero_state_def)
  have f: "find (\<lambda>p. p_pid (procs sleeper_state ! p) = 7) [0..<NPROC] = Some 2"
    "find (\<lambda>p. p_pid (procs sleeper_state ! p) = 9) [0..<NPROC] = None"
    by (simp_all add: sleeper_state_def zero_state_def zero_proc_def NPROC_def upt_conv_Cons nth_list_update)
  show ?thesis using kill_marks[OF l, of 7] kill_marks[OF l, of 9] f
    by (simp add: kill_mark_def sleeper_state_def tbl_upd_def NPROC_def)
qed

end
