(* ===== verification/Block_Cache.thy ===== *)
theory Block_Cache
  imports Prelude
begin

text \<open>
  The contract of a block cache, as the logging layer and the file system rely on it: an abstract
  cache state with one update function per operation, and a locale whose laws say that an
  implementation returns and refines those updates. The lemmas of the locale are the read, write
  and copy idioms of the clients, proved once from the laws.
\<close>

section \<open>The abstract cache\<close>

text \<open>
  \<open>c_view\<close> is the content of each block as clients see it, \<open>c_disk\<close> what is on disk, \<open>c_writes\<close> the
  completed disk writes in order, \<open>c_refs\<close> and \<open>c_locked\<close> the reference count and the lock of each
  block's buffer, \<open>c_free\<close> the number of buffers that can be recycled.
\<close>

record ('n, 'd) cache =
  c_view :: "'n \<Rightarrow> 'd"
  c_disk :: "'n \<Rightarrow> 'd"
  c_writes :: "('n \<times> 'd) list"
  c_refs :: "'n \<Rightarrow> nat"
  c_locked :: "'n \<Rightarrow> bool"
  c_free :: nat

definition a_bread :: "'n \<Rightarrow> ('n, 'd) cache \<Rightarrow> ('n, 'd) cache" where
  "a_bread n c = c\<lparr>c_refs := (c_refs c)(n := Suc (c_refs c n)), c_locked := (c_locked c)(n := True),
     c_free := c_free c - (if c_refs c n = 0 then 1 else 0)\<rparr>"

definition a_brelse :: "'n \<Rightarrow> ('n, 'd) cache \<Rightarrow> ('n, 'd) cache" where
  "a_brelse n c = c\<lparr>c_refs := (c_refs c)(n := c_refs c n - 1), c_locked := (c_locked c)(n := False),
     c_free := c_free c + (if c_refs c n = 1 then 1 else 0)\<rparr>"

definition a_bwrite :: "'n \<Rightarrow> ('n, 'd) cache \<Rightarrow> ('n, 'd) cache" where
  "a_bwrite n c = c\<lparr>c_disk := (c_disk c)(n := c_view c n), c_writes := c_writes c @ [(n, c_view c n)]\<rparr>"

definition a_put :: "'n \<Rightarrow> 'd \<Rightarrow> ('n, 'd) cache \<Rightarrow> ('n, 'd) cache" where
  "a_put n d c = c\<lparr>c_view := (c_view c)(n := d)\<rparr>"

definition a_bpin :: "'n \<Rightarrow> ('n, 'd) cache \<Rightarrow> ('n, 'd) cache" where
  "a_bpin n c = c\<lparr>c_refs := (c_refs c)(n := Suc (c_refs c n))\<rparr>"

definition a_bunpin :: "'n \<Rightarrow> ('n, 'd) cache \<Rightarrow> ('n, 'd) cache" where
  "a_bunpin n c = c\<lparr>c_refs := (c_refs c)(n := c_refs c n - 1)\<rparr>"

lemmas a_defs = a_bread_def a_brelse_def a_bwrite_def a_put_def a_bpin_def a_bunpin_def

text \<open>A sequence of block writes applied to the content of the disk, and to cache and disk at once
  (a write-through).\<close>

definition apply_writes :: "('n \<times> 'd) list \<Rightarrow> ('n \<Rightarrow> 'd) \<Rightarrow> 'n \<Rightarrow> 'd" where
  "apply_writes ws d = foldl (\<lambda>d w. d(fst w := snd w)) d ws"

definition a_writes :: "('n \<times> 'd) list \<Rightarrow> ('n, 'd) cache \<Rightarrow> ('n, 'd) cache" where
  "a_writes ws c = c\<lparr>c_view := apply_writes ws (c_view c), c_disk := apply_writes ws (c_disk c),
     c_writes := c_writes c @ ws\<rparr>"

definition a_unref :: "'n \<Rightarrow> ('n, 'd) cache \<Rightarrow> ('n, 'd) cache" where
  "a_unref n c = c\<lparr>c_refs := (c_refs c)(n := c_refs c n - 1),
     c_free := c_free c + (if c_refs c n = 1 then 1 else 0)\<rparr>"

lemma apply_writes_Nil [simp]: "apply_writes [] d = d"
  by (simp add: apply_writes_def)

lemma apply_writes_append: "apply_writes (xs @ ys) d = apply_writes ys (apply_writes xs d)"
  by (simp add: apply_writes_def)

lemma apply_writes_Cons: "apply_writes (w # ws) d = apply_writes ws (d(fst w := snd w))"
  by (simp add: apply_writes_def)

lemma apply_writes_other: "n \<notin> fst ` set ws \<Longrightarrow> apply_writes ws d n = d n"
  by (induction ws arbitrary: d) (auto simp: apply_writes_Cons)

lemma apply_writes_mem:
  "distinct (map fst ws) \<Longrightarrow> (n, x) \<in> set ws \<Longrightarrow> apply_writes ws d n = x"
  by (induction ws arbitrary: d) (auto simp: apply_writes_Cons apply_writes_other)

lemma apply_writes_all:
  "(\<And>w. w \<in> set ws \<Longrightarrow> P (snd w)) \<Longrightarrow> P (d n) \<Longrightarrow> P (apply_writes ws d n)"
  by (induction ws arbitrary: d) (auto simp: apply_writes_Cons)

lemma a_writes_simps [simp]:
  "c_view (a_writes ws c) = apply_writes ws (c_view c)"
  "c_disk (a_writes ws c) = apply_writes ws (c_disk c)"
  "c_writes (a_writes ws c) = c_writes c @ ws" "c_refs (a_writes ws c) = c_refs c"
  "c_locked (a_writes ws c) = c_locked c" "c_free (a_writes ws c) = c_free c"
  by (simp_all add: a_writes_def)

lemma a_unref_simps [simp]:
  "c_view (a_unref n c) = c_view c" "c_disk (a_unref n c) = c_disk c"
  "c_writes (a_unref n c) = c_writes c" "c_locked (a_unref n c) = c_locked c"
  "c_refs (a_unref n c) = (c_refs c)(n := c_refs c n - 1)"
  "c_free (a_unref n c) = c_free c + (if c_refs c n = 1 then 1 else 0)"
  by (simp_all add: a_unref_def)

lemma a_writes_Nil [simp]: "a_writes [] c = c"
  by (simp add: a_writes_def)

lemma a_writes_append: "a_writes (xs @ ys) c = a_writes ys (a_writes xs c)"
  by (simp add: a_writes_def apply_writes_append)

lemma a_writes_unref: "a_writes ws (a_unref n c) = a_unref n (a_writes ws c)"
  by (simp add: a_writes_def a_unref_def)

section \<open>The contract\<close>

locale block_cache =
  fixes inv :: "'s \<Rightarrow> bool"
    and obs :: "'s \<Rightarrow> ('n, 'd) cache"
    and owns :: "'s \<Rightarrow> 'n \<Rightarrow> 'b \<Rightarrow> bool"
    and frame :: "'s \<Rightarrow> 's \<Rightarrow> bool"
    and fits :: "'d \<Rightarrow> bool"
    and maxref :: nat
    and bread :: "'n \<Rightarrow> 's \<Rightarrow> ('s, 'b) outcome"
    and bwrite :: "'b \<Rightarrow> 's \<Rightarrow> ('s, unit) outcome"
    and brelse :: "'b \<Rightarrow> 's \<Rightarrow> ('s, unit) outcome"
    and bpin :: "'b \<Rightarrow> 's \<Rightarrow> ('s, unit) outcome"
    and bunpin :: "'b \<Rightarrow> 's \<Rightarrow> ('s, unit) outcome"
    and put :: "'b \<Rightarrow> 'd \<Rightarrow> 's \<Rightarrow> ('s, unit) outcome"
    and get :: "'b \<Rightarrow> 's \<Rightarrow> ('s, 'd) outcome"
  assumes frame_trans: "frame s t \<Longrightarrow> frame t u \<Longrightarrow> frame s u"
    and view_fits: "inv s \<Longrightarrow> fits (c_view (obs s) n)"
    and unref_law: "inv s \<Longrightarrow> c_refs (obs s) n = 0 \<Longrightarrow>
        c_view (obs s) n = c_disk (obs s) n \<and> \<not> c_locked (obs s) n"
    and bread_law: "inv s \<Longrightarrow> \<not> c_locked (obs s) n \<Longrightarrow> 0 < c_refs (obs s) n \<or> 0 < c_free (obs s) \<Longrightarrow>
        c_refs (obs s) n < maxref \<Longrightarrow>
        \<exists>b t. bread n s = Ok b t \<and> inv t \<and> frame s t \<and> owns t n b \<and> obs t = a_bread n (obs s)
          \<and> (\<forall>m c. m \<noteq> n \<longrightarrow> owns s m c \<longrightarrow> owns t m c)"
    and brelse_law: "inv s \<Longrightarrow> owns s n b \<Longrightarrow>
        c_refs (obs s) n = 1 \<longrightarrow> c_view (obs s) n = c_disk (obs s) n \<Longrightarrow>
        \<exists>t. brelse b s = Ok () t \<and> inv t \<and> frame s t \<and> obs t = a_brelse n (obs s)
          \<and> (\<forall>m c. m \<noteq> n \<longrightarrow> owns s m c \<longrightarrow> owns t m c)"
    and bwrite_law: "inv s \<Longrightarrow> owns s n b \<Longrightarrow>
        \<exists>t. bwrite b s = Ok () t \<and> inv t \<and> frame s t \<and> obs t = a_bwrite n (obs s)
          \<and> (\<forall>m c. owns s m c \<longrightarrow> owns t m c)"
    and put_law: "inv s \<Longrightarrow> owns s n b \<Longrightarrow> fits d \<Longrightarrow>
        \<exists>t. put b d s = Ok () t \<and> inv t \<and> frame s t \<and> obs t = a_put n d (obs s)
          \<and> (\<forall>m c. owns s m c \<longrightarrow> owns t m c)"
    and get_law: "inv s \<Longrightarrow> owns s n b \<Longrightarrow> get b s = Ok (c_view (obs s) n) s"
    and bpin_law: "inv s \<Longrightarrow> owns s n b \<Longrightarrow> c_refs (obs s) n < maxref \<Longrightarrow>
        \<exists>t. bpin b s = Ok () t \<and> inv t \<and> frame s t \<and> obs t = a_bpin n (obs s)
          \<and> (\<forall>m c. owns s m c \<longrightarrow> owns t m c)"
    and bunpin_law: "inv s \<Longrightarrow> owns s n b \<Longrightarrow> 1 < c_refs (obs s) n \<Longrightarrow>
        \<exists>t. bunpin b s = Ok () t \<and> inv t \<and> frame s t \<and> obs t = a_bunpin n (obs s)
          \<and> (\<forall>m c. owns s m c \<longrightarrow> owns t m c)"
begin

text \<open>Reading a block: nothing observable changes.\<close>

lemma read_block:
  assumes inv: "inv s" and unl: "\<not> c_locked (obs s) n"
    and av: "0 < c_refs (obs s) n \<or> 0 < c_free (obs s)" and lim: "c_refs (obs s) n < maxref"
  shows "\<exists>t. mbind (bread n) (\<lambda>b. mbind (get b) (\<lambda>d. mbind (brelse b) (\<lambda>_. ret (f d)))) s
      = Ok (f (c_view (obs s) n)) t \<and> inv t \<and> frame s t \<and> obs t = obs s"
proof -
  obtain b1 s1 where 1: "bread n s = Ok b1 s1" "inv s1" "frame s s1" "owns s1 n b1"
    "obs s1 = a_bread n (obs s)"
    using bread_law[OF inv unl av lim] by blast
  obtain s2 where 2: "brelse b1 s1 = Ok () s2" "inv s2" "frame s1 s2" "obs s2 = a_brelse n (obs s1)"
    using brelse_law[OF 1(2,4)] 1(5) unref_law[OF inv, of n] by (auto simp: a_bread_def)
  have "frame s s2" using 1(3) 2(3) by (rule frame_trans)
  moreover have "obs s2 = obs s"
    using 1(5) 2(4) unl av by (cases "obs s") (auto simp: a_defs fun_eq_iff)
  ultimately show ?thesis
    using 1(1) 2(1,2) get_law[OF 1(2) 1(4)] 1(5) by (auto simp: a_bread_def)
qed

text \<open>Changing an unreferenced block and writing it through.\<close>

lemma update_block:
  assumes inv: "inv s" and refs: "c_refs (obs s) n = 0" and av: "0 < c_free (obs s)"
    and lim: "0 < maxref" and fit: "fits (f (c_view (obs s) n))"
  shows "\<exists>t. mbind (bread n) (\<lambda>b. mbind (get b) (\<lambda>d. mbind (put b (f d)) (\<lambda>_.
      mbind (bwrite b) (\<lambda>_. brelse b)))) s = Ok () t \<and> inv t \<and> frame s t
    \<and> obs t = a_writes [(n, f (c_view (obs s) n))] (obs s)"
proof -
  have unl: "\<not> c_locked (obs s) n" using unref_law[OF inv refs] by blast
  obtain b1 s1 where 1: "bread n s = Ok b1 s1" "inv s1" "frame s s1" "owns s1 n b1"
    "obs s1 = a_bread n (obs s)"
    using bread_law[OF inv unl] refs av lim by auto
  have v: "c_view (obs s1) n = c_view (obs s) n" using 1(5) by (simp add: a_bread_def)
  obtain s2 where 2: "put b1 (f (c_view (obs s) n)) s1 = Ok () s2" "inv s2" "frame s1 s2"
    "obs s2 = a_put n (f (c_view (obs s) n)) (obs s1)" "owns s2 n b1"
    using put_law[OF 1(2,4) fit] 1(4) by blast
  obtain s3 where 3: "bwrite b1 s2 = Ok () s3" "inv s3" "frame s2 s3" "obs s3 = a_bwrite n (obs s2)" "owns s3 n b1"
    using bwrite_law[OF 2(2,5)] 2(5) by blast
  obtain s4 where 4: "brelse b1 s3 = Ok () s4" "inv s4" "frame s3 s4" "obs s4 = a_brelse n (obs s3)"
    using brelse_law[OF 3(2,5)] 3(4) 2(4) by (auto simp: a_defs)
  have "frame s s4" using 1(3) 2(3) 3(3) 4(3) by (meson frame_trans)
  moreover have "obs s4 = a_writes [(n, f (c_view (obs s) n))] (obs s)"
    using 1(5) 2(4) 3(4) 4(4) refs unl av
    by (cases "obs s") (auto simp: a_defs a_writes_def apply_writes_Cons fun_eq_iff)
  ultimately show ?thesis
    using 1(1) 2(1) 3(1) 4(1,2) get_law[OF 1(2,4)] v by auto
qed

text \<open>Copying one block over another and writing it through, the source staying referenced: the
  body of the loop that fills the on-disk log.\<close>

lemma copy_out:
  assumes inv: "inv s" and ne: "l \<noteq> h"
    and unl: "\<not> c_locked (obs s) h"
    and refs: "c_refs (obs s) l = 0" "0 < c_refs (obs s) h" "c_refs (obs s) h < maxref"
    and free: "0 < c_free (obs s)"
  shows "\<exists>t. mbind (bread l) (\<lambda>to. mbind (bread h) (\<lambda>from. mbind (get from) (\<lambda>d.
      mbind (put to d) (\<lambda>_. mbind (bwrite to) (\<lambda>_. mbind (brelse from) (\<lambda>_. brelse to)))))) s = Ok () t
    \<and> inv t \<and> frame s t \<and> obs t = a_writes [(l, c_view (obs s) h)] (obs s)"
proof -
  have unl': "\<not> c_locked (obs s) l" using unref_law[OF inv refs(1)] by blast
  obtain b1 s1 where 1: "bread l s = Ok b1 s1" "inv s1" "frame s s1" "owns s1 l b1"
    "obs s1 = a_bread l (obs s)"
    using bread_law[OF inv, of l] unl' refs free by auto
  obtain b2 s2 where 2: "bread h s1 = Ok b2 s2" "inv s2" "frame s1 s2" "owns s2 h b2"
    "obs s2 = a_bread h (obs s1)" "owns s2 l b1"
    using bread_law[OF 1(2), of h] unl refs ne 1 by (auto simp: a_bread_def)
  obtain s3 where 3: "put b1 (c_view (obs s2) h) s2 = Ok () s3" "inv s3" "frame s2 s3"
    "obs s3 = a_put l (c_view (obs s2) h) (obs s2)" "owns s3 l b1" "owns s3 h b2"
    using put_law[OF 2(2) 2(6) view_fits[OF 2(2)]] 2 by blast
  obtain s4 where 4: "bwrite b1 s3 = Ok () s4" "inv s4" "frame s3 s4"
    "obs s4 = a_bwrite l (obs s3)" "owns s4 l b1" "owns s4 h b2"
    using bwrite_law[OF 3(2) 3(5)] 3 by blast
  obtain s5 where 5: "brelse b2 s4 = Ok () s5" "inv s5" "frame s4 s5"
    "obs s5 = a_brelse h (obs s4)" "owns s5 l b1"
    using brelse_law[OF 4(2) 4(6)] 4 3 2 1 refs ne by (auto simp: a_defs)
  obtain s6 where 6: "brelse b1 s5 = Ok () s6" "inv s6" "frame s5 s6" "obs s6 = a_brelse l (obs s5)"
    using brelse_law[OF 5(2) 5(5)] 5 4 3 2 1 by (auto simp: a_defs)
  have "frame s s6" using 1(3) 2(3) 3(3) 4(3) 5(3) 6(3) by (meson frame_trans)
  moreover have "obs s6 = a_writes [(l, c_view (obs s) h)] (obs s)"
    using 1(5) 2(5) 3(4) 4(4) 5(4) 6(4) ne refs unl unl' free
    by (cases "obs s") (auto simp: a_defs a_writes_def apply_writes_Cons fun_eq_iff)
  ultimately show ?thesis
    using 1(1) 2(1) 3(1) 4(1) 5(1) 6(1,2) get_law[OF 2(2) 2(4)] by auto
qed

text \<open>Installing a logged block at its home location, dropping the pin of the transaction.\<close>

lemma install_pinned:
  assumes inv: "inv s" and ne: "l \<noteq> h" and unl: "\<not> c_locked (obs s) h"
    and refs: "c_refs (obs s) l = 0" "0 < c_refs (obs s) h" "c_refs (obs s) h < maxref"
    and free: "0 < c_free (obs s)"
  shows "\<exists>t. mbind (bread l) (\<lambda>lb. mbind (bread h) (\<lambda>db. mbind (get lb) (\<lambda>d.
      mbind (put db d) (\<lambda>_. mbind (bwrite db) (\<lambda>_. mbind (bunpin db) (\<lambda>_.
      mbind (brelse lb) (\<lambda>_. brelse db))))))) s = Ok () t
    \<and> inv t \<and> frame s t \<and> obs t = a_unref h (a_writes [(h, c_view (obs s) l)] (obs s))"
proof -
  have unl': "\<not> c_locked (obs s) l" "c_view (obs s) l = c_disk (obs s) l"
    using unref_law[OF inv refs(1)] by auto
  obtain b1 s1 where 1: "bread l s = Ok b1 s1" "inv s1" "frame s s1" "owns s1 l b1"
    "obs s1 = a_bread l (obs s)"
    using bread_law[OF inv, of l] unl' refs free by auto
  obtain b2 s2 where 2: "bread h s1 = Ok b2 s2" "inv s2" "frame s1 s2" "owns s2 h b2"
    "obs s2 = a_bread h (obs s1)" "owns s2 l b1"
    using bread_law[OF 1(2), of h] unl refs ne 1 by (auto simp: a_bread_def)
  obtain s3 where 3: "put b2 (c_view (obs s2) l) s2 = Ok () s3" "inv s3" "frame s2 s3"
    "obs s3 = a_put h (c_view (obs s2) l) (obs s2)" "owns s3 l b1" "owns s3 h b2"
    using put_law[OF 2(2) 2(4) view_fits[OF 2(2)]] 2 by blast
  obtain s4 where 4: "bwrite b2 s3 = Ok () s4" "inv s4" "frame s3 s4"
    "obs s4 = a_bwrite h (obs s3)" "owns s4 l b1" "owns s4 h b2"
    using bwrite_law[OF 3(2) 3(6)] 3 by blast
  obtain s5 where 5: "bunpin b2 s4 = Ok () s5" "inv s5" "frame s4 s5"
    "obs s5 = a_bunpin h (obs s4)" "owns s5 l b1" "owns s5 h b2"
    using bunpin_law[OF 4(2) 4(6)] 4 3 2 1 refs ne by (auto simp: a_defs)
  obtain s6 where 6: "brelse b1 s5 = Ok () s6" "inv s6" "frame s5 s6"
    "obs s6 = a_brelse l (obs s5)" "owns s6 h b2"
    using brelse_law[OF 5(2) 5(5)] 5 4 3 2 1 unl' ne by (auto simp: a_defs)
  obtain s7 where 7: "brelse b2 s6 = Ok () s7" "inv s7" "frame s6 s7" "obs s7 = a_brelse h (obs s6)"
    using brelse_law[OF 6(2) 6(5)] 6 5 4 3 2 1 ne by (auto simp: a_defs)
  have "frame s s7" using 1(3) 2(3) 3(3) 4(3) 5(3) 6(3) 7(3) by (meson frame_trans)
  moreover have "obs s7 = a_unref h (a_writes [(h, c_view (obs s) l)] (obs s))"
    using 1(5) 2(5) 3(4) 4(4) 5(4) 6(4) 7(4) ne refs unl unl' free
    by (cases "obs s") (auto simp: a_defs a_writes_def a_unref_def apply_writes_Cons fun_eq_iff)
  ultimately show ?thesis
    using 1(1) 2(1) 3(1) 4(1) 5(1) 6(1) 7(1,2) get_law[OF 2(2) 2(6)] by auto
qed

text \<open>The same during recovery, where no block is referenced.\<close>

lemma install_unpinned:
  assumes inv: "inv s" and ne: "l \<noteq> h"
    and refs: "c_refs (obs s) l = 0" "c_refs (obs s) h = 0"
    and free: "1 < c_free (obs s)" and lim: "0 < maxref"
  shows "\<exists>t. mbind (bread l) (\<lambda>lb. mbind (bread h) (\<lambda>db. mbind (get lb) (\<lambda>d.
      mbind (put db d) (\<lambda>_. mbind (bwrite db) (\<lambda>_. 
      mbind (brelse lb) (\<lambda>_. brelse db)))))) s = Ok () t
    \<and> inv t \<and> frame s t \<and> obs t = a_writes [(h, c_view (obs s) l)] (obs s)"
proof -
  have unl: "\<not> c_locked (obs s) l" "c_view (obs s) l = c_disk (obs s) l" "\<not> c_locked (obs s) h"
    using unref_law[OF inv refs(1)] unref_law[OF inv refs(2)] by auto
  obtain b1 s1 where 1: "bread l s = Ok b1 s1" "inv s1" "frame s s1" "owns s1 l b1"
    "obs s1 = a_bread l (obs s)"
    using bread_law[OF inv, of l] unl refs free lim by auto
  obtain b2 s2 where 2: "bread h s1 = Ok b2 s2" "inv s2" "frame s1 s2" "owns s2 h b2"
    "obs s2 = a_bread h (obs s1)" "owns s2 l b1"
    using bread_law[OF 1(2), of h] unl refs ne free lim 1 by (auto simp: a_bread_def)
  obtain s3 where 3: "put b2 (c_view (obs s2) l) s2 = Ok () s3" "inv s3" "frame s2 s3"
    "obs s3 = a_put h (c_view (obs s2) l) (obs s2)" "owns s3 l b1" "owns s3 h b2"
    using put_law[OF 2(2) 2(4) view_fits[OF 2(2)]] 2 by blast
  obtain s4 where 4: "bwrite b2 s3 = Ok () s4" "inv s4" "frame s3 s4"
    "obs s4 = a_bwrite h (obs s3)" "owns s4 l b1" "owns s4 h b2"
    using bwrite_law[OF 3(2) 3(6)] 3 by blast
  obtain s6 where 6: "brelse b1 s4 = Ok () s6" "inv s6" "frame s4 s6"
    "obs s6 = a_brelse l (obs s4)" "owns s6 h b2"
    using brelse_law[OF 4(2) 4(5)] 4 3 2 1 unl ne by (auto simp: a_defs)
  obtain s7 where 7: "brelse b2 s6 = Ok () s7" "inv s7" "frame s6 s7" "obs s7 = a_brelse h (obs s6)"
    using brelse_law[OF 6(2) 6(5)] 6 4 3 2 1 ne by (auto simp: a_defs)
  have "frame s s7" using 1(3) 2(3) 3(3) 4(3) 6(3) 7(3) by (meson frame_trans)
  moreover have "obs s7 = a_writes [(h, c_view (obs s) l)] (obs s)"
    using 1(5) 2(5) 3(4) 4(4) 6(4) 7(4) ne refs unl free
    by (cases "obs s") (auto simp: a_defs a_writes_def apply_writes_Cons fun_eq_iff)
  ultimately show ?thesis
    using 1(1) 2(1) 3(1) 4(1) 6(1) 7(1,2) get_law[OF 2(2) 2(6)] by auto
qed

end

end
