(* ===== verification/Bio.thy ===== *)
theory Bio
  imports Sched Block_Cache
begin

text \<open>
  The buffer cache (\<open>bio.c\<close>). \<open>lru\<close> is the sequence of buffers on the circular list, from
  \<open>head.next\<close> (most recently used) to \<open>head.prev\<close>. The abstraction is \<open>view\<close>: the content of a block
  as a client of the cache sees it, whether it is cached or not.
\<close>

section \<open>Operations\<close>

definition upd_buf :: "nat \<Rightarrow> (buf \<Rightarrow> buf) \<Rightarrow> unit K" where
  "upd_buf b f = modify (\<lambda>s. s\<lparr>bufs := tbl_upd b f (bufs s)\<rparr>)"

definition empty_buf :: buf where
  "empty_buf = \<lparr>b_valid = False, b_disk = False, b_dev = 0, b_blockno = 0,
     b_lock = \<lparr>sl_locked = False, sl_pid = 0\<rparr>, b_refcnt = 0, b_data = replicate BSIZE 0\<rparr>"

text \<open>\<open>binit\<close> starts from the zeroed static array and pushes each buffer at the front.\<close>

definition binit :: "unit K" where
  "binit =
     mbind (modify (\<lambda>s. s\<lparr>bufs := replicate NBUF empty_buf, lru := []\<rparr>)) (\<lambda>_.
     for_each [0..<NBUF] (\<lambda>b.
       mbind (modify (\<lambda>s. s\<lparr>lru := b # lru s\<rparr>)) (\<lambda>_.
       initsleeplock (SL_buf b))))"

text \<open>The completed effect of \<open>virtio_disk_rw(b, write)\<close>: one block moves between the buffer and
  the disk.\<close>

definition disk_transfer :: "nat \<Rightarrow> bool \<Rightarrow> unit K" where
  "disk_transfer b wr = modify (\<lambda>s.
     if wr then s\<lparr>disk := (disk s)(b_blockno (bufs s ! b) := b_data (bufs s ! b)),
                   dwrites := dwrites s @ [(b_blockno (bufs s ! b), b_data (bufs s ! b))]\<rparr>
     else s\<lparr>bufs := tbl_upd b (\<lambda>x. x\<lparr>b_data := disk s (b_blockno (bufs s ! b))\<rparr>) (bufs s)\<rparr>)"

definition bget :: "u32 \<Rightarrow> u32 \<Rightarrow> nat K" where
  "bget dev blockno =
     mbind (acquire L_bcache) (\<lambda>_.
     mbind (gets (\<lambda>s. find (\<lambda>b. b_dev (bufs s ! b) = dev \<and> b_blockno (bufs s ! b) = blockno) (lru s))) (\<lambda>hit.
     case hit of
       Some b \<Rightarrow>
         mbind (upd_buf b (\<lambda>x. x\<lparr>b_refcnt := b_refcnt x + 1\<rparr>)) (\<lambda>_.
         mbind (release L_bcache) (\<lambda>_.
         mbind (acquiresleep (SL_buf b)) (\<lambda>_.
         ret b)))
     | None \<Rightarrow>
         mbind (gets (\<lambda>s. find (\<lambda>b. b_refcnt (bufs s ! b) = 0) (rev (lru s)))) (\<lambda>victim.
         case victim of
           Some b \<Rightarrow>
             mbind (upd_buf b (\<lambda>x. x\<lparr>b_dev := dev, b_blockno := blockno, b_valid := False, b_refcnt := 1\<rparr>)) (\<lambda>_.
             mbind (release L_bcache) (\<lambda>_.
             mbind (acquiresleep (SL_buf b)) (\<lambda>_.
             ret b)))
         | None \<Rightarrow> panic ''bget: no buffers'')))"

definition bread :: "u32 \<Rightarrow> u32 \<Rightarrow> nat K" where
  "bread dev blockno =
     mbind (bget dev blockno) (\<lambda>b.
     mbind (gets (\<lambda>s. b_valid (bufs s ! b))) (\<lambda>valid.
     mbind (if \<not> valid then
              mbind (disk_transfer b False) (\<lambda>_.
              upd_buf b (\<lambda>x. x\<lparr>b_valid := True\<rparr>))
            else ret ()) (\<lambda>_.
     ret b)))"

definition bwrite :: "nat \<Rightarrow> unit K" where
  "bwrite b =
     mbind (holdingsleep (SL_buf b)) (\<lambda>h.
     if \<not> h then panic ''bwrite'' else disk_transfer b True)"

definition brelse :: "nat \<Rightarrow> unit K" where
  "brelse b =
     mbind (holdingsleep (SL_buf b)) (\<lambda>h.
     if \<not> h then panic ''brelse'' else
     mbind (releasesleep (SL_buf b)) (\<lambda>_.
     mbind (acquire L_bcache) (\<lambda>_.
     mbind (upd_buf b (\<lambda>x. x\<lparr>b_refcnt := b_refcnt x - 1\<rparr>)) (\<lambda>_.
     mbind (gets (\<lambda>s. b_refcnt (bufs s ! b))) (\<lambda>r.
     mbind (if r = 0 then modify (\<lambda>s. s\<lparr>lru := b # remove1 b (lru s)\<rparr>) else ret ()) (\<lambda>_.
     release L_bcache))))))"

definition bpin :: "nat \<Rightarrow> unit K" where
  "bpin b =
     mbind (acquire L_bcache) (\<lambda>_.
     mbind (upd_buf b (\<lambda>x. x\<lparr>b_refcnt := b_refcnt x + 1\<rparr>)) (\<lambda>_.
     release L_bcache))"

definition bunpin :: "nat \<Rightarrow> unit K" where
  "bunpin b =
     mbind (acquire L_bcache) (\<lambda>_.
     mbind (upd_buf b (\<lambda>x. x\<lparr>b_refcnt := b_refcnt x - 1\<rparr>)) (\<lambda>_.
     release L_bcache))"

text \<open>Storing into \<open>b->data\<close>.\<close>

definition set_data :: "nat \<Rightarrow> byte list \<Rightarrow> unit K" where
  "set_data b d = upd_buf b (\<lambda>x. x\<lparr>b_data := d\<rparr>)"

definition buf_data :: "nat \<Rightarrow> byte list K" where
  "buf_data b = gets (\<lambda>s. b_data (bufs s ! b))"

lemma keeps_bread [keeps_intros]:
  assumes "\<And>s h. f (s\<lparr>held := h\<rparr>) = f s" and "\<And>s bs. f (s\<lparr>bufs := bs\<rparr>) = f s"
  shows "keeps f (bread dev bn)"
  unfolding bread_def bget_def disk_transfer_def upd_buf_def
  by (intro keeps_intros) (simp_all add: assms)

section \<open>Invariant and abstraction\<close>

definition is_buf :: "kstate \<Rightarrow> u32 \<Rightarrow> nat \<Rightarrow> bool" where
  "is_buf s bn b \<longleftrightarrow> b < NBUF \<and> b_dev (bufs s ! b) = ROOTDEV \<and> b_blockno (bufs s ! b) = bn"

text \<open>
  One buffer is sound: it is either still unused or caches a block of the root device; its data
  has the block size; when unreferenced it is unlocked and, if valid, holds what is on disk, so
  that recycling it loses nothing.
\<close>

definition buf_ok :: "(u32 \<Rightarrow> byte list) \<Rightarrow> buf \<Rightarrow> bool" where
  "buf_ok dk x \<longleftrightarrow>
     (b_dev x = ROOTDEV \<or> b_dev x = 0 \<and> \<not> b_valid x \<and> b_refcnt x = 0)
     \<and> length (b_data x) = BSIZE
     \<and> (b_refcnt x = 0 \<longrightarrow> \<not> sl_locked (b_lock x))
     \<and> (b_refcnt x = 0 \<and> b_valid x \<longrightarrow> b_data x = dk (b_blockno x))"

text \<open>The cache invariant: the list links every buffer once, no block is cached twice, and every
  buffer is sound.\<close>

definition bc_inv :: "kstate \<Rightarrow> bool" where
  "bc_inv s \<longleftrightarrow>
     distinct (lru s) \<and> set (lru s) = {..<NBUF} \<and> length (bufs s) = NBUF
     \<and> (\<forall>b c bn. is_buf s bn b \<and> is_buf s bn c \<longrightarrow> b = c)
     \<and> (\<forall>b < NBUF. buf_ok (disk s) (bufs s ! b))
     \<and> (\<forall>bn. length (disk s bn) = BSIZE)"

definition cached :: "kstate \<Rightarrow> u32 \<Rightarrow> nat option" where
  "cached s bn = find (\<lambda>b. b_dev (bufs s ! b) = ROOTDEV \<and> b_blockno (bufs s ! b) = bn) (lru s)"

text \<open>What a client observes: the content of a block, its reference count, whether its buffer is
  locked, which buffer the process \<open>p\<close> holds locked for it, and how many buffers can be recycled.\<close>

definition view :: "kstate \<Rightarrow> u32 \<Rightarrow> byte list" where
  "view s bn = (case cached s bn of
       Some b \<Rightarrow> if b_valid (bufs s ! b) then b_data (bufs s ! b) else disk s bn
     | None \<Rightarrow> disk s bn)"

definition rc :: "kstate \<Rightarrow> u32 \<Rightarrow> nat" where
  "rc s bn = (case cached s bn of Some b \<Rightarrow> unat (b_refcnt (bufs s ! b)) | None \<Rightarrow> 0)"

definition lkd :: "kstate \<Rightarrow> u32 \<Rightarrow> bool" where
  "lkd s bn = (case cached s bn of Some b \<Rightarrow> sl_locked (b_lock (bufs s ! b)) | None \<Rightarrow> False)"

definition owns :: "nat \<Rightarrow> kstate \<Rightarrow> u32 \<Rightarrow> nat \<Rightarrow> bool" where
  "owns p s bn b \<longleftrightarrow> is_buf s bn b \<and> b_valid (bufs s ! b) \<and> 0 < b_refcnt (bufs s ! b)
     \<and> b_lock (bufs s ! b) = \<lparr>sl_locked = True, sl_pid = p_pid (procs s ! p)\<rparr>"

definition nfree :: "kstate \<Rightarrow> nat" where
  "nfree s = card {b. b < NBUF \<and> b_refcnt (bufs s ! b) = 0}"

text \<open>Everything the cache leaves alone.\<close>

definition bc_frame :: "kstate \<Rightarrow> kstate \<Rightarrow> bool" where
  "bc_frame s t \<longleftrightarrow> map p_pid (procs t) = map p_pid (procs s) \<and>
     s\<lparr>bufs := bufs t, lru := lru t, disk := disk t, dwrites := dwrites t, procs := procs t\<rparr> = t"

lemma bc_frame_refl [simp]: "bc_frame s s"
  by (simp add: bc_frame_def)

lemma bc_frame_trans [trans]:
  assumes "bc_frame s t" and "bc_frame t u"
  shows "bc_frame s u"
proof -
  let ?f = "\<lambda>s t. s\<lparr>bufs := bufs t, lru := lru t, disk := disk t, dwrites := dwrites t, procs := procs t\<rparr>"
  have "?f s u = ?f (?f s t) u" by simp
  also have "\<dots> = u" using assms unfolding bc_frame_def by metis
  finally show ?thesis using assms by (simp add: bc_frame_def)
qed

lemma bc_frame_keeps:
  assumes "bc_frame s t"
    and "\<And>s b l d w p. f (s\<lparr>bufs := b, lru := l, disk := d, dwrites := w, procs := p\<rparr>) = f s"
  shows "f t = f s"
  using assms by (metis bc_frame_def)

lemma bc_frameD:
  assumes "bc_frame s t"
  shows "held t = held s" "curproc t = curproc s" "klog t = klog s" "sb t = sb s"
    "inodes t = inodes s" "files t = files s" "mem t = mem s" "uart_out t = uart_out s"
    "pipes t = pipes s" "length (procs t) = length (procs s)"
proof -
  show "length (procs t) = length (procs s)"
    using assms by (auto simp: bc_frame_def dest: map_eq_imp_length_eq)
qed (rule bc_frame_keeps[OF assms]; simp)+

lemma in_proc_frame: "bc_frame s t \<Longrightarrow> in_proc p s \<Longrightarrow> in_proc p t"
  by (simp add: in_proc_def bc_frameD)

lemma bc_frame_pid:
  assumes "bc_frame s t" and "p < length (procs s)"
  shows "p_pid (procs t ! p) = p_pid (procs s ! p)"
proof -
  have "map p_pid (procs t) ! p = map p_pid (procs s) ! p" using assms by (simp add: bc_frame_def)
  with assms show ?thesis by (simp add: bc_frameD)
qed

lemma map_pid_wake [simp]: "map p_pid (wake ch m ps) = map p_pid ps"
  by (rule nth_equalityI) auto

section \<open>Lookup\<close>

lemma find_unique:
  assumes "\<And>x. x \<in> set xs \<Longrightarrow> P x \<Longrightarrow> x = y"
  shows "find P xs = Some z \<longleftrightarrow> z = y \<and> y \<in> set xs \<and> P y"
  using assms by (induction xs) auto

lemma is_buf_unique: "bc_inv s \<Longrightarrow> is_buf s bn b \<Longrightarrow> is_buf s bn c \<Longrightarrow> b = c"
  by (auto simp: bc_inv_def)

lemma cached_iff:
  assumes "bc_inv s"
  shows "cached s bn = Some b \<longleftrightarrow> is_buf s bn b"
proof
  assume "cached s bn = Some b"
  then have "b \<in> set (lru s)" "b_dev (bufs s ! b) = ROOTDEV" "b_blockno (bufs s ! b) = bn"
    by (auto simp: cached_def find_Some_iff)
  with assms show "is_buf s bn b" by (auto simp: bc_inv_def is_buf_def)
next
  assume b: "is_buf s bn b"
  with assms have "x = b" if "x \<in> set (lru s)" "b_dev (bufs s ! x) = ROOTDEV \<and> b_blockno (bufs s ! x) = bn" for x
    using that by (auto simp: bc_inv_def is_buf_def)
  then have "cached s bn = Some b \<longleftrightarrow> b = b \<and> b \<in> set (lru s) \<and>
      (b_dev (bufs s ! b) = ROOTDEV \<and> b_blockno (bufs s ! b) = bn)"
    unfolding cached_def by (rule find_unique)
  with b assms show "cached s bn = Some b" by (auto simp: is_buf_def bc_inv_def)
qed

lemma cached_None_iff:
  assumes "bc_inv s"
  shows "cached s bn = None \<longleftrightarrow> (\<forall>b. \<not> is_buf s bn b)"
  using cached_iff[OF assms] by (metis not_None_eq)

lemma obs_of_buf:
  assumes "bc_inv s" and "is_buf s bn b"
  shows "view s bn = (if b_valid (bufs s ! b) then b_data (bufs s ! b) else disk s bn)"
    and "rc s bn = unat (b_refcnt (bufs s ! b))"
    and "lkd s bn = sl_locked (b_lock (bufs s ! b))"
  using assms cached_iff[of s bn b] by (simp_all add: view_def rc_def lkd_def)

lemma obs_of_none:
  assumes "bc_inv s" and "\<And>b. \<not> is_buf s bn b"
  shows "view s bn = disk s bn" and "rc s bn = 0" and "\<not> lkd s bn"
  using assms cached_None_iff[of s bn] by (simp_all add: view_def rc_def lkd_def)

lemma length_view [simp]:
  assumes "bc_inv s"
  shows "length (view s bn) = BSIZE"
proof (cases "\<exists>b. is_buf s bn b")
  case True
  then obtain b where b: "is_buf s bn b" by blast
  with assms show ?thesis
    by (auto simp: obs_of_buf[OF assms b] bc_inv_def buf_ok_def is_buf_def)
next
  case False
  with assms show ?thesis by (simp add: obs_of_none bc_inv_def)
qed

lemma unreferenced:
  assumes "bc_inv s" and "rc s bn = 0"
  shows "view s bn = disk s bn \<and> \<not> lkd s bn"
proof (cases "\<exists>b. is_buf s bn b")
  case True
  then obtain b where b: "is_buf s bn b" by blast
  then have "buf_ok (disk s) (bufs s ! b)" using assms(1) by (simp add: bc_inv_def is_buf_def)
  with b assms(2) show ?thesis
    by (auto simp: obs_of_buf[OF assms(1) b] buf_ok_def is_buf_def unat_eq_zero)
next
  case False
  with assms show ?thesis by (simp add: obs_of_none)
qed

section \<open>Replacing one buffer\<close>

lemma is_buf_upd:
  assumes "bc_inv s" and "b < NBUF"
  shows "is_buf (s\<lparr>bufs := (bufs s)[b := x]\<rparr>) bn c \<longleftrightarrow>
    (if c = b then b_dev x = ROOTDEV \<and> b_blockno x = bn else is_buf s bn c)"
  using assms by (auto simp: is_buf_def bc_inv_def)

lemma bc_inv_upd:
  assumes inv: "bc_inv s" and b: "b < NBUF" and ok: "buf_ok (disk s) x"
    and uniq: "\<And>c. b_dev x = ROOTDEV \<Longrightarrow> is_buf s (b_blockno x) c \<Longrightarrow> c = b"
  shows "bc_inv (s\<lparr>bufs := (bufs s)[b := x]\<rparr>)"
proof -
  have "b1 = b2" if "is_buf (s\<lparr>bufs := (bufs s)[b := x]\<rparr>) bn b1" "is_buf (s\<lparr>bufs := (bufs s)[b := x]\<rparr>) bn b2"
    for b1 b2 bn
    using that uniq is_buf_unique[OF inv] unfolding is_buf_upd[OF inv b]
    by (metis (full_types))
  moreover have "buf_ok (disk s) ((bufs s)[b := x] ! c)" if "c < NBUF" for c
    using that inv ok by (cases "c = b") (auto simp: bc_inv_def)
  ultimately show ?thesis using inv by (simp add: bc_inv_def) blast
qed

text \<open>
  Replacing buffer \<open>b\<close> changes the observations of its new block only, provided that \<open>b\<close> cached that
  block before or was recyclable.
\<close>

lemma obs_upd:
  assumes inv: "bc_inv s" and b: "b < NBUF" and ok: "buf_ok (disk s) x" and dev: "b_dev x = ROOTDEV"
    and key: "is_buf s (b_blockno x) b \<or> b_refcnt (bufs s ! b) = 0 \<and> (\<forall>c. \<not> is_buf s (b_blockno x) c)"
  defines "t \<equiv> s\<lparr>bufs := (bufs s)[b := x]\<rparr>" and "bn \<equiv> b_blockno x"
  shows "bc_inv t"
    and "view t = (view s)(bn := if b_valid x then b_data x else disk s bn)"
    and "rc t = (rc s)(bn := unat (b_refcnt x))"
    and "lkd t = (lkd s)(bn := sl_locked (b_lock x))"
proof -
  have uniq: "c = b" if "is_buf s (b_blockno x) c" for c
    using key that is_buf_unique[OF inv that] by blast
  show t: "bc_inv t" unfolding t_def by (rule bc_inv_upd[OF inv b ok]) (rule uniq)
  have new: "is_buf t bn b" using is_buf_upd[OF inv b] dev by (simp add: t_def bn_def)
  have at_b: "bufs t ! b = x" using inv b by (simp add: t_def bc_inv_def)
  have other: "view t bn' = view s bn' \<and> rc t bn' = rc s bn' \<and> lkd t bn' = lkd s bn'" if "bn' \<noteq> bn" for bn'
  proof (cases "\<exists>c. is_buf s bn' c")
    case True
    then obtain c where c: "is_buf s bn' c" by blast
    show ?thesis
    proof (cases "c = b")
      case False
      then have c': "is_buf t bn' c" using c is_buf_upd[OF inv b] by (simp add: t_def)
      have "bufs t ! c = bufs s ! c" "disk t = disk s" using False by (simp_all add: t_def)
      then show ?thesis by (simp add: obs_of_buf[OF inv c] obs_of_buf[OF t c'])
    next
      case True
      with c that have "\<not> is_buf s bn b" by (auto simp: is_buf_def)
      with key have z: "b_refcnt (bufs s ! b) = 0" by (simp add: bn_def)
      have none: "\<not> is_buf t bn' d" for d
      proof (cases "d = b")
        case False
        then show ?thesis using is_buf_unique[OF inv c, of d] True is_buf_upd[OF inv b, of x bn' d]
          by (auto simp: t_def)
      next
        case True
        then show ?thesis using that is_buf_upd[OF inv b] by (simp add: t_def bn_def)
      qed
      have "buf_ok (disk s) (bufs s ! b)" using inv b by (simp add: bc_inv_def)
      with z c True have "view s bn' = disk s bn'" "\<not> lkd s bn'" "rc s bn' = 0"
        by (auto simp: obs_of_buf[OF inv c] buf_ok_def is_buf_def)
      then show ?thesis using obs_of_none[OF t none] by (simp add: t_def)
    qed
  next
    case False
    then have "\<not> is_buf t bn' c" for c
      using is_buf_upd[OF inv b] that by (simp add: t_def bn_def)
    with False show ?thesis using obs_of_none[OF t] obs_of_none[OF inv] by (simp add: t_def)
  qed
  have dk: "disk t = disk s" by (simp add: t_def)
  show "view t = (view s)(bn := if b_valid x then b_data x else disk s bn)"
    by (rule ext) (simp add: other obs_of_buf(1)[OF t new] at_b dk)
  show "rc t = (rc s)(bn := unat (b_refcnt x))"
    by (rule ext) (simp add: other obs_of_buf(2)[OF t new] at_b)
  show "lkd t = (lkd s)(bn := sl_locked (b_lock x))"
    by (rule ext) (simp add: other obs_of_buf(3)[OF t new] at_b)
qed

lemma nfree_upd:
  assumes "bc_inv s" and "b < NBUF"
  shows "nfree (s\<lparr>bufs := (bufs s)[b := x]\<rparr>) + (if b_refcnt (bufs s ! b) = 0 then 1 else 0)
    = nfree s + (if b_refcnt x = 0 then 1 else 0)"
proof -
  let ?F = "{c. c < NBUF \<and> c \<noteq> b \<and> b_refcnt (bufs s ! c) = 0}"
  have len: "length (bufs s) = NBUF" using assms by (simp add: bc_inv_def)
  have "{c. c < NBUF \<and> b_refcnt ((bufs s)[b := x] ! c) = 0} = (if b_refcnt x = 0 then insert b ?F else ?F)"
    using assms(2) len by (auto simp: nth_list_update)
  moreover have "{c. c < NBUF \<and> b_refcnt (bufs s ! c) = 0}
      = (if b_refcnt (bufs s ! b) = 0 then insert b ?F else ?F)"
    using assms(2) by auto
  ultimately show ?thesis by (simp add: nfree_def)
qed

lemma owns_upd:
  assumes "bc_inv s" and "b < NBUF" and "c \<noteq> b"
  shows "owns p (s\<lparr>bufs := (bufs s)[b := x]\<rparr>) bn c = owns p s bn c"
  using assms by (simp add: owns_def is_buf_upd)

section \<open>What the operations do\<close>

definition got_buf :: "nat \<Rightarrow> kstate \<Rightarrow> u32 \<Rightarrow> nat \<Rightarrow> buf" where
  "got_buf p s bn b = (bufs s ! b)\<lparr>b_valid := True, b_dev := ROOTDEV, b_blockno := bn,
     b_lock := \<lparr>sl_locked = True, sl_pid = p_pid (procs s ! p)\<rparr>,
     b_refcnt := (if is_buf s bn b then b_refcnt (bufs s ! b) + 1 else 1), b_data := view s bn\<rparr>"

lemma bread_hit:
  assumes inv: "bc_inv s" and p: "in_proc p s" and b: "is_buf s bn b"
    and lk: "\<not> sl_locked (b_lock (bufs s ! b))"
  shows "bread ROOTDEV bn s = Ok b (s\<lparr>bufs := (bufs s)[b := got_buf p s bn b]\<rparr>)"
proof -
  have len: "b < length (bufs s)" using inv b by (simp add: bc_inv_def is_buf_def)
  have hit: "find (\<lambda>b. b_dev (bufs s ! b) = ROOTDEV \<and> b_blockno (bufs s ! b) = bn) (lru s) = Some b"
    using cached_iff[OF inv, of bn b] b by (simp add: cached_def)
  let ?u = "s\<lparr>bufs := (bufs s)[b := (bufs s ! b)\<lparr>b_refcnt := b_refcnt (bufs s ! b) + 1\<rparr>]\<rparr>"
  have "in_proc p ?u" using p by (simp add: in_proc_def)
  from acquiresleep_Ok[OF this, of "SL_buf b"] lk len
  have a: "acquiresleep (SL_buf b) ?u = Ok () (?u\<lparr>bufs := (bufs s)[b := (bufs s ! b)
      \<lparr>b_refcnt := b_refcnt (bufs s ! b) + 1, b_lock := \<lparr>sl_locked = True, sl_pid = p_pid (procs s ! p)\<rparr>\<rparr>]\<rparr>)"
    by (simp add: tbl_upd_def)
  have g: "bget ROOTDEV bn s = Ok b (s\<lparr>bufs := (bufs s)[b := (bufs s ! b)
      \<lparr>b_refcnt := b_refcnt (bufs s ! b) + 1, b_lock := \<lparr>sl_locked = True, sl_pid = p_pid (procs s ! p)\<rparr>\<rparr>]\<rparr>)"
    using p hit len a by (simp add: bget_def in_proc_def upd_buf_def tbl_upd_def)
  have v: "view s bn = (if b_valid (bufs s ! b) then b_data (bufs s ! b) else disk s bn)"
    by (rule obs_of_buf(1)[OF inv b])
  have key: "b_dev (bufs s ! b) = ROOTDEV" "b_blockno (bufs s ! b) = bn" using b by (auto simp: is_buf_def)
  show ?thesis
    using b len v key
    by (cases "b_valid (bufs s ! b)"; cases "bufs s ! b")
       (auto simp: bread_def g disk_transfer_def upd_buf_def tbl_upd_def got_buf_def)
qed

lemma bread_miss:
  assumes inv: "bc_inv s" and p: "in_proc p s" and none: "\<And>b. \<not> is_buf s bn b"
    and v: "find (\<lambda>b. b_refcnt (bufs s ! b) = 0) (rev (lru s)) = Some b"
  shows "bread ROOTDEV bn s = Ok b (s\<lparr>bufs := (bufs s)[b := got_buf p s bn b]\<rparr>)"
proof -
  have b: "b < NBUF" "b_refcnt (bufs s ! b) = 0"
    using v inv by (auto simp: find_Some_iff bc_inv_def)
      (metis lessThan_iff nth_mem set_rev length_rev)
  then have len: "b < length (bufs s)" and lk: "\<not> sl_locked (b_lock (bufs s ! b))"
    using inv by (auto simp: bc_inv_def buf_ok_def)
  have miss: "find (\<lambda>b. b_dev (bufs s ! b) = ROOTDEV \<and> b_blockno (bufs s ! b) = bn) (lru s) = None"
    using cached_None_iff[OF inv, of bn] none by (simp add: cached_def)
  let ?x = "(bufs s ! b)\<lparr>b_dev := ROOTDEV, b_blockno := bn, b_valid := False, b_refcnt := 1\<rparr>"
  let ?u = "s\<lparr>bufs := (bufs s)[b := ?x]\<rparr>"
  have "in_proc p ?u" using p by (simp add: in_proc_def)
  from acquiresleep_Ok[OF this, of "SL_buf b"] lk len
  have a: "acquiresleep (SL_buf b) ?u = Ok () (?u\<lparr>bufs := (bufs s)[b := ?x
      \<lparr>b_lock := \<lparr>sl_locked = True, sl_pid = p_pid (procs s ! p)\<rparr>\<rparr>]\<rparr>)"
    by (simp add: tbl_upd_def)
  have g: "bget ROOTDEV bn s = Ok b (s\<lparr>bufs := (bufs s)[b := ?x
      \<lparr>b_lock := \<lparr>sl_locked = True, sl_pid = p_pid (procs s ! p)\<rparr>\<rparr>]\<rparr>)"
    using p miss v len a by (simp add: bget_def in_proc_def upd_buf_def tbl_upd_def)
  have "view s bn = disk s bn" by (rule obs_of_none(1)[OF inv none])
  with len none show ?thesis
    by (cases "bufs s ! b") (simp add: bread_def g disk_transfer_def upd_buf_def tbl_upd_def got_buf_def)
qed

lemma nfree_pos_find:
  assumes "bc_inv s" and "0 < nfree s"
  obtains b where "find (\<lambda>b. b_refcnt (bufs s ! b) = 0) (rev (lru s)) = Some b"
    and "b < NBUF" and "b_refcnt (bufs s ! b) = 0"
proof -
  from assms(2) obtain c where "c < NBUF" "b_refcnt (bufs s ! c) = 0"
    unfolding nfree_def by (metis (mono_tags, lifting) card.empty ex_in_conv less_numeral_extra(3) mem_Collect_eq)
  then have "find (\<lambda>b. b_refcnt (bufs s ! b) = 0) (rev (lru s)) \<noteq> None"
    using assms(1) by (auto simp: find_None_iff bc_inv_def)
  then obtain b where f: "find (\<lambda>b. b_refcnt (bufs s ! b) = 0) (rev (lru s)) = Some b" by blast
  then have "b \<in> set (lru s)" "b_refcnt (bufs s ! b) = 0"
    by (auto simp: find_Some_iff) (metis length_rev nth_mem set_rev)
  with f assms(1) show ?thesis by (intro that) (auto simp: bc_inv_def)
qed

lemma bread_slot:
  assumes inv: "bc_inv s" and p: "in_proc p s" and lk: "\<not> lkd s bn"
    and avail: "0 < rc s bn \<or> 0 < nfree s"
  obtains b where "bread ROOTDEV bn s = Ok b (s\<lparr>bufs := (bufs s)[b := got_buf p s bn b]\<rparr>)"
    and "b < NBUF"
    and "is_buf s bn b \<or> b_refcnt (bufs s ! b) = 0 \<and> (\<forall>c. \<not> is_buf s bn c)"
proof (cases "\<exists>b. is_buf s bn b")
  case True
  then obtain b where b: "is_buf s bn b" by blast
  with lk have "\<not> sl_locked (b_lock (bufs s ! b))" by (simp add: obs_of_buf[OF inv b])
  with bread_hit[OF inv p b] b show ?thesis by (intro that) (auto simp: is_buf_def)
next
  case False
  then have "rc s bn = 0" by (simp add: obs_of_none[OF inv])
  with avail have "0 < nfree s" by simp
  then obtain b where "find (\<lambda>b. b_refcnt (bufs s ! b) = 0) (rev (lru s)) = Some b"
    "b < NBUF" "b_refcnt (bufs s ! b) = 0" by (rule nfree_pos_find[OF inv])
  with bread_miss[OF inv p] False that show ?thesis by blast
qed

section \<open>The cache implements the contract\<close>

definition bc_obs :: "kstate \<Rightarrow> (u32, byte list) cache" where
  "bc_obs s = \<lparr>c_view = view s, c_disk = disk s, c_writes = dwrites s, c_refs = rc s,
     c_locked = lkd s, c_free = nfree s\<rparr>"

definition bc_ready :: "nat \<Rightarrow> kstate \<Rightarrow> bool" where
  "bc_ready p s \<longleftrightarrow> bc_inv s \<and> in_proc p s"

lemma bc_obs_simps [simp]:
  "c_view (bc_obs s) = view s" "c_disk (bc_obs s) = disk s" "c_writes (bc_obs s) = dwrites s"
  "c_refs (bc_obs s) = rc s" "c_locked (bc_obs s) = lkd s" "c_free (bc_obs s) = nfree s"
  by (simp_all add: bc_obs_def)

lemma buf_frame [simp]: "bc_frame s (s\<lparr>bufs := bs\<rparr>)"
  by (simp add: bc_frame_def)

lemma owns_is_buf:
  assumes "bc_inv s" and "owns p s bn b"
  shows "is_buf s bn b" "b < NBUF" "b < length (bufs s)" "buf_ok (disk s) (bufs s ! b)"
    "view s bn = b_data (bufs s ! b)" "rc s bn = unat (b_refcnt (bufs s ! b))" "lkd s bn"
    "b_dev (bufs s ! b) = ROOTDEV" "b_blockno (bufs s ! b) = bn" "0 < b_refcnt (bufs s ! b)"
  using assms obs_of_buf[OF assms(1), of bn b]
  by (auto simp: owns_def is_buf_def bc_inv_def)

text \<open>Changing the data or the count of an owned buffer.\<close>

lemma owned_upd:
  assumes inv: "bc_ready p s" and own: "owns p s bn b" and ok: "length d = BSIZE" and r: "0 < r"
  defines "t \<equiv> s\<lparr>bufs := (bufs s)[b := (bufs s ! b)\<lparr>b_data := d, b_refcnt := r\<rparr>]\<rparr>"
  shows "bc_ready p t" and "bc_obs t = (bc_obs s)\<lparr>c_view := (view s)(bn := d), c_refs := (rc s)(bn := unat r)\<rparr>"
    and "\<forall>m c. owns p s m c \<longrightarrow> owns p t m c"
proof -
  let ?x = "(bufs s ! b)\<lparr>b_data := d, b_refcnt := r\<rparr>"
  have bi: "bc_inv s" and ip: "in_proc p s" using inv by (auto simp: bc_ready_def)
  note o = owns_is_buf[OF bi own]
  have bx: "buf_ok (disk s) ?x" using o(4,8) ok r by (auto simp: buf_ok_def)
  have dev: "b_dev ?x = ROOTDEV" and no: "b_blockno ?x = bn" using o by simp_all
  have v: "b_valid ?x" using own by (simp add: owns_def)
  note u = obs_upd[OF bi o(2) bx dev, unfolded no, folded t_def, OF disjI1, OF o(1)]
  have "nfree t = nfree s" using nfree_upd[OF bi o(2), of ?x] o(10) r by (auto simp: t_def split: if_splits)
  moreover have "lkd t = lkd s" using u(4) own o(7) by (auto simp: owns_def fun_eq_iff)
  ultimately show "bc_obs t = (bc_obs s)\<lparr>c_view := (view s)(bn := d), c_refs := (rc s)(bn := unat r)\<rparr>"
    using u v by (simp add: bc_obs_def t_def)
  show "bc_ready p t" using u(1) ip by (simp add: bc_ready_def t_def in_proc_def)
  show "\<forall>m c. owns p s m c \<longrightarrow> owns p t m c"
    using o r by (auto simp: owns_def is_buf_def t_def nth_list_update)
qed

lemma bread_refines:
  assumes inv: "bc_ready p s" and lk: "\<not> lkd s bn" and avail: "0 < rc s bn \<or> 0 < nfree s"
    and lim: "rc s bn < 2 ^ 32 - 1"
  shows "\<exists>b t. bread ROOTDEV bn s = Ok b t \<and> bc_ready p t \<and> bc_frame s t \<and> owns p t bn b
    \<and> bc_obs t = a_bread bn (bc_obs s) \<and> (\<forall>m c. m \<noteq> bn \<longrightarrow> owns p s m c \<longrightarrow> owns p t m c)"
proof -
  have bi: "bc_inv s" and ip: "in_proc p s" using inv by (auto simp: bc_ready_def)
  from bread_slot[OF bi ip lk avail] obtain b
    where e: "bread ROOTDEV bn s = Ok b (s\<lparr>bufs := (bufs s)[b := got_buf p s bn b]\<rparr>)" and b: "b < NBUF"
      and k: "is_buf s bn b \<or> b_refcnt (bufs s ! b) = 0 \<and> (\<forall>c. \<not> is_buf s bn c)" .
  let ?x = "got_buf p s bn b" let ?t = "s\<lparr>bufs := (bufs s)[b := ?x]\<rparr>"
  have x: "b_dev ?x = ROOTDEV" "b_blockno ?x = bn" "b_valid ?x" "b_data ?x = view s bn"
    "b_lock ?x = \<lparr>sl_locked = True, sl_pid = p_pid (procs s ! p)\<rparr>" by (simp_all add: got_buf_def)
  have cnt: "unat (b_refcnt ?x) = Suc (rc s bn)"
  proof (cases "is_buf s bn b")
    case True
    with lim obs_of_buf(2)[OF bi True] show ?thesis
      by (simp add: got_buf_def unat_word_ariths(1) take_bit_eq_mod)
  next
    case False
    with k obs_of_none(2)[OF bi] show ?thesis by (simp add: got_buf_def)
  qed
  then have pos: "b_refcnt ?x \<noteq> 0" by (metis nat.distinct(1) unat_0)
  have ok: "buf_ok (disk s) ?x" using x pos bi by (simp add: buf_ok_def)
  note u = obs_upd[OF bi b ok x(1), unfolded x(2), OF k]
  have len: "length (bufs s) = NBUF" using bi by (simp add: bc_inv_def)
  have z: "b_refcnt (bufs s ! b) = 0 \<longleftrightarrow> rc s bn = 0"
    using k obs_of_buf(2)[OF bi, of bn b] obs_of_none(2)[OF bi, of bn] by (auto simp: unat_eq_zero)
  have "nfree ?t = nfree s - (if rc s bn = 0 then 1 else 0)"
    using nfree_upd[OF bi b, of ?x] pos z by auto
  then have "bc_obs ?t = a_bread bn (bc_obs s)"
    using u(2-4) cnt x by (simp add: bc_obs_def a_bread_def)
  moreover have "owns p ?t bn b"
    using x b len pos by (simp add: owns_def is_buf_def word_gt_0)
  moreover have "owns p ?t m c" if "m \<noteq> bn" "owns p s m c" for m c
  proof -
    have "c \<noteq> b" using that k by (auto simp: owns_def is_buf_def)
    then show ?thesis using that owns_upd[OF bi b] by simp
  qed
  ultimately show ?thesis using e u(1) ip by (auto simp: bc_ready_def in_proc_def)
qed

lemma unat_incr: "unat (r :: u32) < 2 ^ 32 - 1 \<Longrightarrow> unat (r + 1) = Suc (unat r) \<and> 0 < r + 1"
proof -
  assume "unat r < 2 ^ 32 - 1"
  then have "unat (r + 1) = Suc (unat r)" by (simp add: unat_word_ariths(1) take_bit_eq_mod)
  then show ?thesis by (simp add: word_less_nat_alt)
qed

lemma upd_owned:
  assumes "bc_inv s" and "owns p s bn b"
  shows "upd_buf b f s = Ok () (s\<lparr>bufs := (bufs s)[b := f (bufs s ! b)]\<rparr>)"
  using owns_is_buf(3)[OF assms] by (simp add: upd_buf_def tbl_upd_def)

lemma set_data_refines:
  assumes inv: "bc_ready p s" and own: "owns p s bn b" and d: "length d = BSIZE"
  shows "\<exists>t. set_data b d s = Ok () t \<and> bc_ready p t \<and> bc_frame s t \<and> bc_obs t = a_put bn d (bc_obs s)
    \<and> (\<forall>m c. owns p s m c \<longrightarrow> owns p t m c)"
proof -
  have bi: "bc_inv s" using inv by (simp add: bc_ready_def)
  note o = owns_is_buf[OF bi own]
  have x: "(bufs s ! b)\<lparr>b_data := d, b_refcnt := b_refcnt (bufs s ! b)\<rparr> = (bufs s ! b)\<lparr>b_data := d\<rparr>" by simp
  note u = owned_upd[OF inv own d o(10), unfolded x]
  have "(rc s)(bn := unat (b_refcnt (bufs s ! b))) = rc s" using o(6) by (simp add: fun_eq_iff)
  with u show ?thesis by (auto simp: set_data_def upd_owned[OF bi own] a_put_def bc_obs_def)
qed

lemma count_refines:
  assumes inv: "bc_ready p s" and own: "owns p s bn b" and r: "0 < g (b_refcnt (bufs s ! b))"
  shows "\<exists>t. mbind (acquire L_bcache) (\<lambda>_. mbind (upd_buf b (\<lambda>x. x\<lparr>b_refcnt := g (b_refcnt x)\<rparr>)) (\<lambda>_.
      release L_bcache)) s = Ok () t \<and> bc_ready p t \<and> bc_frame s t
    \<and> bc_obs t = (bc_obs s)\<lparr>c_refs := (rc s)(bn := unat (g (b_refcnt (bufs s ! b))))\<rparr>
    \<and> (\<forall>m c. owns p s m c \<longrightarrow> owns p t m c)"
proof -
  have bi: "bc_inv s" and h: "held s = {}" using inv by (auto simp: bc_ready_def in_proc_def)
  note o = owns_is_buf[OF bi own]
  let ?r = "g (b_refcnt (bufs s ! b))"
  have x: "(bufs s ! b)\<lparr>b_data := b_data (bufs s ! b), b_refcnt := ?r\<rparr> = (bufs s ! b)\<lparr>b_refcnt := ?r\<rparr>" by simp
  have "length (b_data (bufs s ! b)) = BSIZE" using o(4) by (simp add: buf_ok_def)
  note u = owned_upd[OF inv own this r, unfolded x]
  have "(view s)(bn := b_data (bufs s ! b)) = view s" using o(5) by (simp add: fun_eq_iff)
  with u h o(3) show ?thesis by (auto simp: upd_buf_def tbl_upd_def bc_obs_def)
qed

lemma bpin_refines:
  assumes "bc_ready p s" and "owns p s bn b" and "rc s bn < 2 ^ 32 - 1"
  shows "\<exists>t. bpin b s = Ok () t \<and> bc_ready p t \<and> bc_frame s t \<and> bc_obs t = a_bpin bn (bc_obs s)
    \<and> (\<forall>m c. owns p s m c \<longrightarrow> owns p t m c)"
proof -
  have "rc s bn = unat (b_refcnt (bufs s ! b))" using assms by (simp add: bc_ready_def owns_is_buf)
  with assms(3) count_refines[OF assms(1,2), of "\<lambda>r. r + 1"] unat_incr show ?thesis
    by (simp add: bpin_def a_bpin_def)
qed

lemma bunpin_refines:
  assumes "bc_ready p s" and "owns p s bn b" and "1 < rc s bn"
  shows "\<exists>t. bunpin b s = Ok () t \<and> bc_ready p t \<and> bc_frame s t \<and> bc_obs t = a_bunpin bn (bc_obs s)
    \<and> (\<forall>m c. owns p s m c \<longrightarrow> owns p t m c)"
proof -
  have "rc s bn = unat (b_refcnt (bufs s ! b))" using assms by (simp add: bc_ready_def owns_is_buf)
  moreover from this have "unat (b_refcnt (bufs s ! b) - 1) = rc s bn - 1"
    using assms(3) by (simp add: unat_sub word_le_nat_alt)
  moreover from this have "0 < b_refcnt (bufs s ! b) - 1"
    using assms(3) by (simp add: word_less_nat_alt)
  ultimately show ?thesis using count_refines[OF assms(1,2), of "\<lambda>r. r - 1"]
    by (simp add: bunpin_def a_bunpin_def)
qed

lemma bwrite_refines:
  assumes inv: "bc_ready p s" and own: "owns p s bn b"
  shows "\<exists>t. bwrite b s = Ok () t \<and> bc_ready p t \<and> bc_frame s t \<and> bc_obs t = a_bwrite bn (bc_obs s)
    \<and> (\<forall>m c. owns p s m c \<longrightarrow> owns p t m c)"
proof -
  have bi: "bc_inv s" and ip: "in_proc p s" using inv by (auto simp: bc_ready_def)
  note o = owns_is_buf[OF bi own]
  let ?d = "b_data (bufs s ! b)"
  let ?t = "s\<lparr>disk := (disk s)(bn := ?d), dwrites := dwrites s @ [(bn, ?d)]\<rparr>"
  have e: "bwrite b s = Ok () ?t"
    using own o(9) by (simp add: bwrite_def holdingsleep_Ok[OF ip] owns_def disk_transfer_def)
  have ib: "is_buf ?t m c = is_buf s m c" for m c by (simp add: is_buf_def)
  have "buf_ok ((disk s)(bn := ?d)) (bufs s ! c)" if "c < NBUF" for c
  proof (cases "c = b")
    case True
    then show ?thesis using o(4,10) by (auto simp: buf_ok_def)
  next
    case False
    have ck: "buf_ok (disk s) (bufs s ! c)" using bi that by (simp add: bc_inv_def)
    have "\<not> is_buf s bn c" using False is_buf_unique[OF bi o(1)] by blast
    with that ck show ?thesis by (auto simp: buf_ok_def is_buf_def)
  qed
  moreover have "length ?d = BSIZE" using o(4) by (simp add: buf_ok_def)
  ultimately have ti: "bc_inv ?t" using bi by (simp add: bc_inv_def ib)
  have c: "cached ?t = cached s" by (simp add: cached_def fun_eq_iff)
  have cb: "cached s bn = Some b" using cached_iff[OF bi] o(1) by simp
  have "view ?t m = view s m" for m
    using own cb by (cases "m = bn") (auto simp: view_def c owns_def split: option.split)
  then have "bc_obs ?t = a_bwrite bn (bc_obs s)"
    using o(5) by (auto simp: bc_obs_def a_bwrite_def rc_def lkd_def nfree_def c fun_eq_iff split: option.splits)
  with e ti ip show ?thesis by (auto simp: bc_ready_def in_proc_def bc_frame_def owns_def ib)
qed

lemma bc_reorder:
  fixes ps :: "proc list"
  assumes inv: "bc_inv s" and l: "distinct l" "set l = {..<NBUF}"
  defines "t \<equiv> s\<lparr>lru := l, procs := ps\<rparr>"
  shows "bc_inv t" and "bc_obs t = bc_obs s"
proof -
  have ib: "is_buf t = is_buf s" by (simp add: is_buf_def fun_eq_iff t_def)
  have "bc_inv t \<longleftrightarrow> distinct l \<and> set l = {..<NBUF} \<and> length (bufs s) = NBUF
     \<and> (\<forall>b c bn. is_buf s bn b \<and> is_buf s bn c \<longrightarrow> b = c)
     \<and> (\<forall>b < NBUF. buf_ok (disk s) (bufs s ! b)) \<and> (\<forall>bn. length (disk s bn) = BSIZE)"
    unfolding bc_inv_def ib by (simp add: t_def)
  with inv l show ti: "bc_inv t" by (simp add: bc_inv_def)
  have "cached t bn = cached s bn" for bn
    using cached_iff[OF inv, of bn] cached_iff[OF ti, of bn] unfolding ib by (metis not_None_eq)
  then show "bc_obs t = bc_obs s"
    by (auto simp: bc_obs_def view_def rc_def lkd_def nfree_def t_def fun_eq_iff split: option.split)
qed

text \<open>\<open>brelse\<close> of a buffer, in one step: count, lock and list position change, sleepers wake.\<close>

lemma brelse_Ok:
  assumes inv: "bc_inv s" and ip: "in_proc p s" and own: "owns p s bn b"
  shows "\<exists>ps l. brelse b s = Ok () (s\<lparr>bufs := (bufs s)[b := (bufs s ! b)
      \<lparr>b_lock := \<lparr>sl_locked = False, sl_pid = 0\<rparr>, b_refcnt := b_refcnt (bufs s ! b) - 1\<rparr>], lru := l, procs := ps\<rparr>)
    \<and> map p_pid ps = map p_pid (procs s) \<and> distinct l \<and> set l = {..<NBUF}"
proof -
  note o = owns_is_buf[OF inv own]
  have l: "distinct (lru s)" "set (lru s) = {..<NBUF}" using inv by (simp_all add: bc_inv_def)
  have l2: "distinct (b # remove1 b (lru s)) \<and> set (b # remove1 b (lru s)) = {..<NBUF}"
    using l o(2) by auto
  let ?ps = "wake (C_sleep (SL_buf b)) (Some p) (procs s)"
  have pid: "map p_pid ?ps = map p_pid (procs s)" by simp
  have "b_lock (bufs s ! b) = \<lparr>sl_locked = True, sl_pid = p_pid (procs s ! p)\<rparr>"
    using own by (simp add: owns_def)
  then have "brelse b s = Ok () (s\<lparr>bufs := (bufs s)[b := (bufs s ! b)
      \<lparr>b_lock := \<lparr>sl_locked = False, sl_pid = 0\<rparr>, b_refcnt := b_refcnt (bufs s ! b) - 1\<rparr>],
      lru := (if b_refcnt (bufs s ! b) - 1 = 0 then b # remove1 b (lru s) else lru s), procs := ?ps\<rparr>)"
    using ip o(3) by (simp add: brelse_def holdingsleep_Ok[OF ip] releasesleep_Ok[OF ip] upd_buf_def
        tbl_upd_def in_proc_def)
  with pid l l2 show ?thesis by (intro exI[of _ ?ps]) (auto split: if_splits)
qed

lemma brelse_refines:
  assumes inv: "bc_ready p s" and own: "owns p s bn b" and clean: "rc s bn = 1 \<longrightarrow> view s bn = disk s bn"
  shows "\<exists>t. brelse b s = Ok () t \<and> bc_ready p t \<and> bc_frame s t \<and> bc_obs t = a_brelse bn (bc_obs s)
    \<and> (\<forall>m c. m \<noteq> bn \<longrightarrow> owns p s m c \<longrightarrow> owns p t m c)"
proof -
  have bi: "bc_inv s" and ip: "in_proc p s" using inv by (auto simp: bc_ready_def)
  note o = owns_is_buf[OF bi own]
  let ?x = "(bufs s ! b)\<lparr>b_lock := \<lparr>sl_locked = False, sl_pid = 0\<rparr>, b_refcnt := b_refcnt (bufs s ! b) - 1\<rparr>"
  obtain ps l where e: "brelse b s = Ok () (s\<lparr>bufs := (bufs s)[b := ?x], lru := l, procs := ps\<rparr>)"
    and ps: "map p_pid ps = map p_pid (procs s)" and l: "distinct l" "set l = {..<NBUF}"
    using brelse_Ok[OF bi ip own] by blast
  let ?u = "s\<lparr>bufs := (bufs s)[b := ?x]\<rparr>" let ?t = "?u\<lparr>lru := l, procs := ps\<rparr>"
  have cnt: "unat (b_refcnt ?x) = rc s bn - 1"
    using o(6,10) by (simp add: unat_sub word_le_nat_alt word_less_nat_alt)
  have pos: "0 < rc s bn" using o(6,10) by (simp add: word_less_nat_alt)
  have z: "b_refcnt ?x = 0 \<longleftrightarrow> rc s bn = 1" using cnt pos by (auto simp: unat_eq_zero[symmetric])
  have v: "b_valid ?x" "b_dev ?x = ROOTDEV" "b_blockno ?x = bn" "b_data ?x = view s bn"
    using own o by (simp_all add: owns_def)
  have ok: "buf_ok (disk s) ?x" using clean z o(4) v by (auto simp: buf_ok_def)
  note u = obs_upd[OF bi o(2) ok v(2), unfolded v(3), OF disjI1, OF o(1)]
  have "nfree ?u = nfree s + (if rc s bn = 1 then 1 else 0)"
    using nfree_upd[OF bi o(2), of ?x] z o(10) by (auto split: if_splits)
  then have "bc_obs ?u = a_brelse bn (bc_obs s)"
    using u(2-4) cnt v(1,4) by (simp add: bc_obs_def a_brelse_def fun_eq_iff)
  with bc_reorder[OF u(1) l] have "bc_inv ?t" "bc_obs ?t = a_brelse bn (bc_obs s)" by auto
  moreover have "length ps = length (procs s)" using ps by (rule map_eq_imp_length_eq)
  moreover have "owns p ?t m c" if "m \<noteq> bn" "owns p s m c" for m c
  proof -
    have "c \<noteq> b" using that o(9) by (auto simp: owns_def is_buf_def)
    moreover have "p_pid (ps ! p) = p_pid (procs s ! p)"
      using ps ip \<open>length ps = length (procs s)\<close> by (metis in_procD(2,3) nth_map)
    ultimately show ?thesis using that(2) by (simp add: owns_def is_buf_def)
  qed
  ultimately show ?thesis using e ip ps by (auto simp: bc_ready_def in_proc_def bc_frame_def)
qed

interpretation bc: block_cache "bc_ready p" bc_obs "owns p" bc_frame "\<lambda>d. length d = BSIZE"
  "2 ^ 32 - 1" "bread ROOTDEV" bwrite brelse bpin bunpin set_data buf_data for p
proof unfold_locales
  show "bc_frame s u" if "bc_frame s t" "bc_frame t u" for s t u using that by (rule bc_frame_trans)
  show "length (c_view (bc_obs s) n) = BSIZE" if "bc_ready p s" for s n
    using that by (simp add: bc_ready_def)
  show "c_view (bc_obs s) n = c_disk (bc_obs s) n \<and> \<not> c_locked (bc_obs s) n"
    if "bc_ready p s" "c_refs (bc_obs s) n = 0" for s n
    using that unreferenced by (simp add: bc_ready_def)
  show "buf_data b s = Ok (c_view (bc_obs s) n) s" if "bc_ready p s" "owns p s n b" for s n b
    using that by (simp add: buf_data_def bc_ready_def owns_is_buf)
qed (use bread_refines brelse_refines bwrite_refines set_data_refines bpin_refines bunpin_refines
  in \<open>simp_all only: bc_obs_simps\<close>)

section \<open>Initialisation\<close>

lemma binit_upto:
  assumes "bufs s = replicate NBUF empty_buf"
  shows "for_each [0..<n] (\<lambda>b. mbind (modify (\<lambda>s. s\<lparr>lru := b # lru s\<rparr>)) (\<lambda>_. initsleeplock (SL_buf b))) s
    = Ok () (s\<lparr>lru := rev [0..<n] @ lru s\<rparr>)"
proof (induction n)
  case (Suc n)
  have "tbl_upd n (\<lambda>x. x\<lparr>b_lock := \<lparr>sl_locked = False, sl_pid = 0\<rparr>\<rparr>) (replicate NBUF empty_buf)
      = replicate NBUF empty_buf"
    by (rule nth_equalityI) (auto simp: tbl_upd_def empty_buf_def nth_list_update)
  with Suc assms show ?case by (simp add: for_each_append initsleeplock_def)
qed simp

lemma binit_Ok: "binit s = Ok () (s\<lparr>bufs := replicate NBUF empty_buf, lru := rev [0..<NBUF]\<rparr>)"
  by (simp add: binit_def binit_upto)

text \<open>After \<open>binit\<close> every buffer can be recycled and reading shows the disk.\<close>

lemma binit_fresh:
  assumes "\<And>bn. length (disk s bn) = BSIZE"
  shows "\<exists>t. binit s = Ok () t \<and> bc_inv t \<and> bc_frame s t
    \<and> bc_obs t = \<lparr>c_view = disk s, c_disk = disk s, c_writes = dwrites s, c_refs = (\<lambda>_. 0),
        c_locked = (\<lambda>_. False), c_free = NBUF\<rparr>"
proof -
  let ?t = "s\<lparr>bufs := replicate NBUF empty_buf, lru := rev [0..<NBUF]\<rparr>"
  have nb: "\<not> is_buf ?t bn b" for bn b by (auto simp: is_buf_def empty_buf_def ROOTDEV_def)
  have "buf_ok (disk s) empty_buf" by (simp add: buf_ok_def empty_buf_def)
  then have inv: "bc_inv ?t" unfolding bc_inv_def
    using nb assms by (auto simp: lessThan_atLeast0)
  have "view ?t = disk s" "rc ?t = (\<lambda>_. 0)" "lkd ?t = (\<lambda>_. False)"
    using obs_of_none[OF inv nb] by (simp_all add: fun_eq_iff)
  moreover have "nfree ?t = NBUF"
    by (simp add: nfree_def empty_buf_def card_Collect_less_nat cong: conj_cong)
  ultimately show ?thesis using binit_Ok[of s] inv by (simp add: bc_obs_def bc_frame_def)
qed

end
