(* ===== verification/Log.thy ===== *)
theory Log
  imports Bio
begin

text \<open>
  The write-ahead log (\<open>log.c\<close>): the operations, the writes a commit issues, and crash safety. A
  power failure leaves the disk after some prefix of the completed writes; recovery from any such
  disk yields either all blocks of the transaction or none of them.
\<close>

section \<open>Operations\<close>

definition upd_log :: "(log \<Rightarrow> log) \<Rightarrow> unit K" where
  "upd_log f = modify (\<lambda>s. s\<lparr>klog := f (klog s)\<rparr>)"

definition upd_lh :: "(logheader \<Rightarrow> logheader) \<Rightarrow> unit K" where
  "upd_lh f = upd_log (\<lambda>l. l\<lparr>l_lh := f (l_lh l)\<rparr>)"

text \<open>Reading and writing \<open>log.lh.block[i]\<close>.\<close>

definition lh_get :: "nat \<Rightarrow> u32 K" where
  "lh_get i = mbind (gets (\<lambda>s. lh_block (l_lh (klog s)))) (\<lambda>bs.
     if i < length bs then ret (bs ! i) else undef ''log.lh.block'')"

definition lh_set :: "nat \<Rightarrow> u32 \<Rightarrow> unit K" where
  "lh_set i v = mbind (gets (\<lambda>s. lh_block (l_lh (klog s)))) (\<lambda>bs.
     if i < length bs then upd_lh (\<lambda>h. h\<lparr>lh_block := bs[i := v]\<rparr>) else undef ''log.lh.block'')"

text \<open>The layout of \<open>struct logheader\<close> in its block: \<open>n\<close>, then the block numbers.\<close>

definition hdr_n :: "byte list \<Rightarrow> int" where
  "hdr_n d = sint (get32 0 d)"

definition hdr_block :: "nat \<Rightarrow> byte list \<Rightarrow> u32" where
  "hdr_block i d = get32 (4 + 4 * i) d"

text \<open>One pass of the loop of \<open>install_trans\<close>.\<close>

definition install_body :: "bool \<Rightarrow> nat \<Rightarrow> unit K" where
  "install_body recovering tail =
       mbind (gets klog) (\<lambda>l.
       mbind (bread (l_dev l) (l_start l + of_nat tail + 1)) (\<lambda>lbuf.
       mbind (lh_get tail) (\<lambda>h.
       mbind (bread (l_dev l) h) (\<lambda>dbuf.
       mbind (buf_data lbuf) (\<lambda>d.
       mbind (set_data dbuf d) (\<lambda>_.
       mbind (bwrite dbuf) (\<lambda>_.
       mbind (if \<not> recovering then bunpin dbuf else ret ()) (\<lambda>_.
       mbind (brelse lbuf) (\<lambda>_.
       brelse dbuf)))))))))"

definition install_trans :: "bool \<Rightarrow> unit K" where
  "install_trans recovering =
     mbind (gets (\<lambda>s. lh_n (l_lh (klog s)))) (\<lambda>n.
     for_each [0..<nat n] (install_body recovering))"

definition read_head :: "unit K" where
  "read_head =
     mbind (gets klog) (\<lambda>l.
     mbind (bread (l_dev l) (l_start l)) (\<lambda>b.
     mbind (buf_data b) (\<lambda>d.
     mbind (upd_lh (\<lambda>h. h\<lparr>lh_n := hdr_n d\<rparr>)) (\<lambda>_.
     mbind (for_each [0..<nat (hdr_n d)] (\<lambda>i. lh_set i (hdr_block i d))) (\<lambda>_.
     brelse b)))))"

text \<open>The header block after \<open>write_head\<close> has stored \<open>n\<close> and the first \<open>n\<close> block numbers into it.\<close>

definition put_header :: "int \<Rightarrow> u32 list \<Rightarrow> byte list \<Rightarrow> byte list" where
  "put_header n bs d =
     fold (\<lambda>i d. put32 (4 + 4 * i) (bs ! i) d) [0..<nat n] (put32 0 (word_of_int n) d)"

definition write_head :: "unit K" where
  "write_head =
     mbind (gets klog) (\<lambda>l.
     mbind (bread (l_dev l) (l_start l)) (\<lambda>b.
     mbind (buf_data b) (\<lambda>d.
     if length (lh_block (l_lh l)) < nat (lh_n (l_lh l)) then undef ''log.lh.block'' else
     mbind (set_data b (put_header (lh_n (l_lh l)) (lh_block (l_lh l)) d)) (\<lambda>_.
     mbind (bwrite b) (\<lambda>_.
     brelse b)))))"

definition recover_from_log :: "unit K" where
  "recover_from_log =
     mbind read_head (\<lambda>_.
     mbind (install_trans True) (\<lambda>_.
     mbind (upd_lh (\<lambda>h. h\<lparr>lh_n := 0\<rparr>)) (\<lambda>_.
     write_head)))"

definition initlog :: "u32 \<Rightarrow> superblock \<Rightarrow> unit K" where
  "initlog dev sbk =
     (if 4 + 4 * LOGSIZE \<ge> BSIZE then panic ''initlog: too big logheader'' else
     mbind (upd_log (\<lambda>l. l\<lparr>l_start := sb_logstart sbk, l_size := sint (sb_nlog sbk), l_dev := dev\<rparr>)) (\<lambda>_.
     recover_from_log))"

definition begin_op :: "unit K" where
  "begin_op =
     mbind (acquire L_log) (\<lambda>_.
     mbind (gets klog) (\<lambda>l.
     if l_committing l then sleep C_log L_log
     else if lh_n (l_lh l) + (l_outstanding l + 1) * MAXOPBLOCKS > int LOGSIZE then sleep C_log L_log
     else
       mbind (upd_log (\<lambda>l. l\<lparr>l_outstanding := l_outstanding l + 1\<rparr>)) (\<lambda>_.
       release L_log)))"

text \<open>One pass of the loop of \<open>write_log\<close>.\<close>

definition write_log_body :: "nat \<Rightarrow> unit K" where
  "write_log_body tail =
       mbind (gets klog) (\<lambda>l.
       mbind (bread (l_dev l) (l_start l + of_nat tail + 1)) (\<lambda>to.
       mbind (lh_get tail) (\<lambda>h.
       mbind (bread (l_dev l) h) (\<lambda>from.
       mbind (buf_data from) (\<lambda>d.
       mbind (set_data to d) (\<lambda>_.
       mbind (bwrite to) (\<lambda>_.
       mbind (brelse from) (\<lambda>_.
       brelse to))))))))"

definition write_log :: "unit K" where
  "write_log =
     mbind (gets (\<lambda>s. lh_n (l_lh (klog s)))) (\<lambda>n.
     for_each [0..<nat n] write_log_body)"

definition commit :: "unit K" where
  "commit =
     mbind (gets (\<lambda>s. lh_n (l_lh (klog s)))) (\<lambda>n.
     if n > 0 then
       mbind write_log (\<lambda>_.
       mbind write_head (\<lambda>_.
       mbind (install_trans False) (\<lambda>_.
       mbind (upd_lh (\<lambda>h. h\<lparr>lh_n := 0\<rparr>)) (\<lambda>_.
       write_head))))
     else ret ())"

definition end_op :: "unit K" where
  "end_op =
     mbind (acquire L_log) (\<lambda>_.
     mbind (upd_log (\<lambda>l. l\<lparr>l_outstanding := l_outstanding l - 1\<rparr>)) (\<lambda>_.
     mbind (gets klog) (\<lambda>l.
     if l_committing l then panic ''log.committing'' else
     mbind (if l_outstanding l = 0 then upd_log (\<lambda>l. l\<lparr>l_committing := True\<rparr>) else wakeup C_log) (\<lambda>_.
     mbind (release L_log) (\<lambda>_.
     if l_outstanding l = 0 then
       mbind commit (\<lambda>_.
       mbind (acquire L_log) (\<lambda>_.
       mbind (upd_log (\<lambda>l. l\<lparr>l_committing := False\<rparr>)) (\<lambda>_.
       mbind (wakeup C_log) (\<lambda>_.
       release L_log))))
     else ret ())))))"

text \<open>The absorption loop of \<open>log_write\<close>: the first \<open>i\<close> with \<open>block[i] = bn\<close>, or \<open>n\<close>.\<close>

definition log_slot :: "logheader \<Rightarrow> u32 \<Rightarrow> nat" where
  "log_slot h bn = (case find (\<lambda>i. lh_block h ! i = bn) [0..<nat (lh_n h)] of Some i \<Rightarrow> i | None \<Rightarrow> nat (lh_n h))"

definition log_write :: "nat \<Rightarrow> unit K" where
  "log_write b =
     mbind (acquire L_log) (\<lambda>_.
     mbind (gets klog) (\<lambda>l.
     if lh_n (l_lh l) \<ge> int LOGSIZE \<or> lh_n (l_lh l) \<ge> l_size l - 1 then panic ''too big a transaction''
     else if l_outstanding l < 1 then panic ''log_write outside of trans'' else
     mbind (gets (\<lambda>s. b_blockno (bufs s ! b))) (\<lambda>bn.
     mbind (lh_set (log_slot (l_lh l) bn) bn) (\<lambda>_.
     mbind (if log_slot (l_lh l) bn = nat (lh_n (l_lh l)) then
              mbind (bpin b) (\<lambda>_.
              upd_lh (\<lambda>h. h\<lparr>lh_n := lh_n h + 1\<rparr>))
            else ret ()) (\<lambda>_.
     release L_log)))))"

section \<open>The header block\<close>

definition put_blocks :: "nat \<Rightarrow> u32 list \<Rightarrow> byte list \<Rightarrow> byte list" where
  "put_blocks m bs d = fold (\<lambda>i d. put32 (4 + 4 * i) (bs ! i) d) [0..<m] d"

lemma put_header_blocks: "put_header n bs d = put_blocks (nat n) bs (put32 0 (word_of_int n) d)"
  by (simp add: put_header_def put_blocks_def)

lemma put_blocks_props:
  assumes "length d = BSIZE" and "m \<le> LOGSIZE"
  shows "length (put_blocks m bs d) = BSIZE" and "get32 0 (put_blocks m bs d) = get32 0 d"
    and "i < m \<Longrightarrow> hdr_block i (put_blocks m bs d) = bs ! i"
  using assms(2)
proof (induction m)
  case 0
  { case 1 show ?case using assms by (simp add: put_blocks_def) }
  { case 2 show ?case by (simp add: put_blocks_def) }
  { case 3 then show ?case by simp }
next
  case (Suc m)
  have step: "put_blocks (Suc m) bs d = put32 (4 + 4 * m) (bs ! m) (put_blocks m bs d)"
    by (simp add: put_blocks_def)
  { case 1 show ?case using Suc.IH(1) 1 by (simp add: step const_defs) }
  { case 2 show ?case using Suc.IH(1,2) 2 by (simp add: step const_defs get_put_others) }
  { case 3 show ?case using Suc.IH(1,3) 3
      by (cases "i = m") (auto simp: step const_defs hdr_block_def get_put_others) }
qed

lemma sint_small: "0 \<le> n \<Longrightarrow> n \<le> int LOGSIZE \<Longrightarrow> sint (word_of_int n :: u32) = n"
  by (simp add: signed_of_int LOGSIZE_def signed_take_bit_int_eq_self)

lemma put_header_props:
  assumes "length d = BSIZE" and "0 \<le> n" and "n \<le> int LOGSIZE"
  shows "length (put_header n bs d) = BSIZE" and "hdr_n (put_header n bs d) = n"
    and "i < nat n \<Longrightarrow> hdr_block i (put_header n bs d) = bs ! i"
proof -
  let ?d = "put32 0 (word_of_int n) d"
  have l: "length ?d = BSIZE" "nat n \<le> LOGSIZE" using assms by (auto simp: const_defs)
  note p = put_blocks_props[OF l, where bs = bs]
  show "length (put_header n bs d) = BSIZE" using p(1) by (simp add: put_header_blocks)
  show "hdr_n (put_header n bs d) = n"
    using p(2) assms by (simp add: put_header_blocks hdr_n_def sint_small)
  show "i < nat n \<Longrightarrow> hdr_block i (put_header n bs d) = bs ! i" using p(3) by (simp add: put_header_blocks)
qed

section \<open>The log area\<close>

definition log_blk :: "log \<Rightarrow> nat \<Rightarrow> u32" where
  "log_blk l i = l_start l + of_nat i + 1"

text \<open>How many blocks the log can hold, and the blocks it occupies on disk: the header, then one block per entry.\<close>

definition log_cap :: "log \<Rightarrow> nat" where
  "log_cap l = min LOGSIZE (nat (l_size l - 1))"

definition log_area :: "log \<Rightarrow> u32 set" where
  "log_area l = insert (l_start l) (log_blk l ` {..<log_cap l})"

definition log_n :: "log \<Rightarrow> nat" where
  "log_n l = nat (lh_n (l_lh l))"

definition log_home :: "log \<Rightarrow> nat \<Rightarrow> u32" where
  "log_home l i = lh_block (l_lh l) ! i"

text \<open>A well-formed log: its blocks lie outside the log area and none is recorded twice.\<close>

definition log_ok :: "log \<Rightarrow> bool" where
  "log_ok l \<longleftrightarrow> l_dev l = ROOTDEV \<and> length (lh_block (l_lh l)) = LOGSIZE
     \<and> 0 \<le> lh_n (l_lh l) \<and> lh_n (l_lh l) \<le> int (log_cap l)
     \<and> distinct (map (log_home l) [0..<log_n l])
     \<and> (\<forall>i < log_n l. log_home l i \<notin> log_area l)"

lemma log_cap_le: "log_cap l \<le> LOGSIZE"
  by (simp add: log_cap_def)

lemma log_ok_cap: "log_ok l \<Longrightarrow> log_n l \<le> log_cap l"
  by (auto simp add: log_ok_def log_n_def)

lemma log_ok_n: "log_ok l \<Longrightarrow> log_n l \<le> LOGSIZE" and log_ok_lh_n: "log_ok l \<Longrightarrow> lh_n (l_lh l) \<le> int LOGSIZE"
  using log_ok_cap[of l] log_cap_le[of l] by (auto simp: log_n_def)

lemma of_nat_small: "i < LOGSIZE \<Longrightarrow> unat (of_nat i :: u32) = i"
  by (simp add: unsigned_of_nat take_bit_nat_eq_self LOGSIZE_def)

lemma log_blk_inj: "i < LOGSIZE \<Longrightarrow> j < LOGSIZE \<Longrightarrow> log_blk l i = log_blk l j \<longleftrightarrow> i = j"
  by (metis (no_types) log_blk_def add_right_cancel add_left_cancel of_nat_small)

lemma log_blk_start: "i < LOGSIZE \<Longrightarrow> log_blk l i \<noteq> l_start l"
proof
  assume i: "i < LOGSIZE" and "log_blk l i = l_start l"
  then have "(of_nat i + 1 :: u32) = 0" by (simp add: log_blk_def add.assoc)
  then have "(of_nat (Suc i) :: u32) = 0" by (simp add: add.commute)
  moreover have "unat (of_nat (Suc i) :: u32) = Suc i"
    using i by (simp add: unsigned_of_nat take_bit_nat_eq_self LOGSIZE_def del: of_nat_Suc)
  ultimately show False by (metis nat.distinct(1) unat_0)
qed

lemma log_areaI [intro, simp]: "l_start l \<in> log_area l" "i < log_cap l \<Longrightarrow> log_blk l i \<in> log_area l"
  by (auto simp: log_area_def)

lemma lh_get_Ok [simp]:
  "log_ok (klog s) \<Longrightarrow> i < log_n (klog s) \<Longrightarrow> lh_get i s = Ok (log_home (klog s) i) s"
  using log_ok_n[of "klog s"] by (auto simp: lh_get_def log_ok_def log_n_def log_home_def)

section \<open>What the steps of a commit write\<close>

text \<open>The setting of a commit: the log area is not in use, the blocks of the transaction are pinned
  and unlocked, one buffer can be recycled, and the on-disk log is empty.\<close>

definition commit_ready :: "nat \<Rightarrow> kstate \<Rightarrow> bool" where
  "commit_ready p s \<longleftrightarrow> bc_ready p s \<and> log_ok (klog s)
     \<and> (\<forall>bn \<in> log_area (klog s). rc s bn = 0)
     \<and> (\<forall>i < log_n (klog s). 0 < rc s (log_home (klog s) i) \<and> rc s (log_home (klog s) i) < 2 ^ 32 - 1
          \<and> \<not> lkd s (log_home (klog s) i))
     \<and> 0 < nfree s"

definition log_writes :: "log \<Rightarrow> (u32 \<Rightarrow> byte list) \<Rightarrow> nat \<Rightarrow> (u32 \<times> byte list) list" where
  "log_writes l v m = map (\<lambda>i. (log_blk l i, v (log_home l i))) [0..<m]"

definition home_writes :: "log \<Rightarrow> (u32 \<Rightarrow> byte list) \<Rightarrow> nat \<Rightarrow> (u32 \<times> byte list) list" where
  "home_writes l v m = map (\<lambda>i. (log_home l i, v (log_blk l i))) [0..<m]"

lemma log_writes_Suc: "log_writes l v (Suc m) = log_writes l v m @ [(log_blk l m, v (log_home l m))]"
  by (simp add: log_writes_def)

lemma home_writes_Suc: "home_writes l v (Suc m) = home_writes l v m @ [(log_home l m, v (log_blk l m))]"
  by (simp add: home_writes_def)

lemma fst_log_writes: "m \<le> log_cap l \<Longrightarrow> fst ` set (log_writes l v m) \<subseteq> log_area l"
  by (auto simp: log_writes_def)

lemma apply_log_writes_other:
  "m \<le> log_cap l \<Longrightarrow> bn \<notin> log_area l \<Longrightarrow> apply_writes (log_writes l v m) d bn = d bn"
  using fst_log_writes[of m l v] by (intro apply_writes_other) auto

lemma apply_log_writes_start:
  "m \<le> LOGSIZE \<Longrightarrow> apply_writes (log_writes l v m) d (l_start l) = d (l_start l)"
  by (rule apply_writes_other) (auto simp: log_writes_def log_blk_start[symmetric])

lemma apply_log_writes_blk:
  assumes "i < m" and "m \<le> LOGSIZE"
  shows "apply_writes (log_writes l v m) d (log_blk l i) = v (log_home l i)"
proof (rule apply_writes_mem)
  show "distinct (map fst (log_writes l v m))"
    using assms(2) by (auto simp: log_writes_def distinct_map inj_on_def log_blk_inj)
  show "(log_blk l i, v (log_home l i)) \<in> set (log_writes l v m)"
    using assms(1) by (auto simp: log_writes_def)
qed

text \<open>The common start of both copy loops: read log block \<open>i\<close>, then look up its home.\<close>

lemma log_body_start:
  assumes "log_ok (klog s)" and i: "i < log_n (klog s)"
  shows "mbind (gets klog) (\<lambda>l. mbind (bread (l_dev l) (l_start l + of_nat i + 1)) (\<lambda>b.
       mbind (lh_get i) (F l b))) s
    = mbind (bread ROOTDEV (log_blk (klog s) i)) (\<lambda>b. F (klog s) b (log_home (klog s) i)) s"
proof -
  have k: "keeps klog (bread ROOTDEV (log_blk (klog s) i))" by (intro keeps_intros) simp_all
  have g: "lh_get i t = Ok (log_home (klog s) i) t" if "klog t = klog s" for t
    using lh_get_Ok[of t i] that assms by simp
  have "l_dev (klog s) = ROOTDEV" using assms by (simp add: log_ok_def)
  with bind_commute[OF k g, of s "F (klog s)"] show ?thesis by (simp add: log_blk_def)
qed

lemma log_blk_home:
  assumes "log_ok l" and "i < log_n l" and "j < log_n l"
  shows "log_blk l j \<noteq> log_home l i" and "log_home l i \<noteq> log_blk l j"
  using assms log_ok_cap[of l] by (metis log_ok_def log_areaI(2) order_less_le_trans)+

lemma write_log_step:
  assumes "bc_ready p s" and "log_ok (klog s)" and i: "i < log_n (klog s)"
    and "rc s (log_blk (klog s) i) = 0"
    and "0 < rc s (log_home (klog s) i)" "rc s (log_home (klog s) i) < 2 ^ 32 - 1" "\<not> lkd s (log_home (klog s) i)"
    and "0 < nfree s"
  shows "\<exists>t. write_log_body i s = Ok () t \<and> bc_ready p t \<and> bc_frame s t
    \<and> bc_obs t = a_writes [(log_blk (klog s) i, view s (log_home (klog s) i))] (bc_obs s)"
proof -
  have "l_dev (klog s) = ROOTDEV" using assms(2) by (simp add: log_ok_def)
  then show ?thesis
    using bc.copy_out[where p = p and s = s and l = "log_blk (klog s) i" and h = "log_home (klog s) i"]
      assms log_blk_home[OF assms(2) i i]
    unfolding write_log_body_def log_body_start[OF assms(2) i] by (simp del: mbind_apply)
qed

lemma write_log_upto:
  assumes r: "commit_ready p s" and m: "m \<le> log_n (klog s)"
  shows "\<exists>t. for_each [0..<m] write_log_body s = Ok () t \<and> bc_ready p t \<and> bc_frame s t
    \<and> bc_obs t = a_writes (log_writes (klog s) (view s) m) (bc_obs s)"
  using m
proof (induction m)
  case 0
  show ?case using r by (simp add: commit_ready_def log_writes_def)
next
  case (Suc m)
  then obtain t where t: "for_each [0..<m] write_log_body s = Ok () t" "bc_ready p t" "bc_frame s t"
    "bc_obs t = a_writes (log_writes (klog s) (view s) m) (bc_obs s)" by auto
  let ?l = "klog s"
  have kl: "klog t = ?l" using t(3) by (simp add: bc_frameD)
  have ok: "log_ok ?l" using r by (simp add: commit_ready_def)
  have mb: "m < LOGSIZE" "m < log_cap ?l" using Suc.prems log_ok_n[OF ok] log_ok_cap[OF ok] by simp_all
  have o: "rc t = rc s" "lkd t = lkd s" "nfree t = nfree s"
    "view t = apply_writes (log_writes ?l (view s) m) (view s)"
    using arg_cong[OF t(4), of c_refs] arg_cong[OF t(4), of c_locked] arg_cong[OF t(4), of c_free]
      arg_cong[OF t(4), of c_view] by simp_all
  have "log_home ?l m \<notin> log_area ?l" using ok Suc.prems by (simp add: log_ok_def)
  then have v: "view t (log_home ?l m) = view s (log_home ?l m)"
    using o(4) mb by (simp add: apply_log_writes_other)
  obtain u where u: "write_log_body m t = Ok () u" "bc_ready p u" "bc_frame t u"
    "bc_obs u = a_writes [(log_blk ?l m, view s (log_home ?l m))] (bc_obs t)"
    using write_log_step[OF t(2), of m] kl o v r Suc.prems mb by (auto simp: commit_ready_def)
  show ?case using t u bc_frame_trans[OF t(3) u(3)]
    by (auto simp: for_each_append log_writes_Suc a_writes_append)
qed

lemma write_log_Ok:
  assumes "commit_ready p s"
  shows "\<exists>t. write_log s = Ok () t \<and> bc_ready p t \<and> bc_frame s t
    \<and> bc_obs t = a_writes (log_writes (klog s) (view s) (log_n (klog s))) (bc_obs s)"
  using write_log_upto[OF assms order_refl]
  by (simp add: write_log_def log_n_def)

text \<open>Writing the header.\<close>

lemma write_head_Ok:
  assumes r: "bc_ready p s" and ok: "l_dev (klog s) = ROOTDEV" "length (lh_block (l_lh (klog s))) = LOGSIZE"
    "0 \<le> lh_n (l_lh (klog s))" "lh_n (l_lh (klog s)) \<le> int LOGSIZE"
    and z: "rc s (l_start (klog s)) = 0" and f: "0 < nfree s"
  shows "\<exists>t. write_head s = Ok () t \<and> bc_ready p t \<and> bc_frame s t
    \<and> bc_obs t = a_writes [(l_start (klog s), put_header (lh_n (l_lh (klog s))) (lh_block (l_lh (klog s)))
        (view s (l_start (klog s))))] (bc_obs s)"
proof -
  let ?h = "l_lh (klog s)" let ?g = "put_header (lh_n ?h) (lh_block ?h)"
  have "length (view s (l_start (klog s))) = BSIZE" using r by (simp add: bc_ready_def)
  then have "length (?g (view s (l_start (klog s)))) = BSIZE" using ok by (simp add: put_header_props)
  with bc.update_block[where p = p and s = s and n = "l_start (klog s)" and f = ?g] r z f
  have "\<exists>t. mbind (bread ROOTDEV (l_start (klog s))) (\<lambda>b. mbind (buf_data b) (\<lambda>d. mbind (set_data b (?g d)) (\<lambda>_.
      mbind (bwrite b) (\<lambda>_. brelse b)))) s = Ok () t \<and> bc_ready p t \<and> bc_frame s t
    \<and> bc_obs t = a_writes [(l_start (klog s), ?g (view s (l_start (klog s))))] (bc_obs s)"
    by (simp del: mbind_apply)
  moreover have "\<not> LOGSIZE < nat (lh_n ?h)" using ok by simp
  ultimately show ?thesis using ok by (simp add: write_head_def)
qed

text \<open>Installing, after a commit (pinned blocks) and during recovery (unreferenced blocks).\<close>

lemma install_step:
  assumes "bc_ready p s" and "log_ok (klog s)" and i: "i < log_n (klog s)"
    and "rc s (log_blk (klog s) i) = 0"
    and "0 < rc s (log_home (klog s) i)" "rc s (log_home (klog s) i) < 2 ^ 32 - 1" "\<not> lkd s (log_home (klog s) i)"
    and "0 < nfree s"
  shows "\<exists>t. install_body False i s = Ok () t \<and> bc_ready p t \<and> bc_frame s t
    \<and> bc_obs t = a_unref (log_home (klog s) i)
        (a_writes [(log_home (klog s) i, view s (log_blk (klog s) i))] (bc_obs s))"
proof -
  have "l_dev (klog s) = ROOTDEV" using assms(2) by (simp add: log_ok_def)
  then show ?thesis
    using bc.install_pinned[where p = p and s = s and l = "log_blk (klog s) i" and h = "log_home (klog s) i"]
      assms log_blk_home[OF assms(2) i i]
    unfolding install_body_def log_body_start[OF assms(2) i] by (simp del: mbind_apply)
qed

text \<open>The reference counts once the first \<open>m\<close> blocks have been unpinned.\<close>

definition unpinned :: "log \<Rightarrow> nat \<Rightarrow> (u32 \<Rightarrow> nat) \<Rightarrow> u32 \<Rightarrow> nat" where
  "unpinned l m r bn = (if \<exists>i < m. bn = log_home l i then r bn - 1 else r bn)"

lemma unpinned_Suc:
  assumes "log_ok l" and "m < log_n l"
  shows "unpinned l (Suc m) r = (unpinned l m r)(log_home l m := unpinned l m r (log_home l m) - 1)"
    and "unpinned l m r (log_home l m) = r (log_home l m)"
proof -
  have ne: "log_home l m \<noteq> log_home l i" if "i < m" for i
    using assms that by (simp add: log_ok_def distinct_conv_nth)
  then show "unpinned l m r (log_home l m) = r (log_home l m)" by (auto simp: unpinned_def)
  with ne show "unpinned l (Suc m) r = (unpinned l m r)(log_home l m := unpinned l m r (log_home l m) - 1)"
    by (auto simp: unpinned_def fun_eq_iff less_Suc_eq)
qed

lemma apply_home_writes_area:
  "log_ok l \<Longrightarrow> m \<le> log_n l \<Longrightarrow> bn \<in> log_area l \<Longrightarrow> apply_writes (home_writes l v m) d bn = d bn"
  by (rule apply_writes_other) (auto simp: home_writes_def log_ok_def)

lemma install_upto:
  assumes r: "commit_ready p s" and m: "m \<le> log_n (klog s)"
  shows "\<exists>t. for_each [0..<m] (install_body False) s = Ok () t \<and> bc_ready p t \<and> bc_frame s t
    \<and> (let ws = home_writes (klog s) (view s) m in
       view t = apply_writes ws (view s) \<and> disk t = apply_writes ws (disk s) \<and> dwrites t = dwrites s @ ws)
    \<and> rc t = unpinned (klog s) m (rc s) \<and> lkd t = lkd s \<and> nfree s \<le> nfree t"
  using m
proof (induction m)
  case 0
  show ?case using r by (simp add: commit_ready_def home_writes_def unpinned_def fun_eq_iff)
next
  case (Suc m)
  let ?l = "klog s" let ?ws = "home_writes ?l (view s) m"
  obtain t where t: "for_each [0..<m] (install_body False) s = Ok () t" "bc_ready p t" "bc_frame s t"
    and o: "view t = apply_writes ?ws (view s)" "disk t = apply_writes ?ws (disk s)" "dwrites t = dwrites s @ ?ws"
      "rc t = unpinned ?l m (rc s)" "lkd t = lkd s" "nfree s \<le> nfree t"
    using Suc by (auto simp: Let_def)
  have kl: "klog t = ?l" using t(3) by (simp add: bc_frameD)
  have ok: "log_ok ?l" and ml: "m < log_n ?l" using r Suc.prems by (simp_all add: commit_ready_def)
  have mb: "m < LOGSIZE" "m < log_cap ?l" using ml log_ok_n[OF ok] log_ok_cap[OF ok] by simp_all
  have v: "view t (log_blk ?l m) = view s (log_blk ?l m)"
    using o(1) apply_home_writes_area[OF ok, of m "log_blk ?l m"] ml mb by simp
  note up = unpinned_Suc[OF ok ml, of "rc s"]
  have "rc t (log_blk ?l m) = 0"
    using r o(4) mb by (simp add: commit_ready_def unpinned_def)
  then obtain u where u: "install_body False m t = Ok () u" "bc_ready p u" "bc_frame t u"
    "bc_obs u = a_unref (log_home ?l m) (a_writes [(log_home ?l m, view s (log_blk ?l m))] (bc_obs t))"
    using install_step[OF t(2), of m] kl o(4-6) v r ml up(2) by (auto simp: commit_ready_def)
  have "view u = apply_writes [(log_home ?l m, view s (log_blk ?l m))] (view t)"
    "disk u = apply_writes [(log_home ?l m, view s (log_blk ?l m))] (disk t)"
    "dwrites u = dwrites t @ [(log_home ?l m, view s (log_blk ?l m))]"
    "rc u = (rc t)(log_home ?l m := rc t (log_home ?l m) - 1)" "lkd u = lkd t" "nfree t \<le> nfree u"
    using arg_cong[OF u(4), of c_view] arg_cong[OF u(4), of c_disk] arg_cong[OF u(4), of c_writes]
      arg_cong[OF u(4), of c_refs] arg_cong[OF u(4), of c_locked] arg_cong[OF u(4), of c_free] by simp_all
  then show ?case using t u(1-3) o up bc_frame_trans[OF t(3) u(3)]
    by (simp add: for_each_append home_writes_Suc apply_writes_append Let_def fun_upd_def)
qed

section \<open>A whole commit\<close>

lemma obs_klog [simp]:
  "cached (s\<lparr>klog := x\<rparr>) = cached s" "view (s\<lparr>klog := x\<rparr>) = view s" "rc (s\<lparr>klog := x\<rparr>) = rc s"
  "lkd (s\<lparr>klog := x\<rparr>) = lkd s" "nfree (s\<lparr>klog := x\<rparr>) = nfree s" "bc_obs (s\<lparr>klog := x\<rparr>) = bc_obs s"
  by (auto simp: fun_eq_iff cached_def view_def rc_def lkd_def nfree_def bc_obs_def split: option.split)

lemma bc_ready_klog [simp]: "bc_ready p (s\<lparr>klog := x\<rparr>) = bc_ready p s"
  by (simp add: bc_ready_def bc_inv_def is_buf_def in_proc_def)

lemma bc_frame_klog:
  assumes "bc_frame (s\<lparr>klog := x\<rparr>) t" and "bc_frame (t\<lparr>klog := y\<rparr>) u"
  shows "bc_frame (s\<lparr>klog := y\<rparr>) u"
proof -
  let ?f = "\<lambda>s t. s\<lparr>bufs := bufs t, lru := lru t, disk := disk t, dwrites := dwrites t, procs := procs t\<rparr>"
  have "?f (s\<lparr>klog := y\<rparr>) t = (?f (s\<lparr>klog := x\<rparr>) t)\<lparr>klog := y\<rparr>" by simp
  also have "\<dots> = t\<lparr>klog := y\<rparr>" using assms(1) unfolding bc_frame_def by metis
  finally have "bc_frame (s\<lparr>klog := y\<rparr>) (t\<lparr>klog := y\<rparr>)" using assms(1) by (simp add: bc_frame_def)
  then show ?thesis using assms(2) by (rule bc_frame_trans)
qed

definition log_header :: "log \<Rightarrow> (u32 \<Rightarrow> byte list) \<Rightarrow> byte list" where
  "log_header l v = put_header (lh_n (l_lh l)) (lh_block (l_lh l)) (v (l_start l))"

definition clear_log :: "log \<Rightarrow> log" where
  "clear_log l = l\<lparr>l_lh := (l_lh l)\<lparr>lh_n := 0\<rparr>\<rparr>"

text \<open>The writes of a commit, in order: the log blocks, the header with the count, the home
  blocks, the header with count zero.\<close>

definition home_copies :: "log \<Rightarrow> (u32 \<Rightarrow> byte list) \<Rightarrow> (u32 \<times> byte list) list" where
  "home_copies l v = map (\<lambda>i. (log_home l i, v (log_home l i))) [0..<log_n l]"

definition commit_writes :: "log \<Rightarrow> (u32 \<Rightarrow> byte list) \<Rightarrow> (u32 \<times> byte list) list" where
  "commit_writes l v = log_writes l v (log_n l) @ [(l_start l, log_header l v)] @ home_copies l v
     @ [(l_start l, put_header 0 (lh_block (l_lh l)) (log_header l v))]"

lemma clear_log_simps [simp]:
  "l_start (clear_log l) = l_start l" "l_dev (clear_log l) = l_dev l" "l_size (clear_log l) = l_size l"
  "lh_n (l_lh (clear_log l)) = 0" "lh_block (l_lh (clear_log l)) = lh_block (l_lh l)"
  "log_area (clear_log l) = log_area l"
  by (auto simp: clear_log_def log_area_def log_blk_def log_cap_def)

lemma upd_lh_clear: "upd_lh (\<lambda>h. h\<lparr>lh_n := 0\<rparr>) s = Ok () (s\<lparr>klog := clear_log (klog s)\<rparr>)"
  by (simp add: upd_lh_def upd_log_def clear_log_def)

lemma apply_home_copies_area:
  "log_ok l \<Longrightarrow> bn \<in> log_area l \<Longrightarrow> apply_writes (home_copies l v) d bn = d bn"
  by (rule apply_writes_other) (auto simp: home_copies_def log_ok_def)

lemma log_phase_Ok:
  assumes r: "commit_ready p s"
  defines "ws \<equiv> log_writes (klog s) (view s) (log_n (klog s)) @ [(l_start (klog s), log_header (klog s) (view s))]"
  shows "\<exists>t. mbind write_log (\<lambda>_. write_head) s = Ok () t \<and> commit_ready p t \<and> bc_frame s t
    \<and> bc_obs t = a_writes ws (bc_obs s)"
proof -
  let ?l = "klog s" let ?n = "log_n ?l" let ?lw = "log_writes ?l (view s) ?n" let ?st = "l_start ?l"
  let ?H = "log_header ?l (view s)"
  have ok: "log_ok ?l" and nL: "?n \<le> LOGSIZE" "?n \<le> log_cap ?l" using r log_ok_n log_ok_cap by (auto simp: commit_ready_def)
  obtain a where a: "write_log s = Ok () a" "bc_ready p a" "bc_frame s a" "bc_obs a = a_writes ?lw (bc_obs s)"
    using write_log_Ok[OF r] by blast
  have ka: "klog a = ?l" using a(3) by (simp add: bc_frameD)
  have oa: "rc a = rc s" "nfree a = nfree s" "view a = apply_writes ?lw (view s)"
    using arg_cong[OF a(4), of c_refs] arg_cong[OF a(4), of c_free] arg_cong[OF a(4), of c_view] by simp_all
  have va: "view a ?st = view s ?st" using oa(3) nL by (simp add: apply_log_writes_start)
  obtain b where b: "write_head a = Ok () b" "bc_ready p b" "bc_frame a b" "bc_obs b = a_writes [(?st, ?H)] (bc_obs a)"
    using write_head_Ok[OF a(2)] ka ok log_ok_lh_n[OF ok] oa va r by (auto simp: commit_ready_def log_header_def log_ok_def)
  have kb: "klog b = ?l" using b(3) ka by (simp add: bc_frameD)
  have ob: "bc_obs b = a_writes ws (bc_obs s)" using a(4) b(4) by (simp add: ws_def a_writes_append)
  have "rc b = rc s" "lkd b = lkd s" "nfree b = nfree s"
    using arg_cong[OF ob, of c_refs] arg_cong[OF ob, of c_locked] arg_cong[OF ob, of c_free] by simp_all
  then have "commit_ready p b" using r b(2) kb by (simp add: commit_ready_def)
  with a(1) b(1) ob bc_frame_trans[OF a(3) b(3)] show ?thesis by simp
qed

lemma commit_Ok:
  assumes r: "commit_ready p s" and n: "0 < log_n (klog s)"
  defines "ws \<equiv> commit_writes (klog s) (view s)"
  shows "\<exists>t. commit s = Ok () t \<and> bc_ready p t \<and> bc_frame (s\<lparr>klog := clear_log (klog s)\<rparr>) t
    \<and> view t = apply_writes ws (view s) \<and> disk t = apply_writes ws (disk s) \<and> dwrites t = dwrites s @ ws
    \<and> rc t = unpinned (klog s) (log_n (klog s)) (rc s) \<and> lkd t = lkd s \<and> nfree s \<le> nfree t"
proof -
  let ?l = "klog s" let ?n = "log_n ?l" let ?st = "l_start ?l" let ?H = "log_header ?l (view s)"
  let ?lw = "log_writes ?l (view s) ?n @ [(?st, ?H)]" let ?hw = "home_copies ?l (view s)"
  let ?Z = "put_header 0 (lh_block (l_lh ?l)) ?H"
  have ok: "log_ok ?l" and nL: "?n \<le> LOGSIZE" "?n \<le> log_cap ?l" using r log_ok_n log_ok_cap by (auto simp: commit_ready_def)
  obtain b where b: "mbind write_log (\<lambda>_. write_head) s = Ok () b" "commit_ready p b" "bc_frame s b"
    "bc_obs b = a_writes ?lw (bc_obs s)" using log_phase_Ok[OF r] by blast
  have kb: "klog b = ?l" using b(3) by (simp add: bc_frameD)
  have ob: "rc b = rc s" "lkd b = lkd s" "nfree b = nfree s" "view b = apply_writes ?lw (view s)"
    "disk b = apply_writes ?lw (disk s)" "dwrites b = dwrites s @ ?lw"
    using arg_cong[OF b(4), of c_refs] arg_cong[OF b(4), of c_locked] arg_cong[OF b(4), of c_free]
      arg_cong[OF b(4), of c_view] arg_cong[OF b(4), of c_disk] arg_cong[OF b(4), of c_writes] by simp_all
  have "view b (log_blk ?l i) = view s (log_home ?l i)" if "i < ?n" for i
    using that nL ob(4) log_blk_start[of i ?l]
    by (simp add: apply_writes_append apply_writes_Cons apply_log_writes_blk)
  then have hw: "home_writes ?l (view b) ?n = ?hw" by (simp add: home_writes_def home_copies_def)
  from install_upto[OF b(2) order_refl] obtain c
    where c: "install_trans False b = Ok () c" "bc_ready p c" "bc_frame b c"
      and oc: "view c = apply_writes ?hw (view b)" "disk c = apply_writes ?hw (disk b)" "dwrites c = dwrites b @ ?hw"
      "rc c = unpinned ?l ?n (rc s)" "lkd c = lkd s" "nfree s \<le> nfree c"
    using kb hw ob(1-3) by (auto simp: Let_def install_trans_def log_n_def)
  have kc: "klog c = ?l" using c(3) kb by (simp add: bc_frameD)
  have vc: "view c ?st = ?H"
    using oc(1) ob(4) apply_home_copies_area[OF ok, of ?st] by (simp add: apply_writes_append apply_writes_Cons)
  have z: "rc c ?st = 0" and f: "0 < nfree c" using oc(4,6) r by (simp_all add: unpinned_def commit_ready_def)
  let ?c = "c\<lparr>klog := clear_log ?l\<rparr>"
  obtain d where d: "write_head ?c = Ok () d" "bc_ready p d" "bc_frame ?c d" "bc_obs d = a_writes [(?st, ?Z)] (bc_obs c)"
    using write_head_Ok[of p ?c] c(2) kc ok vc z f by (auto simp: log_ok_def)
  have od: "view d = apply_writes [(?st, ?Z)] (view c)" "disk d = apply_writes [(?st, ?Z)] (disk c)"
    "dwrites d = dwrites c @ [(?st, ?Z)]" "rc d = rc c" "lkd d = lkd c" "nfree d = nfree c"
    using arg_cong[OF d(4), of c_view] arg_cong[OF d(4), of c_disk] arg_cong[OF d(4), of c_writes]
      arg_cong[OF d(4), of c_refs] arg_cong[OF d(4), of c_locked] arg_cong[OF d(4), of c_free] by simp_all
  have "commit s = mbind (mbind write_log (\<lambda>_. write_head)) (\<lambda>_. mbind (install_trans False) (\<lambda>_.
      mbind (upd_lh (\<lambda>h. h\<lparr>lh_n := 0\<rparr>)) (\<lambda>_. write_head))) s"
    using n by (simp add: commit_def log_n_def mbind_def split: outcome.split)
  then have e: "commit s = Ok () d" using b(1) c(1) d(1) kc upd_lh_clear[of c] by simp
  have "bc_frame s c" using b(3) c(3) by (rule bc_frame_trans)
  then have fr: "bc_frame (s\<lparr>klog := clear_log ?l\<rparr>) d" using d(3) bc_frame_klog[where s = s and x = ?l and t = c] by simp
  show ?thesis using e d(2) fr od oc ob by (simp add: ws_def commit_writes_def apply_writes_append apply_writes_Cons)
qed

section \<open>Recovery\<close>

definition loaded_log :: "log \<Rightarrow> byte list \<Rightarrow> log" where
  "loaded_log l d = l\<lparr>l_lh := \<lparr>lh_n = hdr_n d,
     lh_block = map (\<lambda>i. hdr_block i d) [0..<nat (hdr_n d)] @ drop (nat (hdr_n d)) (lh_block (l_lh l))\<rparr>\<rparr>"

lemma owns_klog [simp]: "owns p (s\<lparr>klog := x\<rparr>) = owns p s"
  by (simp add: owns_def is_buf_def fun_eq_iff)

lemma lh_set_upto:
  assumes "m \<le> length (lh_block (l_lh (klog s)))"
  shows "for_each [0..<m] (\<lambda>i. lh_set i (f i)) s = Ok () (s\<lparr>klog := (klog s)\<lparr>l_lh := (l_lh (klog s))
    \<lparr>lh_block := map f [0..<m] @ drop m (lh_block (l_lh (klog s)))\<rparr>\<rparr>\<rparr>)"
  using assms
proof (induction m)
  case (Suc m)
  let ?bs = "lh_block (l_lh (klog s))"
  have "drop m ?bs = ?bs ! m # drop (Suc m) ?bs" using Suc.prems by (simp add: Cons_nth_drop_Suc)
  with Suc show ?case
    by (simp add: for_each_append lh_set_def upd_lh_def upd_log_def list_update_append)
qed simp

lemma read_head_Ok:
  assumes r: "bc_ready p s" and l: "l_dev (klog s) = ROOTDEV" "length (lh_block (l_lh (klog s))) = LOGSIZE"
    and z: "rc s (l_start (klog s)) = 0" and f: "0 < nfree s"
  defines "d \<equiv> view s (l_start (klog s))"
  assumes n: "hdr_n d \<le> int LOGSIZE"
  shows "\<exists>t. read_head s = Ok () t \<and> bc_ready p t \<and> bc_frame (s\<lparr>klog := loaded_log (klog s) d\<rparr>) t
    \<and> bc_obs t = bc_obs s"
proof -
  let ?st = "l_start (klog s)" let ?k = "loaded_log (klog s) d"
  have u: "\<not> lkd s ?st" using unreferenced z r by (simp add: bc_ready_def)
  obtain b a where a: "bread ROOTDEV ?st s = Ok b a" "bc_ready p a" "bc_frame s a" "owns p a ?st b"
    "bc_obs a = a_bread ?st (bc_obs s)"
    using bc.bread_law[where p = p and s = s and n = ?st] r z f u by auto
  have ka: "klog a = klog s" using a(3) by (simp add: bc_frameD)
  have va: "view a ?st = d" "rc a ?st = 1" "disk a ?st = d"
    using arg_cong[OF a(5), of c_view] arg_cong[OF a(5), of c_refs] arg_cong[OF a(5), of c_disk] z
      unreferenced[of s ?st] r by (simp_all add: d_def a_bread_def bc_ready_def)
  have g: "buf_data b a = Ok d a" using bc.get_law[OF a(2,4)] va by simp
  obtain c where c: "brelse b (a\<lparr>klog := ?k\<rparr>) = Ok () c" "bc_ready p c" "bc_frame (a\<lparr>klog := ?k\<rparr>) c"
    "bc_obs c = a_brelse ?st (bc_obs a)"
    using bc.brelse_law[where p = p and s = "a\<lparr>klog := ?k\<rparr>" and n = ?st and b = b] a(2,4) va by auto
  let ?u = "a\<lparr>klog := (klog s)\<lparr>l_lh := (l_lh (klog s))\<lparr>lh_n := hdr_n d\<rparr>\<rparr>\<rparr>"
  have h: "upd_lh (\<lambda>h. h\<lparr>lh_n := hdr_n d\<rparr>) a = Ok () ?u" using ka by (simp add: upd_lh_def upd_log_def)
  have w: "for_each [0..<nat (hdr_n d)] (\<lambda>i. lh_set i (hdr_block i d)) ?u = Ok () (a\<lparr>klog := ?k\<rparr>)"
    using lh_set_upto[of "nat (hdr_n d)" ?u "\<lambda>i. hdr_block i d"] n l(2) by (simp add: loaded_log_def)
  have "read_head s = Ok () c"
    unfolding read_head_def using a(1) g h w c(1) l(1) by simp
  moreover have "bc_obs c = bc_obs s"
    using c(4) a(5) z f u by (cases "bc_obs s") (auto simp: a_defs fun_eq_iff bc_obs_def)
  moreover have "bc_frame (s\<lparr>klog := ?k\<rparr>) c"
    using bc_frame_klog[where s = s and x = "klog s" and t = a] a(3) c(3) by simp
  ultimately show ?thesis using c(2) by blast
qed

lemma recover_step:
  assumes "bc_ready p s" and "log_ok (klog s)" and i: "i < log_n (klog s)"
    and "\<And>bn. rc s bn = 0" and "1 < nfree s"
  shows "\<exists>t. install_body True i s = Ok () t \<and> bc_ready p t \<and> bc_frame s t
    \<and> bc_obs t = a_writes [(log_home (klog s) i, view s (log_blk (klog s) i))] (bc_obs s)"
proof -
  have "l_dev (klog s) = ROOTDEV" using assms(2) by (simp add: log_ok_def)
  then show ?thesis
    using bc.install_unpinned[where p = p and s = s and l = "log_blk (klog s) i" and h = "log_home (klog s) i"]
      assms log_blk_home[OF assms(2) i i]
    unfolding install_body_def log_body_start[OF assms(2) i] by (simp del: mbind_apply)
qed

lemma recover_upto:
  assumes r: "bc_ready p s" and ok: "log_ok (klog s)" and z: "\<And>bn. rc s bn = 0" and f: "1 < nfree s"
    and m: "m \<le> log_n (klog s)"
  shows "\<exists>t. for_each [0..<m] (install_body True) s = Ok () t \<and> bc_ready p t \<and> bc_frame s t
    \<and> bc_obs t = a_writes (home_writes (klog s) (view s) m) (bc_obs s)"
  using m
proof (induction m)
  case 0
  show ?case using r by (simp add: home_writes_def)
next
  case (Suc m)
  let ?l = "klog s" let ?ws = "home_writes ?l (view s) m"
  obtain t where t: "for_each [0..<m] (install_body True) s = Ok () t" "bc_ready p t" "bc_frame s t"
    "bc_obs t = a_writes ?ws (bc_obs s)" using Suc by auto
  have kl: "klog t = ?l" using t(3) by (simp add: bc_frameD)
  have ml: "m < log_n ?l" "m < LOGSIZE" "m < log_cap ?l" using Suc.prems log_ok_n[OF ok] log_ok_cap[OF ok] by simp_all
  have o: "rc t = rc s" "nfree t = nfree s" "view t (log_blk ?l m) = view s (log_blk ?l m)"
    using arg_cong[OF t(4), of c_refs] arg_cong[OF t(4), of c_free] arg_cong[OF t(4), of c_view]
      apply_home_writes_area[OF ok, of m "log_blk ?l m"] ml by simp_all
  obtain u where u: "install_body True m t = Ok () u" "bc_ready p u" "bc_frame t u"
    "bc_obs u = a_writes [(log_home ?l m, view s (log_blk ?l m))] (bc_obs t)"
    using recover_step[OF t(2), of m] kl o ok ml z f by auto
  show ?case using t(1,4) u bc_frame_trans[OF t(3) u(3)]
    by (simp add: for_each_append home_writes_Suc a_writes_append)
qed

text \<open>The writes of a recovery from header \<open>d\<close>.\<close>

definition recovery_writes :: "log \<Rightarrow> (u32 \<Rightarrow> byte list) \<Rightarrow> (u32 \<times> byte list) list" where
  "recovery_writes l v = (let k = loaded_log l (v (l_start l)) in
     home_writes k v (log_n k) @ [(l_start l, put_header 0 (lh_block (l_lh k)) (v (l_start l)))])"

lemma loaded_log_simps [simp]:
  "l_start (loaded_log l d) = l_start l" "l_dev (loaded_log l d) = l_dev l" "l_size (loaded_log l d) = l_size l"
  "log_area (loaded_log l d) = log_area l" "log_blk (loaded_log l d) = log_blk l" "log_cap (loaded_log l d) = log_cap l"
  by (auto simp: loaded_log_def log_area_def log_blk_def log_cap_def fun_eq_iff)

lemma recover_Ok:
  assumes r: "bc_ready p s" and l: "length (lh_block (l_lh (klog s))) = LOGSIZE"
    and z: "\<And>bn. rc s bn = 0" and f: "1 < nfree s"
    and ok: "log_ok (loaded_log (klog s) (view s (l_start (klog s))))"
  shows "\<exists>t. recover_from_log s = Ok () t \<and> bc_ready p t \<and> lh_n (l_lh (klog t)) = 0
    \<and> bc_obs t = a_writes (recovery_writes (klog s) (view s)) (bc_obs s)"
proof -
  let ?st = "l_start (klog s)" let ?d = "view s ?st" let ?k = "loaded_log (klog s) ?d"
  have n: "hdr_n ?d \<le> int LOGSIZE" and dev: "l_dev (klog s) = ROOTDEV"
    using ok by (auto simp: log_ok_def loaded_log_def)
  obtain a where a: "read_head s = Ok () a" "bc_ready p a" "bc_frame (s\<lparr>klog := ?k\<rparr>) a" "bc_obs a = bc_obs s"
    using read_head_Ok[OF r dev l z _ n] f by auto
  have ka: "klog a = ?k" using a(3) by (simp add: bc_frameD)
  have oa: "rc a = rc s" "nfree a = nfree s" "view a = view s"
    using arg_cong[OF a(4), of c_refs] arg_cong[OF a(4), of c_free] arg_cong[OF a(4), of c_view] by simp_all
  let ?hw = "home_writes ?k (view s) (log_n ?k)"
  obtain b where b: "for_each [0..<log_n ?k] (install_body True) a = Ok () b" "bc_ready p b" "bc_frame a b"
    "bc_obs b = a_writes ?hw (bc_obs a)"
    using recover_upto[of p a "log_n ?k"] a(2) ka ok oa z f by auto
  have kb: "klog b = ?k" using b(3) ka by (simp add: bc_frameD)
  have ob: "rc b = rc s" "nfree b = nfree s" "view b ?st = ?d"
    using arg_cong[OF b(4), of c_refs] arg_cong[OF b(4), of c_free] arg_cong[OF b(4), of c_view] oa
      apply_home_writes_area[OF ok order_refl, of ?st] by simp_all
  obtain c where c: "write_head (b\<lparr>klog := clear_log ?k\<rparr>) = Ok () c" "bc_ready p c"
      "bc_frame (b\<lparr>klog := clear_log ?k\<rparr>) c"
      "bc_obs c = a_writes [(?st, put_header 0 (lh_block (l_lh ?k)) ?d)] (bc_obs b)"
    using write_head_Ok[of p "b\<lparr>klog := clear_log ?k\<rparr>"] b(2) ok ob dev z f by (auto simp: log_ok_def)
  have "recover_from_log s = Ok () c"
    using a(1) b(1) c(1) ka kb upd_lh_clear[of b]
    by (simp add: recover_from_log_def install_trans_def log_n_def)
  moreover have "klog c = clear_log ?k" using c(3) by (simp add: bc_frameD)
  ultimately show ?thesis
    using c(2,4) b(4) a(4) by (simp add: recovery_writes_def Let_def a_writes_append)
qed

section \<open>Crash safety\<close>

text \<open>The block numbers of the transaction.\<close>

definition log_homes :: "log \<Rightarrow> u32 set" where
  "log_homes l = log_home l ` {..<log_n l}"

text \<open>The boot sequence as far as the disk is concerned: \<open>binit\<close>, then \<open>initlog\<close>.\<close>

definition reboot :: "superblock \<Rightarrow> unit K" where
  "reboot sbk = mbind binit (\<lambda>_. initlog ROOTDEV sbk)"

text \<open>What a disk after a crash inside a commit can look like.\<close>

datatype crash_point = Before_commit | After_commit | All_done

definition crash_disk :: "log \<Rightarrow> (u32 \<Rightarrow> byte list) \<Rightarrow> (u32 \<Rightarrow> byte list) \<Rightarrow> crash_point \<Rightarrow> (u32 \<Rightarrow> byte list) \<Rightarrow> bool" where
  "crash_disk l v d cp e = (case cp of
       Before_commit \<Rightarrow> e (l_start l) = d (l_start l) \<and> (\<forall>bn. bn \<notin> log_area l \<longrightarrow> e bn = d bn)
     | After_commit \<Rightarrow> e (l_start l) = log_header l v \<and> (\<forall>i < log_n l. e (log_blk l i) = v (log_home l i))
         \<and> (\<forall>bn. bn \<notin> log_area l \<longrightarrow> bn \<notin> log_homes l \<longrightarrow> e bn = d bn)
     | All_done \<Rightarrow> e (l_start l) = put_header 0 (lh_block (l_lh l)) (log_header l v)
         \<and> (\<forall>bn. bn \<notin> log_area l \<longrightarrow> e bn = (if bn \<in> log_homes l then v bn else d bn)))"

lemma take_log_writes: "take k (log_writes l v m) = log_writes l v (min k m)"
  by (cases "k \<le> m") (simp_all add: log_writes_def take_map min_def)

lemma home_copies_mem:
  assumes "log_ok l" and "bn \<in> log_homes l"
  shows "apply_writes (home_copies l v) d bn = v bn"
proof (rule apply_writes_mem)
  show "distinct (map fst (home_copies l v))" using assms(1) by (simp add: home_copies_def log_ok_def comp_def)
  show "(bn, v bn) \<in> set (home_copies l v)" using assms(2) by (auto simp: log_homes_def home_copies_def)
qed

lemma home_copies_prefix_other:
  "bn \<notin> log_homes l \<Longrightarrow> apply_writes (take k (home_copies l v)) d bn = d bn"
  by (rule apply_writes_other) (auto simp: log_homes_def home_copies_def dest!: in_set_takeD)

lemma home_copies_prefix_area:
  "log_ok l \<Longrightarrow> bn \<in> log_area l \<Longrightarrow> apply_writes (take k (home_copies l v)) d bn = d bn"
  by (rule home_copies_prefix_other) (auto simp: log_homes_def log_ok_def)

lemma crash_disk_cases:
  fixes d :: "u32 \<Rightarrow> byte list"
  assumes ok: "log_ok l" and k: "k \<le> length (commit_writes l v)"
  defines "e \<equiv> apply_writes (take k (commit_writes l v)) d"
  shows "crash_disk l v d (if k \<le> log_n l then Before_commit
    else if k \<le> 2 * log_n l + 1 then After_commit else All_done) e"
proof -
  have nL: "log_n l \<le> LOGSIZE" "log_n l \<le> log_cap l" using log_ok_n[OF ok] log_ok_cap[OF ok] .
  have len: "length (log_writes l v (log_n l)) = log_n l" "length (home_copies l v) = log_n l"
    by (simp_all add: log_writes_def home_copies_def)
  consider "k \<le> log_n l" | "log_n l < k" "k \<le> 2 * log_n l + 1" | "k = 2 * log_n l + 2"
    using k len by (fastforce simp: commit_writes_def)
  then show ?thesis
  proof cases
    case 1
    then have "e = apply_writes (log_writes l v k) d"
      by (simp add: e_def commit_writes_def len take_log_writes min_def)
    with 1 nL show ?thesis
      by (auto simp: crash_disk_def apply_log_writes_start apply_log_writes_other)
  next
    case 2
    define d' where "d' = (apply_writes (log_writes l v (log_n l)) d)(l_start l := log_header l v)"
    have "take k (commit_writes l v) = log_writes l v (log_n l) @ [(l_start l, log_header l v)]
        @ take (k - log_n l - 1) (home_copies l v)"
      using 2 len by (simp add: commit_writes_def take_Cons' take_log_writes)
    then have e: "e = apply_writes (take (k - log_n l - 1) (home_copies l v)) d'"
      by (simp add: e_def d'_def apply_writes_append apply_writes_Cons)
    have "e (log_blk l i) = v (log_home l i)" if "i < log_n l" for i
      using that nL e home_copies_prefix_area[OF ok, of "log_blk l i"] log_blk_start[of i l]
      by (simp add: d'_def apply_log_writes_blk)
    moreover have "e (l_start l) = log_header l v"
      using e home_copies_prefix_area[OF ok, of "l_start l"] by (simp add: d'_def)
    moreover have "e bn = d bn" if "bn \<notin> log_area l" "bn \<notin> log_homes l" for bn
    proof -
      have "bn \<noteq> l_start l" using that(1) by auto
      with that nL show ?thesis by (simp add: e home_copies_prefix_other d'_def apply_log_writes_other)
    qed
    ultimately show ?thesis using 2 by (simp add: crash_disk_def)
  next
    case 3
    define d' where "d' = (apply_writes (log_writes l v (log_n l)) d)(l_start l := log_header l v)"
    have "take k (commit_writes l v) = commit_writes l v" using 3 len by (simp add: commit_writes_def)
    then have e: "e = (apply_writes (home_copies l v) d')(l_start l := put_header 0 (lh_block (l_lh l)) (log_header l v))"
      by (simp add: e_def commit_writes_def d'_def apply_writes_append apply_writes_Cons)
    have "e bn = (if bn \<in> log_homes l then v bn else d bn)" if "bn \<notin> log_area l" for bn
    proof -
      have "bn \<noteq> l_start l" using that by auto
      then show ?thesis
        using that nL home_copies_mem[OF ok] home_copies_prefix_other[of bn l "log_n l" v d'] len
        by (simp add: e d'_def apply_log_writes_other)
    qed
    with 3 e show ?thesis by (simp add: crash_disk_def)
  qed
qed

text \<open>Rebooting on a disk whose log header describes a well-formed log.\<close>

lemma reboot_Ok:
  fixes sbk :: superblock
  assumes p: "in_proc p r" and len: "\<And>bn. length (disk r bn) = BSIZE"
    and bl: "length (lh_block (l_lh (klog r))) = LOGSIZE"
  defines "l \<equiv> (klog r)\<lparr>l_start := sb_logstart sbk, l_size := sint (sb_nlog sbk), l_dev := ROOTDEV\<rparr>"
  assumes ok: "log_ok (loaded_log l (disk r (l_start l)))"
  shows "\<exists>u. reboot sbk r = Ok () u \<and> bc_ready p u \<and> lh_n (l_lh (klog u)) = 0
    \<and> view u = apply_writes (recovery_writes l (disk r)) (disk r)
    \<and> disk u = apply_writes (recovery_writes l (disk r)) (disk r)"
proof -
  obtain a where a: "binit r = Ok () a" "bc_inv a" "bc_frame r a"
    "bc_obs a = \<lparr>c_view = disk r, c_disk = disk r, c_writes = dwrites r, c_refs = (\<lambda>_. 0),
        c_locked = (\<lambda>_. False), c_free = NBUF\<rparr>" using binit_fresh[OF len] by blast
  have oa: "view a = disk r" "rc a = (\<lambda>_. 0)" "nfree a = NBUF" "disk a = disk r"
    using arg_cong[OF a(4), of c_view] arg_cong[OF a(4), of c_refs] arg_cong[OF a(4), of c_free]
      arg_cong[OF a(4), of c_disk] by simp_all
  let ?a = "a\<lparr>klog := l\<rparr>"
  have "klog a = klog r" using a(3) by (simp add: bc_frameD)
  then have i: "initlog ROOTDEV sbk a = recover_from_log ?a"
    by (simp add: initlog_def const_defs upd_log_def l_def)
  have "bc_ready p a" using a(2) in_proc_frame[OF a(3) p] by (simp add: bc_ready_def)
  then obtain u where u: "recover_from_log ?a = Ok () u" "bc_ready p u" "lh_n (l_lh (klog u)) = 0"
    "bc_obs u = a_writes (recovery_writes l (disk r)) (bc_obs a)"
    using recover_Ok[of p ?a] oa ok bl by (auto simp: NBUF_def l_def)
  have "view u = apply_writes (recovery_writes l (disk r)) (disk r)"
    "disk u = apply_writes (recovery_writes l (disk r)) (disk r)"
    using arg_cong[OF u(4), of c_view] arg_cong[OF u(4), of c_disk] oa by simp_all
  with a(1) i u show ?thesis by (simp add: reboot_def)
qed

lemma recovery_writes_empty:
  assumes "hdr_n (e (l_start l)) = 0" and "bn \<notin> log_area l"
  shows "apply_writes (recovery_writes l e) d bn = d bn"
proof -
  have "bn \<noteq> l_start l" using assms(2) by auto
  with assms(1) show ?thesis
    by (simp add: recovery_writes_def loaded_log_def log_n_def home_writes_def apply_writes_Cons)
qed

lemma loaded_log_empty:
  assumes "hdr_n d = 0" and "l_dev l = ROOTDEV" and "length (lh_block (l_lh l)) = LOGSIZE"
  shows "log_ok (loaded_log l d)"
  using assms by (simp add: log_ok_def loaded_log_def log_n_def)

text \<open>Loading the header that a commit of the log \<open>l\<close> has written brings the same log back.\<close>

lemma loaded_log_committed:
  assumes ok: "log_ok l" and d: "length (v (l_start l)) = BSIZE"
    and l': "l_start l' = l_start l" "l_dev l' = ROOTDEV" "length (lh_block (l_lh l')) = LOGSIZE" "l_size l' = l_size l"
  defines "k \<equiv> loaded_log l' (log_header l v)"
  shows "log_n k = log_n l" and "i < log_n l \<Longrightarrow> log_home k i = log_home l i" and "log_ok k"
proof -
  let ?h = "l_lh l"
  have b: "0 \<le> lh_n ?h" "lh_n ?h \<le> int LOGSIZE" using ok log_ok_lh_n[OF ok] by (simp_all add: log_ok_def)
  note p = put_header_props[OF d b, where bs = "lh_block ?h"]
  show n: "log_n k = log_n l" using p(2) by (simp add: k_def log_n_def loaded_log_def log_header_def)
  have h: "log_home k i = log_home l i" if "i < log_n l" for i
    using p(3)[of i] that p(2) by (simp add: k_def log_home_def loaded_log_def log_header_def log_n_def nth_append)
  then show "i < log_n l \<Longrightarrow> log_home k i = log_home l i" .
  have area: "log_area k = log_area l" "log_cap k = log_cap l" by (simp_all add: k_def log_area_def log_blk_def log_cap_def l')
  have m: "map (log_home k) [0..<log_n l] = map (log_home l) [0..<log_n l]" using h by simp
  moreover have dv: "l_dev k = ROOTDEV" using l'(2) by (simp add: k_def)
  moreover have "length (lh_block (l_lh k)) = LOGSIZE" "lh_n (l_lh k) = lh_n ?h"
    using p(2) b l'(3) by (auto simp: k_def loaded_log_def log_header_def)
  ultimately show "log_ok k"
    using ok b unfolding log_ok_def n area m by (simp add: h)
qed

lemma recovery_writes_committed:
  assumes ok: "log_ok l" and d: "length (v (l_start l)) = BSIZE"
    and l': "l_start l' = l_start l" "l_dev l' = ROOTDEV" "length (lh_block (l_lh l')) = LOGSIZE" "l_size l' = l_size l"
    and e: "e (l_start l) = log_header l v" "\<And>i. i < log_n l \<Longrightarrow> e (log_blk l i) = v (log_home l i)"
    and bn: "bn \<notin> log_area l"
  shows "apply_writes (recovery_writes l' e) e bn = (if bn \<in> log_homes l then v bn else e bn)"
proof -
  note k = loaded_log_committed[where v = v, OF ok d l']
  have "log_blk l' i = log_blk l i" for i using l'(1) by (simp add: log_blk_def)
  then have "home_writes (loaded_log l' (e (l_start l'))) e (log_n l) = home_copies l v"
    using k(2) e by (simp add: l'(1) home_writes_def home_copies_def)
  moreover have "bn \<noteq> l_start l" using bn by auto
  ultimately have "apply_writes (recovery_writes l' e) e bn = apply_writes (home_copies l v) e bn"
    using k(1) e(1) l'(1) by (simp add: recovery_writes_def apply_writes_append apply_writes_Cons)
  moreover have "take (log_n l) (home_copies l v) = home_copies l v" by (simp add: home_copies_def)
  ultimately show ?thesis
    using home_copies_mem[OF ok] home_copies_prefix_other[of bn l "log_n l" v e] by simp
qed

text \<open>Recovery from each kind of crash disk.\<close>

lemma crash_reboot:
  assumes ok: "log_ok l" and v: "length (v (l_start l)) = BSIZE" and h: "hdr_n (d (l_start l)) = 0"
    and cd: "crash_disk l v d cp (disk r)"
    and p: "in_proc p r" and len: "\<And>bn. length (disk r bn) = BSIZE"
    and bl: "length (lh_block (l_lh (klog r))) = LOGSIZE" and sbk: "sb_logstart sbk = l_start l" "sint (sb_nlog sbk) = l_size l"
  shows "\<exists>u. reboot sbk r = Ok () u \<and> bc_ready p u \<and> lh_n (l_lh (klog u)) = 0
    \<and> (\<forall>bn. bn \<notin> log_area l \<longrightarrow> view u bn = disk u bn \<and>
         disk u bn = (if cp \<noteq> Before_commit \<and> bn \<in> log_homes l then v bn else d bn))"
proof -
  let ?l = "(klog r)\<lparr>l_start := sb_logstart sbk, l_size := sint (sb_nlog sbk), l_dev := ROOTDEV\<rparr>"
  have l': "l_start ?l = l_start l" "l_dev ?l = ROOTDEV" "length (lh_block (l_lh ?l)) = LOGSIZE" "l_size ?l = l_size l"
    using sbk bl by simp_all
  have area: "log_area ?l = log_area l" using sbk by (auto simp: log_area_def log_blk_def log_cap_def)
  have "0 \<le> lh_n (l_lh l)" "lh_n (l_lh l) \<le> int LOGSIZE" using ok log_ok_lh_n[OF ok] by (simp_all add: log_ok_def)
  then have lh: "length (log_header l v) = BSIZE" by (simp add: log_header_def put_header_props v)
  have z: "hdr_n (put_header 0 (lh_block (l_lh l)) (log_header l v)) = 0"
    using put_header_props(2)[OF lh, of 0] by simp
  have "log_ok (loaded_log ?l (disk r (l_start ?l)))"
    using cd h z l' loaded_log_empty[of _ ?l] loaded_log_committed(3)[where v = v, OF ok v l']
    by (cases cp) (auto simp: crash_disk_def)
  from reboot_Ok[OF p len bl this] obtain u where u: "reboot sbk r = Ok () u" "bc_ready p u"
    "lh_n (l_lh (klog u)) = 0" "view u = apply_writes (recovery_writes ?l (disk r)) (disk r)"
    "disk u = apply_writes (recovery_writes ?l (disk r)) (disk r)" by blast
  have "apply_writes (recovery_writes ?l (disk r)) (disk r) bn
      = (if cp \<noteq> Before_commit \<and> bn \<in> log_homes l then v bn else d bn)" if bn: "bn \<notin> log_area l" for bn
  proof (cases cp)
    case Before_commit
    with cd h bn area l' show ?thesis by (simp add: crash_disk_def recovery_writes_empty)
  next
    case After_commit
    with cd bn recovery_writes_committed[where v = v and e = "disk r" and bn = bn, OF ok v l'] show ?thesis by (auto simp: crash_disk_def)
  next
    case All_done
    with cd z bn area l' show ?thesis by (simp add: crash_disk_def recovery_writes_empty)
  qed
  with u show ?thesis by auto
qed

section \<open>A transaction of one block\<close>

text \<open>A concrete state for examples: the log at block 2, block 100 modified in the cache, pinned and
  recorded in the log.\<close>

definition tx_buf :: buf where
  "tx_buf = empty_buf\<lparr>b_valid := True, b_dev := ROOTDEV, b_blockno := 100, b_refcnt := 1, b_data := replicate BSIZE 7\<rparr>"

definition tx_log :: log where
  "tx_log = \<lparr>l_start = 2, l_size = 30, l_outstanding = 0, l_committing = True, l_dev = ROOTDEV,
     l_lh = \<lparr>lh_n = 1, lh_block = (replicate LOGSIZE 0)[0 := 100]\<rparr>\<rparr>"

definition fresh_state :: kstate where
  "fresh_state = zero_state\<lparr>bufs := replicate NBUF empty_buf, lru := rev [0..<NBUF]\<rparr>"

definition tx_state :: kstate where
  "tx_state = (fresh_state\<lparr>bufs := (bufs fresh_state)[0 := tx_buf]\<rparr>)\<lparr>klog := tx_log\<rparr>"

lemma zero_state_simps [simp]:
  "held zero_state = {}" "curproc zero_state = Some 0" "length (procs zero_state) = NPROC"
  "disk zero_state = (\<lambda>_. replicate BSIZE 0)" "klog zero_state = zero_log" "dwrites zero_state = []"
  by (simp_all add: zero_state_def)

lemma fresh_state_ready:
  "bc_ready 0 fresh_state" "rc fresh_state bn = 0" "nfree fresh_state = NBUF" "disk fresh_state = (\<lambda>_. replicate BSIZE 0)"
proof -
  obtain t where "binit zero_state = Ok () t" "bc_inv t" and
    o: "bc_obs t = \<lparr>c_view = disk zero_state, c_disk = disk zero_state, c_writes = dwrites zero_state, c_refs = (\<lambda>_. 0),
        c_locked = (\<lambda>_. False), c_free = NBUF\<rparr>"
    using binit_fresh[of zero_state] by auto
  then have t: "t = fresh_state" "bc_inv fresh_state" by (auto simp: fresh_state_def binit_Ok)
  show "bc_ready 0 fresh_state"
    using t(2) by (simp add: bc_ready_def in_proc_def fresh_state_def NPROC_def)
  show "rc fresh_state bn = 0" "nfree fresh_state = NBUF" "disk fresh_state = (\<lambda>_. replicate BSIZE 0)"
    using arg_cong[OF o, of c_refs] arg_cong[OF o, of c_free] arg_cong[OF o, of c_disk] t(1) by simp_all
qed

lemma tx_buf_simps:
  "b_valid tx_buf" "b_dev tx_buf = ROOTDEV" "b_blockno tx_buf = 100" "b_refcnt tx_buf = 1"
  "\<not> sl_locked (b_lock tx_buf)" "buf_ok d tx_buf"
  by (simp_all add: tx_buf_def buf_ok_def empty_buf_def)

lemma tx_state_ready: "commit_ready 0 tx_state"
proof -
  let ?u = "fresh_state\<lparr>bufs := (bufs fresh_state)[0 := tx_buf]\<rparr>"
  have inv: "bc_inv fresh_state" using fresh_state_ready(1) by (simp add: bc_ready_def)
  have nb: "\<forall>c. \<not> is_buf fresh_state (b_blockno tx_buf) c"
    by (auto simp: is_buf_def fresh_state_def empty_buf_def ROOTDEV_def)
  have e: "b_refcnt (bufs fresh_state ! 0) = 0" by (simp add: fresh_state_def empty_buf_def NBUF_def)
  note u = obs_upd[OF inv _ tx_buf_simps(6,2), of 0, OF _ disjI2, OF _ conjI[OF e nb], unfolded tx_buf_simps(3)]
  have "bc_inv ?u" using u(1) by (simp add: NBUF_def)
  moreover have "in_proc 0 ?u" using fresh_state_ready(1) by (simp add: bc_ready_def in_proc_def)
  ultimately have "bc_ready 0 ?u" by (simp add: bc_ready_def)
  moreover have "rc ?u = (rc fresh_state)(100 := 1)" "lkd ?u 100 = False"
    using u(3,4) tx_buf_simps by (simp_all add: NBUF_def)
  moreover have "nfree ?u + 1 = NBUF"
    using nfree_upd[OF inv, of 0 tx_buf] e tx_buf_simps(4) fresh_state_ready(3) by (simp add: NBUF_def)
  moreover have "(of_nat i :: u32) \<noteq> 97" if "i < LOGSIZE" for i
    using that arg_cong[of "of_nat i :: u32" 97 unat] of_nat_small[OF that] by (auto simp: LOGSIZE_def)
  then have "(100 :: u32) \<notin> log_area tx_log"
    using log_cap_le[of tx_log] by (fastforce simp: log_area_def log_blk_def tx_log_def)
  ultimately show ?thesis
    using fresh_state_ready(2)
    by (auto simp: commit_ready_def tx_state_def log_ok_def tx_log_def log_n_def log_home_def log_cap_def const_defs)
qed

lemma commit_crash:
  assumes "commit_ready p s" and "0 < log_n (klog s)" and "hdr_n (disk s (l_start (klog s))) = 0"
  shows "\<exists>t ws. commit s = Ok () t \<and> dwrites t = dwrites s @ ws \<and>
    (\<forall>k \<le> length ws. \<forall>q r sbk.
       in_proc q r \<and> disk r = apply_writes (take k ws) (disk s) \<and>
       length (lh_block (l_lh (klog r))) = LOGSIZE \<and> sb_logstart sbk = l_start (klog s) \<and> sint (sb_nlog sbk) = l_size (klog s) \<longrightarrow>
       (\<exists>u. reboot sbk r = Ok () u \<and> bc_ready q u \<and> lh_n (l_lh (klog u)) = 0 \<and>
          (\<forall>bn. bn \<notin> log_area (klog s) \<longrightarrow> view u bn = disk u bn \<and> disk u bn =
             (if log_n (klog s) < k \<and> bn \<in> log_homes (klog s) then view s bn else disk s bn))))"
proof -
  let ?l = "klog s" let ?ws = "commit_writes ?l (view s)"
  obtain t where t: "commit s = Ok () t" "dwrites t = dwrites s @ ?ws" using commit_Ok[OF assms(1,2)] by blast
  have ok: "log_ok ?l" and ci: "bc_inv s" using assms(1) by (auto simp: commit_ready_def bc_ready_def)
  have v: "length (view s bn) = BSIZE" "length (disk s bn) = BSIZE" for bn using ci by (simp_all add: bc_inv_def[of s])
  have "0 \<le> lh_n (l_lh ?l)" "lh_n (l_lh ?l) \<le> int LOGSIZE" using ok log_ok_lh_n[OF ok] by (simp_all add: log_ok_def)
  then have "length (snd w) = BSIZE" if "w \<in> set ?ws" for w
    using that by (auto simp: commit_writes_def log_writes_def home_copies_def log_header_def put_header_props v)
  then have len: "length (apply_writes (take k ?ws) (disk s) bn) = BSIZE" for k bn
    by (intro apply_writes_all[where P = "\<lambda>x. length x = BSIZE"]) (auto simp: v dest: in_set_takeD)
  have "\<exists>u. reboot sbk r = Ok () u \<and> bc_ready q u \<and> lh_n (l_lh (klog u)) = 0 \<and>
      (\<forall>bn. bn \<notin> log_area ?l \<longrightarrow> view u bn = disk u bn \<and> disk u bn =
         (if log_n ?l < k \<and> bn \<in> log_homes ?l then view s bn else disk s bn))"
    if "k \<le> length ?ws" "in_proc q r" "disk r = apply_writes (take k ?ws) (disk s)"
      "length (lh_block (l_lh (klog r))) = LOGSIZE" "sb_logstart sbk = l_start ?l" "sint (sb_nlog sbk) = l_size ?l" for k q r sbk
    using crash_reboot[where v = "view s" and d = "disk s", OF ok v(1) assms(3) _ that(2) _ that(4-6)] crash_disk_cases[OF ok that(1), of "disk s"]
      that(3) len by (cases "k \<le> log_n ?l") (force split: if_splits)+
  with t show ?thesis by blast
qed

section \<open>Properties\<close>

text \<open>
  C1. Atomic commit. A commit of a well-formed log returns. If power fails after any number \<open>k\<close> of
  the disk writes it issues, rebooting from the disk at that moment returns with an empty log, and
  outside the blocks of the log the file system is either exactly as it was on disk before the commit (when
  the header had not been written, \<open>k \<le> n\<close>) or has every block of the transaction (otherwise).
\<close>

theorem commit_crash_safe:
  assumes "commit_ready p s" and "0 < log_n (klog s)" and "hdr_n (disk s (l_start (klog s))) = 0"
  shows "\<exists>t ws. commit s = Ok () t \<and> dwrites t = dwrites s @ ws \<and>
    (\<forall>k \<le> length ws. \<forall>q r sbk.
       in_proc q r \<and> disk r = apply_writes (take k ws) (disk s) \<and>
       length (lh_block (l_lh (klog r))) = LOGSIZE \<and> sb_logstart sbk = l_start (klog s) \<and> sint (sb_nlog sbk) = l_size (klog s) \<longrightarrow>
       (\<exists>u. reboot sbk r = Ok () u \<and> bc_ready q u \<and> lh_n (l_lh (klog u)) = 0 \<and>
          (\<forall>bn. bn \<notin> log_area (klog s) \<longrightarrow> view u bn = disk u bn \<and> disk u bn =
             (if log_n (klog s) < k \<and> bn \<in> log_homes (klog s) then view s bn else disk s bn))))"
  using assms by (rule commit_crash)

theorem commit_crash_safe_witness:
  "\<exists>t ws. commit tx_state = Ok () t \<and> dwrites t = dwrites tx_state @ ws \<and>
    (\<forall>k \<le> length ws. \<forall>q r sbk.
       in_proc q r \<and> disk r = apply_writes (take k ws) (disk tx_state) \<and>
       length (lh_block (l_lh (klog r))) = LOGSIZE \<and> sb_logstart sbk = l_start (klog tx_state) \<and> sint (sb_nlog sbk) = l_size (klog tx_state) \<longrightarrow>
       (\<exists>u. reboot sbk r = Ok () u \<and> bc_ready q u \<and> lh_n (l_lh (klog u)) = 0 \<and>
          (\<forall>bn. bn \<notin> log_area (klog tx_state) \<longrightarrow> view u bn = disk u bn \<and> disk u bn =
             (if log_n (klog tx_state) < k \<and> bn \<in> log_homes (klog tx_state) then view tx_state bn else disk tx_state bn))))"
proof (rule commit_crash_safe[OF tx_state_ready])
  show "0 < log_n (klog tx_state)" by (simp add: tx_state_def tx_log_def log_n_def)
  have "hdr_n (replicate BSIZE 0) = 0"
    by (simp add: hdr_n_def get32_def get_bytes_def of_le32_def BSIZE_def eval_nat_numeral)
  then show "hdr_n (disk tx_state (l_start (klog tx_state))) = 0"
    by (simp add: tx_state_def fresh_state_ready)
qed

end
