(* ===== verification/Memory.thy ===== *)
theory Memory
  imports Prelude
begin

text \<open>
  Byte-addressed memory: address intervals without wrap-around, reading and writing byte
  sequences, and 64-bit little-endian loads and stores with their get and put laws. The page
  allocator, the page tables and the copies between user and kernel space build on it.
\<close>

type_synonym memory = "u64 \<Rightarrow> byte"

section \<open>Intervals\<close>

text \<open>The \<open>n\<close> bytes from \<open>a\<close> on; \<open>fits a n\<close> says that they do not wrap around.\<close>

definition fits :: "u64 \<Rightarrow> nat \<Rightarrow> bool" where
  "fits a n \<longleftrightarrow> unat a + n \<le> 2 ^ 64"

definition within :: "u64 \<Rightarrow> nat \<Rightarrow> u64 \<Rightarrow> bool" where
  "within a n x \<longleftrightarrow> unat a \<le> unat x \<and> unat x < unat a + n"

lemma within_0 [simp]: "\<not> within a 0 x"
  by (simp add: within_def)

lemma unat_lt64: "unat (x :: u64) < 2 ^ 64"
  using unsigned_less[of x] by simp

lemma unat_plus_of_nat: "fits a n \<Longrightarrow> i < n \<Longrightarrow> unat (a + of_nat i) = unat a + i"
  by (simp add: fits_def unat_plus_if' unsigned_of_nat take_bit_nat_eq_self)

lemma within_offset: "fits a n \<Longrightarrow> i < n \<Longrightarrow> within a n (a + of_nat i)"
  by (simp add: within_def unat_plus_of_nat)

lemma within_imp: "within a n x \<Longrightarrow> \<exists>i < n. x = a + of_nat i"
proof -
  assume w: "within a n x"
  then have "x = a + of_nat (unat x - unat a)"
    by (simp add: within_def of_nat_diff)
  with w show ?thesis by (intro exI[of _ "unat x - unat a"]) (auto simp: within_def)
qed

lemma within_iff: "fits a n \<Longrightarrow> within a n x \<longleftrightarrow> (\<exists>i < n. x = a + of_nat i)"
  using within_imp within_offset by blast

lemma offset_inj: "fits a n \<Longrightarrow> i < n \<Longrightarrow> j < n \<Longrightarrow> a + of_nat i = a + of_nat j \<longleftrightarrow> i = j"
  by (metis unat_plus_of_nat add_left_cancel)

lemma fits_le: "fits a n \<Longrightarrow> m \<le> n \<Longrightarrow> fits a m"
  by (simp add: fits_def)

section \<open>Sequences of bytes\<close>

definition read_bytes :: "memory \<Rightarrow> u64 \<Rightarrow> nat \<Rightarrow> byte list" where
  "read_bytes m a n = map (\<lambda>i. m (a + of_nat i)) [0..<n]"

fun write_bytes :: "memory \<Rightarrow> u64 \<Rightarrow> byte list \<Rightarrow> memory" where
  "write_bytes m a [] = m"
| "write_bytes m a (b # bs) = write_bytes (m(a := b)) (a + 1) bs"

lemma read_bytes_0 [simp]: "read_bytes m a 0 = []"
  by (simp add: read_bytes_def)

lemma length_read_bytes [simp]: "length (read_bytes m a n) = n"
  by (simp add: read_bytes_def)

lemma nth_read_bytes [simp]: "i < n \<Longrightarrow> read_bytes m a n ! i = m (a + of_nat i)"
  by (simp add: read_bytes_def)

lemma write_bytes_snoc:
  "write_bytes m a (bs @ [b]) = (write_bytes m a bs)(a + of_nat (length bs) := b)"
  by (induction bs arbitrary: a m) (simp_all add: add.assoc add.commute)

lemma write_bytes_other: "fits a (length bs) \<Longrightarrow> \<not> within a (length bs) x \<Longrightarrow> write_bytes m a bs x = m x"
proof (induction bs rule: rev_induct)
  case (snoc b bs)
  have "fits a (length bs)" using snoc.prems(1) by (rule fits_le) simp
  moreover have "\<not> within a (length bs) x" using snoc.prems(2) by (auto simp: within_def)
  moreover have "x \<noteq> a + of_nat (length bs)"
    using snoc.prems within_offset[of a "length (bs @ [b])" "length bs"] by auto
  ultimately show ?case using snoc.IH by (simp add: write_bytes_snoc)
qed simp

lemma write_bytes_nth:
  "fits a (length bs) \<Longrightarrow> i < length bs \<Longrightarrow> write_bytes m a bs (a + of_nat i) = bs ! i"
proof (induction bs rule: rev_induct)
  case (snoc b bs)
  have "fits a (length bs)" using snoc.prems(1) by (rule fits_le) simp
  then show ?case
    using snoc offset_inj[OF snoc.prems(1), of i "length bs"]
    by (cases "i = length bs") (auto simp: write_bytes_snoc nth_append)
qed simp

lemma read_write_same: "fits a (length bs) \<Longrightarrow> read_bytes (write_bytes m a bs) a (length bs) = bs"
  by (rule nth_equalityI) (simp_all add: write_bytes_nth)

definition apart :: "u64 \<Rightarrow> nat \<Rightarrow> u64 \<Rightarrow> nat \<Rightarrow> bool" where
  "apart a n b k \<longleftrightarrow> unat a + n \<le> unat b \<or> unat b + k \<le> unat a"

lemma apart_not_within: "apart a n b k \<Longrightarrow> within b k x \<Longrightarrow> \<not> within a n x"
  by (auto simp: apart_def within_def)

lemma read_bytes_cong:
  "fits a n \<Longrightarrow> (\<And>x. within a n x \<Longrightarrow> m x = m' x) \<Longrightarrow> read_bytes m a n = read_bytes m' a n"
  by (rule nth_equalityI) (simp_all add: within_offset)

lemma read_write_apart:
  "fits a n \<Longrightarrow> fits b (length bs) \<Longrightarrow> apart b (length bs) a n \<Longrightarrow>
   read_bytes (write_bytes m b bs) a n = read_bytes m a n"
  by (rule read_bytes_cong) (auto intro!: write_bytes_other simp: apart_not_within)

section \<open>64-bit loads and stores\<close>

definition le64 :: "u64 \<Rightarrow> byte list" where
  "le64 w = map (\<lambda>i. ucast (drop_bit (8 * i) w)) [0..<8]"

definition of_le64 :: "byte list \<Rightarrow> u64" where
  "of_le64 bs = horner_sum ucast (2 ^ 8) bs"

definition ld64 :: "memory \<Rightarrow> u64 \<Rightarrow> u64" where
  "ld64 m a = of_le64 (read_bytes m a 8)"

definition st64 :: "u64 \<Rightarrow> u64 \<Rightarrow> memory \<Rightarrow> memory" where
  "st64 a w m = write_bytes m a (le64 w)"

lemma length_le64 [simp]: "length (le64 w) = 8"
  by (simp add: le64_def)

text \<open>Splitting off the low byte, eight times.\<close>

lemma split_low_byte: "ucast (ucast w :: byte) + 2 ^ 8 * drop_bit 8 w = (w :: u64)"
proof -
  have "(ucast (ucast w :: byte) :: u64) = take_bit 8 w"
    by (rule bit_eqI) (simp add: bit_simps)
  moreover have "take_bit 8 w + push_bit 8 (drop_bit 8 w) = w" by (metis bits_ident add.commute)
  ultimately show ?thesis by (simp add: push_bit_eq_mult mult.commute)
qed

lemma of_le64_le64 [simp]: "of_le64 (le64 w) = w"
proof -
  have l: "le64 w = [ucast w, ucast (drop_bit 8 w), ucast (drop_bit 16 w), ucast (drop_bit 24 w),
      ucast (drop_bit 32 w), ucast (drop_bit 40 w), ucast (drop_bit 48 w), ucast (drop_bit 56 w)]"
    by (simp add: le64_def upt_rec)
  have d: "drop_bit 64 w = 0" by (rule bit_eqI) (simp add: bit_simps)
  have s: "ucast (ucast (drop_bit n w) :: byte) + 2 ^ 8 * drop_bit (n + 8) w = drop_bit n w" for n
    using split_low_byte[of "drop_bit n w"] by (simp add: add.commute)
  show ?thesis
    unfolding of_le64_def l
    using s[of 0] s[of 8] s[of 16] s[of 24] s[of 32] s[of 40] s[of 48] s[of 56] d
    by (simp add: horner_sum_simps)
qed

lemma ld64_st64 [simp]: "fits a 8 \<Longrightarrow> ld64 (st64 a w m) a = w"
  using read_write_same[of a "le64 w" m] by (simp add: ld64_def st64_def)

lemma ld64_cong: "fits a 8 \<Longrightarrow> (\<And>x. within a 8 x \<Longrightarrow> m x = m' x) \<Longrightarrow> ld64 m a = ld64 m' a"
  unfolding ld64_def by (metis read_bytes_cong)

lemma st64_other: "fits a 8 \<Longrightarrow> \<not> within a 8 x \<Longrightarrow> st64 a w m x = m x"
  by (simp add: st64_def write_bytes_other)

lemma ld64_st64_apart: "fits a 8 \<Longrightarrow> fits b 8 \<Longrightarrow> apart b 8 a 8 \<Longrightarrow> ld64 (st64 b w m) a = ld64 m a"
  by (rule ld64_cong) (auto intro!: st64_other simp: apart_not_within)

end
