(* ===== verification/CString.thy ===== *)
theory CString
  imports Memory
begin

text \<open>
  The C library routines of the kernel (\<open>string.c\<close>) as functions on memory, and what each computes
  in terms of the byte sequences at its arguments. The list functions (suffix \<open>_l\<close>) are the
  specification; the rest of the model applies them to arrays that are fields of records.
\<close>

section \<open>The routines\<close>

fun memset_from :: "nat \<Rightarrow> nat \<Rightarrow> u64 \<Rightarrow> byte \<Rightarrow> memory \<Rightarrow> memory" where
  "memset_from 0 i cdst c m = m"
| "memset_from (Suc n) i cdst c m = memset_from n (i + 1) cdst c (m(cdst + of_nat i := c))"

definition memset :: "u64 \<Rightarrow> byte \<Rightarrow> nat \<Rightarrow> memory \<Rightarrow> memory" where
  "memset dst c n m = memset_from n 0 dst c m"

fun memcmp :: "memory \<Rightarrow> u64 \<Rightarrow> u64 \<Rightarrow> nat \<Rightarrow> int" where
  "memcmp m s1 s2 0 = 0"
| "memcmp m s1 s2 (Suc n) =
     (if m s1 \<noteq> m s2 then uint (m s1) - uint (m s2) else memcmp m (s1 + 1) (s2 + 1) n)"

fun copy_fwd :: "nat \<Rightarrow> u64 \<Rightarrow> u64 \<Rightarrow> memory \<Rightarrow> memory" where
  "copy_fwd 0 d s m = m"
| "copy_fwd (Suc n) d s m = copy_fwd n (d + 1) (s + 1) (m(d := m s))"

fun copy_bwd :: "nat \<Rightarrow> u64 \<Rightarrow> u64 \<Rightarrow> memory \<Rightarrow> memory" where
  "copy_bwd 0 d s m = m"
| "copy_bwd (Suc n) d s m = copy_bwd n (d - 1) (s - 1) (m(d - 1 := m (s - 1)))"

definition memmove :: "u64 \<Rightarrow> u64 \<Rightarrow> nat \<Rightarrow> memory \<Rightarrow> memory" where
  "memmove dst src n m =
     (if n = 0 then m
      else if src < dst \<and> src + of_nat n > dst then copy_bwd n (dst + of_nat n) (src + of_nat n) m
      else copy_fwd n dst src m)"

definition memcpy :: "u64 \<Rightarrow> u64 \<Rightarrow> nat \<Rightarrow> memory \<Rightarrow> memory" where
  "memcpy dst src n m = memmove dst src n m"

fun strncmp :: "memory \<Rightarrow> u64 \<Rightarrow> u64 \<Rightarrow> nat \<Rightarrow> int" where
  "strncmp m p q 0 = 0"
| "strncmp m p q (Suc n) =
     (if m p \<noteq> 0 \<and> m p = m q then strncmp m (p + 1) (q + 1) n else uint (m p) - uint (m q))"

text \<open>The first loop of \<open>strncpy\<close> returns \<open>n\<close> and \<open>s\<close> as the second loop finds them.\<close>

function strncpy_copy :: "int \<Rightarrow> u64 \<Rightarrow> u64 \<Rightarrow> memory \<Rightarrow> int \<times> u64 \<times> memory" where
  "strncpy_copy n s t m =
     (if n > 0 then
        let m' = m(s := m t) in
        if m t \<noteq> 0 then strncpy_copy (n - 1) (s + 1) (t + 1) m' else (n - 1, s + 1, m')
      else (n - 1, s, m))"
  by pat_completeness auto
termination by (relation "measure (\<lambda>(n, _). nat n)") auto

function zero_fill :: "int \<Rightarrow> u64 \<Rightarrow> memory \<Rightarrow> memory" where
  "zero_fill n s m = (if n > 0 then zero_fill (n - 1) (s + 1) (m(s := 0)) else m)"
  by pat_completeness auto
termination by (relation "measure (\<lambda>(n, _). nat n)") auto

declare strncpy_copy.simps [simp del] zero_fill.simps [simp del]

definition strncpy :: "u64 \<Rightarrow> u64 \<Rightarrow> int \<Rightarrow> memory \<Rightarrow> memory" where
  "strncpy s t n m = (case strncpy_copy n s t m of (n', s', m') \<Rightarrow> zero_fill n' s' m')"

function safestrcpy_copy :: "int \<Rightarrow> u64 \<Rightarrow> u64 \<Rightarrow> memory \<Rightarrow> u64 \<times> memory" where
  "safestrcpy_copy n s t m =
     (if n - 1 > 0 then
        let m' = m(s := m t) in
        if m t \<noteq> 0 then safestrcpy_copy (n - 1) (s + 1) (t + 1) m' else (s + 1, m')
      else (s, m))"
  by pat_completeness auto
termination by (relation "measure (\<lambda>(n, _). nat n)") auto

declare safestrcpy_copy.simps [simp del]

definition safestrcpy :: "u64 \<Rightarrow> u64 \<Rightarrow> int \<Rightarrow> memory \<Rightarrow> memory" where
  "safestrcpy s t n m =
     (if n \<le> 0 then m else let r = safestrcpy_copy n s t m in (snd r)(fst r := 0))"

partial_function (option) strlen_from :: "memory \<Rightarrow> u64 \<Rightarrow> nat \<Rightarrow> nat option" where
  "strlen_from m s n = (if m (s + of_nat n) \<noteq> 0 then strlen_from m s (n + 1) else Some n)"

definition strlen :: "memory \<Rightarrow> u64 \<Rightarrow> nat option" where
  "strlen m s = strlen_from m s 0"

section \<open>Specifications on byte sequences\<close>

definition cstr :: "byte list \<Rightarrow> byte list" where
  "cstr bs = takeWhile (\<lambda>c. c \<noteq> 0) bs"

fun strncmp_l :: "byte list \<Rightarrow> byte list \<Rightarrow> int" where
  "strncmp_l (a # as) (b # bs) = (if a \<noteq> 0 \<and> a = b then strncmp_l as bs else uint a - uint b)"
| "strncmp_l _ _ = 0"

definition strncpy_l :: "byte list \<Rightarrow> byte list" where
  "strncpy_l bs = take (length bs) (cstr bs @ replicate (length bs) 0)"

text \<open>What \<open>safestrcpy(s, t, n)\<close> stores, from the \<open>n - 1\<close> bytes at \<open>t\<close>.\<close>

definition safestrcpy_l :: "byte list \<Rightarrow> byte list" where
  "safestrcpy_l bs = cstr bs @ (if length (cstr bs) < length bs then [0, 0] else [0])"

lemma cstr_simps [simp]: "cstr [] = []" "cstr (0 # bs) = []" "c \<noteq> 0 \<Longrightarrow> cstr (c # bs) = c # cstr bs"
  by (simp_all add: cstr_def)

lemma length_cstr: "length (cstr bs) \<le> length bs"
  by (simp add: cstr_def length_takeWhile_le)

lemma length_strncpy_l [simp]: "length (strncpy_l bs) = length bs"
  by (simp add: strncpy_l_def)

lemma strncpy_l_Cons: "c \<noteq> 0 \<Longrightarrow> strncpy_l (c # bs) = c # strncpy_l bs"
  using length_cstr[of bs] by (simp add: strncpy_l_def flip: replicate_Suc)

lemma strncpy_l_0: "strncpy_l (0 # bs) = replicate (Suc (length bs)) 0"
  by (simp add: strncpy_l_def)

lemma cstr_strncpy_l: "cstr (strncpy_l bs) = cstr bs"
proof (induction bs)
  case (Cons c bs)
  then show ?case by (cases "c = 0") (simp_all add: strncpy_l_Cons strncpy_l_0)
qed (simp add: strncpy_l_def)

lemma read_bytes_Suc: "read_bytes m a (Suc n) = m a # read_bytes m (a + 1) n"
  by (simp add: read_bytes_def upt_conv_Cons ac_simps comp_def del: upt_Suc flip: map_Suc_upt)

section \<open>What the routines compute\<close>

lemma memset_from_write: "memset_from n i a c m = write_bytes m (a + of_nat i) (replicate n c)"
  by (induction n arbitrary: i m) (simp_all add: ac_simps)

lemma memset_write: "memset a c n m = write_bytes m a (replicate n c)"
  by (simp add: memset_def memset_from_write)

lemma memset_at: "fits a n \<Longrightarrow> memset a c n m x = (if within a n x then c else m x)"
  using within_imp[of a n x] write_bytes_nth[of a "replicate n c"] write_bytes_other[of a "replicate n c" x m]
  by (auto simp: memset_write)

lemma copy_fwd_at:
  assumes "fits d n" and "fits s n" and "unat d \<le> unat s \<or> unat s + n \<le> unat d"
  shows "copy_fwd n d s m a = (if within d n a then m (s + (a - d)) else m a)"
  using assms
proof (induction n arbitrary: d s m)
  case (Suc n)
  show ?case
  proof (cases "n = 0")
    case True
    have "within d (Suc 0) a \<longleftrightarrow> a = d" by (auto simp: within_def word_unat_eq_iff)
    with True show ?thesis by simp
  next
    case False
    have 1: "unat (d + 1) = unat d + 1" "unat (s + 1) = unat s + 1"
      using Suc.prems False by (auto simp: fits_def unat_plus_if')
    have f: "fits (d + 1) n" "fits (s + 1) n" using Suc.prems 1 by (auto simp: fits_def)
    have c: "unat (d + 1) \<le> unat (s + 1) \<or> unat (s + 1) + n \<le> unat (d + 1)" using Suc.prems 1 by auto
    have w: "within d (Suc n) a \<longleftrightarrow> a = d \<or> within (d + 1) n a"
      using 1 by (auto simp: within_def word_unat_eq_iff)
    have nd: "s + (a - d) \<noteq> d" if w1: "within (d + 1) n a"
    proof -
      have "unat (a - d) = unat a - unat d" using w1 1 by (auto simp: within_def unat_sub_if')
      moreover have "unat s + (unat a - unat d) < 2 ^ 64" using w1 1 Suc.prems(2) by (auto simp: within_def fits_def)
      ultimately have "unat (s + (a - d)) = unat s + (unat a - unat d)" by (simp add: unat_plus_if')
      then show ?thesis using w1 1 Suc.prems(3) by (auto simp: within_def word_unat_eq_iff)
    qed
    have "\<not> within (d + 1) n d" using 1 by (simp add: within_def)
    then show ?thesis using Suc.IH[OF f c, of "m(d := m s)"] w nd by (auto simp: algebra_simps fun_upd_def)
  qed
qed simp

lemma copy_bwd_at:
  assumes "fits d n" and "fits s n" and "unat s \<le> unat d"
  shows "copy_bwd n (d + of_nat n) (s + of_nat n) m a = (if within d n a then m (s + (a - d)) else m a)"
  using assms
proof (induction n arbitrary: m)
  case (Suc n)
  let ?e = "d + of_nat n" let ?m = "m(?e := m (s + of_nat n))"
  have f: "fits d n" "fits s n" using Suc.prems by (auto intro: fits_le)
  have e: "unat ?e = unat d + n" using Suc.prems(1) by (simp add: unat_plus_of_nat)
  have w: "within d (Suc n) a \<longleftrightarrow> a = ?e \<or> within d n a"
    using e by (auto simp: within_def word_unat_eq_iff)
  have ne: "s + (a - d) \<noteq> ?e" if w1: "within d n a"
  proof -
    have "unat (a - d) = unat a - unat d" using w1 by (auto simp: within_def unat_sub_if')
    moreover have "unat s + (unat a - unat d) < 2 ^ 64" using w1 Suc.prems(2) by (auto simp: within_def fits_def)
    ultimately have "unat (s + (a - d)) = unat s + (unat a - unat d)" by (simp add: unat_plus_if')
    then show ?thesis using w1 Suc.prems(3) e by (auto simp: within_def word_unat_eq_iff)
  qed
  have "\<not> within d n ?e" using e by (simp add: within_def)
  moreover have "copy_bwd (Suc n) (d + of_nat (Suc n)) (s + of_nat (Suc n)) m = copy_bwd n ?e (s + of_nat n) ?m"
    by (simp add: algebra_simps)
  ultimately show ?case using Suc.IH[OF f Suc.prems(3), of ?m] w ne by (auto simp: fun_upd_def)
qed simp

lemma memmove_at:
  assumes "fits d n" and "fits s n"
  shows "memmove d s n m a = (if within d n a then m (s + (a - d)) else m a)"
proof (cases "n = 0 \<or> unat s + n = 2 ^ 64")
  case True
  show ?thesis
  proof (cases "n = 0")
    case False
    have "s + of_nat n = of_nat (unat s + n)" by simp
    also have "\<dots> = of_nat (2 ^ 64)" using True False by simp
    finally have "s + of_nat n = 0" by simp
    then have c: "memmove d s n m = copy_fwd n d s m" using False by (simp add: memmove_def)
    have "unat d \<le> unat s" using True False assms(1) by (simp add: fits_def)
    with c copy_fwd_at[OF assms] show ?thesis by simp
  qed (simp add: memmove_def)
next
  case False
  then have n: "n < 2 ^ 64" "unat s + n < 2 ^ 64" using assms(2) by (auto simp: fits_def)
  then have e: "unat (s + of_nat n) = unat s + n"
    by (simp add: unat_plus_if' unsigned_of_nat take_bit_nat_eq_self)
  show ?thesis
    using copy_fwd_at[OF assms] copy_bwd_at[OF assms] False e
    by (auto simp: memmove_def word_less_nat_alt not_less)
qed

lemma memmove_read:
  assumes "fits d n" and "fits s n"
  shows "read_bytes (memmove d s n m) d n = read_bytes m s n"
  by (rule nth_equalityI) (simp_all add: memmove_at[OF assms] within_offset[OF assms(1)])

lemma memcmp_eq: "memcmp m p q n = 0 \<longleftrightarrow> read_bytes m p n = read_bytes m q n"
proof (induction n arbitrary: p q)
  case (Suc n)
  then show ?case unfolding read_bytes_Suc by (simp add: word_uint_eq_iff)
qed (simp add: read_bytes_def)

lemma strncmp_list: "strncmp m p q n = strncmp_l (read_bytes m p n) (read_bytes m q n)"
proof (induction n arbitrary: p q)
  case (Suc n)
  then show ?case unfolding read_bytes_Suc by simp
qed (simp add: read_bytes_def)

lemma strncmp_l_eq: "length as = length bs \<Longrightarrow> strncmp_l as bs = 0 \<longleftrightarrow> cstr as = cstr bs"
proof (induction as bs rule: strncmp_l.induct)
  case (1 a as b bs)
  have "uint x = 0 \<longleftrightarrow> x = 0" "uint x = uint y \<longleftrightarrow> x = y" for x y :: byte by (simp_all add: word_uint_eq_iff)
  with 1 show ?case by (cases "a = 0"; cases "b = 0") auto
qed auto

lemma zero_fill_write: "zero_fill (int k) s m = write_bytes m s (replicate k 0)"
  by (induction k arbitrary: s m) (simp_all add: zero_fill.simps)

lemma read_bytes_upd: "fits t k \<Longrightarrow> \<not> within t k s \<Longrightarrow> read_bytes (m(s := c)) t k = read_bytes m t k"
  by (rule read_bytes_cong) auto

text \<open>One byte further in two disjoint intervals.\<close>

lemma apart_step:
  assumes "fits s (Suc k)" and "fits t (Suc k)" and "apart s (Suc k) t (Suc k)" and "0 < k"
  shows "fits (s + 1) k" and "fits (t + 1) k" and "apart (s + 1) k (t + 1) k" and "\<not> within (t + 1) k s"
proof -
  have "unat (s + 1) = unat s + 1" "unat (t + 1) = unat t + 1"
    using assms by (auto simp: fits_def unat_plus_if')
  then show "fits (s + 1) k" and "fits (t + 1) k" and "apart (s + 1) k (t + 1) k" and "\<not> within (t + 1) k s"
    using assms by (auto simp: fits_def apart_def within_def)
qed

lemma strncpy_write:
  assumes "fits s k" and "fits t k" and "apart s k t k"
  shows "strncpy s t (int k) m = write_bytes m s (strncpy_l (read_bytes m t k))"
  using assms
proof (induction k arbitrary: s t m)
  case 0
  show ?case by (simp add: strncpy_def strncpy_copy.simps zero_fill.simps read_bytes_def strncpy_l_def)
next
  case (Suc k)
  show ?case
  proof (cases "m t = 0")
    case True
    then show ?thesis
      using zero_fill_write[of k "s + 1"]
      by (simp add: strncpy_def strncpy_copy.simps Let_def read_bytes_Suc strncpy_l_0)
  next
    case False
    have r: "read_bytes (m(s := m t)) (t + 1) k = read_bytes m (t + 1) k"
      using apart_step[OF Suc.prems] by (cases "k = 0") (auto simp: read_bytes_upd)
    have "strncpy s t (int (Suc k)) m = strncpy (s + 1) (t + 1) (int k) (m(s := m t))"
      using False by (simp add: strncpy_def strncpy_copy.simps[of "1 + int k"] Let_def)
    also have "\<dots> = write_bytes (m(s := m t)) (s + 1) (strncpy_l (read_bytes m (t + 1) k))"
    proof (cases "k = 0")
      case True
      then show ?thesis
        by (simp add: strncpy_def strncpy_copy.simps zero_fill.simps read_bytes_def strncpy_l_def)
    next
      case False
      then show ?thesis using Suc.IH[OF apart_step(1-3)[OF Suc.prems]] r by simp
    qed
    finally show ?thesis using False by (simp add: read_bytes_Suc strncpy_l_Cons)
  qed
qed

lemma safestrcpy_copy_write:
  assumes "fits s (Suc k)" and "fits t (Suc k)" and "apart s (Suc k) t (Suc k)"
  shows "(let r = safestrcpy_copy (int (Suc k)) s t m in (snd r)(fst r := 0))
    = write_bytes m s (safestrcpy_l (read_bytes m t k))"
  using assms
proof (induction k arbitrary: s t m)
  case 0
  show ?case by (auto simp: safestrcpy_copy.simps safestrcpy_l_def read_bytes_def Let_def fun_eq_iff)
next
  case (Suc k)
  note a = apart_step[OF Suc.prems zero_less_Suc]
  have r: "read_bytes (m(s := m t)) (t + 1) k = read_bytes m (t + 1) k"
    using a(2,4) by (intro read_bytes_upd) (auto simp: within_def intro: fits_le)
  show ?case
  proof (cases "m t = 0")
    case True
    then show ?thesis
      by (auto simp: safestrcpy_copy.simps[of "2 + int k"] Let_def read_bytes_Suc safestrcpy_l_def fun_eq_iff)
  next
    case False
    have "(let r = safestrcpy_copy (int (Suc (Suc k))) s t m in (snd r)(fst r := 0))
        = (let r = safestrcpy_copy (int (Suc k)) (s + 1) (t + 1) (m(s := m t)) in (snd r)(fst r := 0))"
      using False by (simp add: safestrcpy_copy.simps[of "2 + int k"] Let_def)
    also have "\<dots> = write_bytes (m(s := m t)) (s + 1) (safestrcpy_l (read_bytes m (t + 1) k))"
      by (rule Suc.IH[OF a(1-3), of "m(s := m t)", unfolded r])
    also have "\<dots> = write_bytes m s (safestrcpy_l (m t # read_bytes m (t + 1) k))"
      using False by (simp add: safestrcpy_l_def)
    finally show ?thesis by (simp only: read_bytes_Suc)
  qed
qed

lemma safestrcpy_write:
  assumes "0 < n" and "fits s (nat n)" and "fits t (nat n)" and "apart s (nat n) t (nat n)"
  shows "safestrcpy s t n m = write_bytes m s (safestrcpy_l (read_bytes m t (nat n - 1)))"
  using safestrcpy_copy_write[of s "nat n - 1" t m] assms by (simp add: safestrcpy_def Let_def)

lemma length_safestrcpy_l: "length (safestrcpy_l bs) \<le> Suc (length bs)"
  using length_cstr[of bs] by (auto simp: safestrcpy_l_def)

lemma cstr_append_0: "cstr (cstr bs @ 0 # ys) = cstr bs"
  by (induction bs) (auto simp: cstr_def)

lemma cstr_safestrcpy_l: "cstr (safestrcpy_l bs) = cstr bs" and safestrcpy_l_nul: "0 \<in> set (safestrcpy_l bs)"
  using cstr_append_0[of bs "[0]"] cstr_append_0[of bs "[]"] by (auto simp: safestrcpy_l_def)

lemma strlen_from_nul:
  assumes "m (s + of_nat (n + k)) = 0" and "\<forall>i < k. m (s + of_nat (n + i)) \<noteq> 0"
  shows "strlen_from m s n = Some (n + k)"
  using assms
proof (induction k arbitrary: n)
  case (Suc k)
  have "m (s + of_nat n) \<noteq> 0" using Suc.prems(2) by (metis add_0_right zero_less_Suc)
  moreover have "strlen_from m s (n + 1) = Some (n + 1 + k)"
    using Suc.prems by (intro Suc.IH) (simp, metis Suc_eq_plus1 Suc_mono add_Suc_shift)
  ultimately show ?case by (subst strlen_from.simps) simp
qed (subst strlen_from.simps, simp)

lemma strlen_from_Some:
  assumes "strlen_from m s n = Some k"
  shows "n \<le> k \<and> m (s + of_nat k) = 0 \<and> (\<forall>i. n \<le> i \<and> i < k \<longrightarrow> m (s + of_nat i) \<noteq> 0)"
proof (rule strlen_from.raw_induct[OF _ assms])
  fix f and m :: memory and s n k
  assume IH: "\<And>m s n k. f m s n = Some k \<Longrightarrow>
      n \<le> k \<and> m (s + of_nat k) = 0 \<and> (\<forall>i. n \<le> i \<and> i < k \<longrightarrow> m (s + of_nat i) \<noteq> 0)"
    and e: "(if m (s + of_nat n) \<noteq> 0 then f m s (n + 1) else Some n) = Some k"
  show "n \<le> k \<and> m (s + of_nat k) = 0 \<and> (\<forall>i. n \<le> i \<and> i < k \<longrightarrow> m (s + of_nat i) \<noteq> 0)"
  proof (cases "m (s + of_nat n) = 0")
    case True
    with e show ?thesis by auto
  next
    case False
    with e IH[of m s "n + 1" k] have "n + 1 \<le> k \<and> m (s + of_nat k) = 0 \<and>
        (\<forall>i. n + 1 \<le> i \<and> i < k \<longrightarrow> m (s + of_nat i) \<noteq> 0)" by simp
    with False show ?thesis by (metis Suc_eq_plus1 Suc_leD Suc_leI nat_less_le)
  qed
qed

section \<open>Properties\<close>

text \<open>
  C27: \<open>memmove\<close> copies correctly for all pairs of address ranges, overlapping or not: afterwards the
  destination holds the bytes the source held before, and no byte outside the destination has changed.
\<close>

theorem memmove_copies:
  assumes "fits d n" and "fits s n"
  shows "read_bytes (memmove d s n m) d n = read_bytes m s n \<and> (\<forall>a. \<not> within d n a \<longrightarrow> memmove d s n m a = m a)"
  using memmove_read[OF assms] memmove_at[OF assms] by simp

lemma memmove_copies_witness:
  "read_bytes (memmove 0x1002 0x1000 4 ucast) 0x1002 4 = [0, 1, 2, 3]"
proof -
  have "fits 0x1002 4" "fits 0x1000 4" by (simp_all add: fits_def)
  from memmove_copies[OF this, of ucast] show ?thesis by (simp add: read_bytes_def upt_conv_Cons)
qed

text \<open>
  C28: \<open>safestrcpy\<close> never writes outside its \<open>n\<close> destination bytes and always terminates the string: the
  destination holds the source string cut to \<open>n - 1\<close> bytes, followed by a zero byte within the \<open>n\<close> bytes.
\<close>

theorem safestrcpy_bounded:
  assumes n: "0 < n" and f: "fits s (nat n)" "fits t (nat n)" "apart s (nat n) t (nat n)"
  shows "\<exists>k < nat n. safestrcpy s t n m (s + of_nat k) = 0 \<and>
      read_bytes (safestrcpy s t n m) s k = cstr (read_bytes m t (nat n - 1)) \<and>
      (\<forall>a. \<not> within s (nat n) a \<longrightarrow> safestrcpy s t n m a = m a)"
proof -
  let ?bs = "read_bytes m t (nat n - 1)" let ?c = "cstr ?bs" let ?w = "safestrcpy_l ?bs"
  have l: "length ?w \<le> nat n" using length_safestrcpy_l[of ?bs] n by simp
  have fw: "fits s (length ?w)" using fits_le[OF f(1) l] .
  have "?w = ?c @ 0 # (if length ?c < length ?bs then [0] else [])" by (simp add: safestrcpy_l_def)
  then obtain z where w: "?w = ?c @ 0 # z" by blast
  have nth: "safestrcpy s t n m (s + of_nat i) = ?w ! i" if "i < length ?w" for i
    using that safestrcpy_write[OF n f] write_bytes_nth[OF fw that, of m] by simp
  have out: "safestrcpy s t n m a = m a" if "\<not> within s (nat n) a" for a
    using that safestrcpy_write[OF n f] write_bytes_other[OF fw, of a m] l by (auto simp: within_def)
  have lt: "length ?c < length ?w" using w by simp
  have "read_bytes (safestrcpy s t n m) s (length ?c) = ?c"
    using nth lt w by (intro nth_equalityI) (simp_all add: nth_append)
  moreover have "safestrcpy s t n m (s + of_nat (length ?c)) = 0" using nth[OF lt] w by (simp add: nth_append)
  ultimately show ?thesis using out lt l by (intro exI[of _ "length ?c"]) simp
qed

lemma safestrcpy_bounded_witness:
  "\<exists>k < 3. safestrcpy 0x1000 0x2000 3 (\<lambda>a. 65) (0x1000 + of_nat k) = 0 \<and>
      read_bytes (safestrcpy 0x1000 0x2000 3 (\<lambda>a. 65)) 0x1000 k = [65, 65]"
proof -
  have "fits 0x1000 (nat 3)" "fits 0x2000 (nat 3)" "apart 0x1000 (nat 3) 0x2000 (nat 3)"
    by (simp_all add: fits_def apart_def)
  from safestrcpy_bounded[OF _ this, of "\<lambda>a. 65"] show ?thesis
    by (auto simp: read_bytes_def cstr_def upt_conv_Cons)
qed

end
