(* ===== verification/Kalloc.thy ===== *)
theory Kalloc
  imports Kstate CString
begin

text \<open>
  The physical page allocator (\<open>kalloc.c\<close>). Free pages form a linked list through their own first
  eight bytes. The invariant relates that list in memory to the sequence of free pages.
\<close>

section \<open>Operations\<close>

definition KERNBASE :: u64 where "KERNBASE = 0x80000000"
definition PHYSTOP :: u64 where "PHYSTOP = 0x88000000"

definition PGROUNDUP :: "u64 \<Rightarrow> u64" where
  "PGROUNDUP sz = (sz + PGSIZE - 1) AND NOT (PGSIZE - 1)"

definition PGROUNDDOWN :: "u64 \<Rightarrow> u64" where
  "PGROUNDDOWN a = a AND NOT (PGSIZE - 1)"

definition kfree :: "u64 \<Rightarrow> unit K" where
  "kfree pa =
     mbind (gets kend) (\<lambda>ke.
     if pa mod PGSIZE \<noteq> 0 \<or> pa < ke \<or> pa \<ge> PHYSTOP then panic ''kfree'' else
     mbind (modify (\<lambda>s. s\<lparr>mem := memset pa 1 4096 (mem s)\<rparr>)) (\<lambda>_.
     mbind (acquire L_kmem) (\<lambda>_.
     mbind (modify (\<lambda>s. s\<lparr>mem := st64 pa (freelist s) (mem s)\<rparr>)) (\<lambda>_.
     mbind (modify (\<lambda>s. s\<lparr>freelist := pa\<rparr>)) (\<lambda>_.
     release L_kmem)))))"

definition kalloc :: "u64 K" where
  "kalloc =
     mbind (acquire L_kmem) (\<lambda>_.
     mbind (gets freelist) (\<lambda>r.
     mbind (if r \<noteq> 0 then modify (\<lambda>s. s\<lparr>freelist := ld64 (mem s) r\<rparr>) else ret ()) (\<lambda>_.
     mbind (release L_kmem) (\<lambda>_.
     mbind (if r \<noteq> 0 then modify (\<lambda>s. s\<lparr>mem := memset r 5 4096 (mem s)\<rparr>) else ret ()) (\<lambda>_.
     ret r)))))"

text \<open>The values of \<open>p\<close> in the loop of \<open>freerange\<close>. The second conjunct says that the pointer
  does not overflow, which C leaves undefined.\<close>

function page_seq :: "u64 \<Rightarrow> u64 \<Rightarrow> u64 list" where
  "page_seq p pa_end =
     (if p + PGSIZE \<le> pa_end \<and> p < p + PGSIZE then p # page_seq (p + PGSIZE) pa_end else [])"
  by pat_completeness auto
termination
  by (relation "measure (\<lambda>(p, e). 2 ^ 64 - unat p)")
     (auto simp: word_less_nat_alt intro!: diff_less_mono2 unat_lt64[simplified])

declare page_seq.simps [simp del]

definition freerange :: "u64 \<Rightarrow> u64 \<Rightarrow> unit K" where
  "freerange pa_start pa_end = for_each (page_seq (PGROUNDUP pa_start) pa_end) kfree"

definition kinit :: "unit K" where
  "kinit = mbind (gets kend) (\<lambda>ke. freerange ke PHYSTOP)"

section \<open>Pages\<close>

definition pg_aligned :: "u64 \<Rightarrow> bool" where
  "pg_aligned a \<longleftrightarrow> a mod PGSIZE = 0"

definition page_ok :: "u64 \<Rightarrow> u64 \<Rightarrow> bool" where
  "page_ok ke pa \<longleftrightarrow> pg_aligned pa \<and> ke \<le> pa \<and> pa < PHYSTOP \<and> pa \<noteq> 0"

lemma unat_mod_page: "unat (pa mod PGSIZE) = unat pa mod 4096"
  by (simp add: unat_mod PGSIZE_def)

lemma aligned_nat: "pg_aligned pa \<longleftrightarrow> 4096 dvd unat pa"
  using unat_mod_page[of pa] unfolding pg_aligned_def by (metis dvd_eq_mod_eq_0 unat_eq_zero)

lemma page_ok_fits: "page_ok ke pa \<Longrightarrow> n \<le> 4096 \<Longrightarrow> fits pa n"
proof -
  assume "page_ok ke pa" "n \<le> 4096"
  moreover from this have "unat pa < unat PHYSTOP" by (simp add: page_ok_def word_less_nat_alt)
  ultimately show ?thesis by (simp add: fits_def PHYSTOP_def)
qed

text \<open>Distinct pages do not overlap.\<close>

lemma pages_apart:
  assumes "pg_aligned p" and "pg_aligned q" and "p \<noteq> q"
  shows "apart p 4096 q 4096"
proof -
  obtain i j where "unat p = 4096 * i" "unat q = 4096 * j"
    using assms(1,2) by (auto simp: aligned_nat elim!: dvdE)
  moreover from this have "i \<noteq> j" using assms(3) by (auto simp: word_unat_eq_iff)
  ultimately show ?thesis by (auto simp: apart_def not_le not_less)
qed

lemma apart_shrink: "apart p n q k \<Longrightarrow> n' \<le> n \<Longrightarrow> k' \<le> k \<Longrightarrow> apart p n' q k'"
  by (auto simp: apart_def)

text \<open>Rounding to page boundaries.\<close>

lemma pgrounddown_mod: "PGROUNDDOWN a = a - a mod PGSIZE"
proof -
  have m: "PGSIZE - 1 = mask 12" by (simp add: PGSIZE_def mask_eq_exp_minus_1)
  have "a AND NOT (mask 12) = push_bit 12 (drop_bit 12 a)"
    by (rule bit_eqI) (auto simp: bit_simps)
  moreover have "push_bit 12 (drop_bit 12 a) + take_bit 12 a = a" by (rule bits_ident)
  ultimately have "PGROUNDDOWN a + take_bit 12 a = a" unfolding PGROUNDDOWN_def m by simp
  moreover have "take_bit 12 a = a mod PGSIZE" by (simp add: take_bit_eq_mod PGSIZE_def)
  ultimately show ?thesis by (metis add_diff_cancel_right')
qed

lemma unat_pgrounddown: "unat (PGROUNDDOWN a) = unat a div 4096 * 4096"
proof -
  have "unat (a mod PGSIZE) \<le> unat a" by (simp add: unat_mod_page)
  then have "unat (PGROUNDDOWN a) = unat a - unat a mod 4096"
    by (simp add: pgrounddown_mod unat_sub word_le_nat_alt unat_mod_page)
  then show ?thesis by (simp add: minus_mod_eq_div_mult)
qed

lemma pgrounddown_aligned [simp]: "pg_aligned (PGROUNDDOWN a)"
  by (simp add: aligned_nat unat_pgrounddown)

lemma pgroundup_down: "PGROUNDUP a = PGROUNDDOWN (a + (PGSIZE - 1))"
  by (simp add: PGROUNDUP_def PGROUNDDOWN_def add_diff_eq)

lemma pgroundup_aligned [simp]: "pg_aligned (PGROUNDUP a)"
  by (simp add: pgroundup_down)

lemma unat_pgroundup: "fits a 4096 \<Longrightarrow> unat (PGROUNDUP a) = (unat a + 4095) div 4096 * 4096"
  by (simp add: pgroundup_down unat_pgrounddown unat_plus_if' fits_def PGSIZE_def)

lemma round_up_le: "((u :: nat) + 4095) div 4096 * 4096 \<le> 4096 * j \<longleftrightarrow> u \<le> 4096 * j"
proof -
  have "(u + 4095) div 4096 * 4096 \<le> 4096 * j \<longleftrightarrow> (u + 4095) div 4096 < Suc j" 
    by (simp only: mult.commute[of 4096 j] mult_le_cancel2 less_Suc_eq_le) simp
  also have "\<dots> \<longleftrightarrow> u + 4095 < Suc j * 4096" by (rule div_less_iff_less_mult) simp
  also have "\<dots> \<longleftrightarrow> u \<le> 4096 * j" by simp linarith
  finally show ?thesis .
qed

lemma pgroundup_ge: "fits a 4096 \<Longrightarrow> a \<le> PGROUNDUP a"
proof -
  assume "fits a 4096"
  then have "unat (PGROUNDUP a) = (unat a + 4095) div 4096 * 4096" by (rule unat_pgroundup)
  also have "(unat a + 4095) div 4096 * 4096 \<ge> unat a"
    using round_up_le[of "unat a" "(unat a + 4095) div 4096"] by (simp add: mult.commute)
  finally show ?thesis by (simp add: word_le_nat_alt)
qed

lemma page_seq_step: "p + PGSIZE \<le> e \<Longrightarrow> p < p + PGSIZE \<Longrightarrow> page_seq p e = p # page_seq (p + PGSIZE) e"
  and page_seq_stop: "\<not> (p + PGSIZE \<le> e \<and> p < p + PGSIZE) \<Longrightarrow> page_seq p e = []"
  by (subst page_seq.simps, simp)+

lemma next_page:
  assumes "p < p + PGSIZE" and "pg_aligned p"
  shows "unat (p + PGSIZE) = unat p + 4096" and "pg_aligned (p + PGSIZE)"
proof -
  show "unat (p + PGSIZE) = unat p + 4096"
    using assms(1) unfolding word_less_nat_alt unat_plus_if' by (simp add: PGSIZE_def split: if_splits)
  then show "pg_aligned (p + PGSIZE)" using assms(2) by (simp add: aligned_nat)
qed

lemma aligned_step:
  assumes "pg_aligned p" and "pg_aligned q"
  shows "unat p \<le> unat q \<longleftrightarrow> q = p \<or> unat p + 4096 \<le> unat q"
proof -
  obtain i j where "unat p = 4096 * i" "unat q = 4096 * j"
    using assms unfolding aligned_nat by (metis dvdE)
  then show ?thesis by (auto simp: word_unat_eq_iff)
qed

lemma page_seq_mem:
  "pg_aligned p \<Longrightarrow>
   q \<in> set (page_seq p e) \<longleftrightarrow> pg_aligned q \<and> unat p \<le> unat q \<and> unat q + 4096 \<le> unat e"
proof (induction p e rule: page_seq.induct)
  case (1 p e)
  show ?case
  proof (cases "p + PGSIZE \<le> e \<and> p < p + PGSIZE")
    case True
    then have u: "unat (p + PGSIZE) = unat p + 4096" "pg_aligned (p + PGSIZE)"
      using next_page 1(2) by auto
    have e: "unat p + 4096 \<le> unat e" using True u by (simp add: word_le_nat_alt)
    have "page_seq p e = p # page_seq (p + PGSIZE) e" using True page_seq_step by blast
    then have "q \<in> set (page_seq p e) \<longleftrightarrow> q = p \<or> pg_aligned q \<and> unat p + 4096 \<le> unat q \<and> unat q + 4096 \<le> unat e"
      using 1(1)[OF True u(2)] by (simp only: u list.set insert_iff)
    also have "\<dots> \<longleftrightarrow> pg_aligned q \<and> unat p \<le> unat q \<and> unat q + 4096 \<le> unat e"
      using aligned_step[OF 1(2), of q] 1(2) e by (cases "q = p") auto
    finally show ?thesis .
  next
    case False
    have "\<not> (unat p \<le> unat q \<and> unat q + 4096 \<le> unat e)"
    proof
      assume "unat p \<le> unat q \<and> unat q + 4096 \<le> unat e"
      then have "unat p + 4096 \<le> unat e" by simp
      moreover from this have "unat (p + PGSIZE) = unat p + 4096"
        using unat_lt64[of e] unfolding unat_plus_if' by (simp add: PGSIZE_def)
      ultimately show False using False by (simp add: word_le_nat_alt word_less_nat_alt)
    qed
    with False show ?thesis by (simp add: page_seq_stop)
  qed
qed

lemma page_seq_distinct: "pg_aligned p \<Longrightarrow> distinct (page_seq p e)"
proof (induction p e rule: page_seq.induct)
  case (1 p e)
  show ?case
  proof (cases "p + PGSIZE \<le> e \<and> p < p + PGSIZE")
    case True
    then have u: "unat (p + PGSIZE) = unat p + 4096" "pg_aligned (p + PGSIZE)"
      using next_page 1(2) by auto
    have "p \<notin> set (page_seq (p + PGSIZE) e)" using page_seq_mem[OF u(2)] u(1) by simp
    moreover have "page_seq p e = p # page_seq (p + PGSIZE) e" using True page_seq_step by blast
    ultimately show ?thesis using 1(1)[OF True u(2)] by (simp only: distinct.simps simp_thms)
  next
    case False
    then show ?thesis by (simp add: page_seq_stop)
  qed
qed

lemma pgroundup_le_iff:
  assumes f: "fits k 4096" and "pg_aligned q"
  shows "unat (PGROUNDUP k) \<le> unat q \<longleftrightarrow> k \<le> q"
proof -
  obtain j where j: "unat q = 4096 * j" using assms(2) unfolding aligned_nat by (metis dvdE)
  have a: "unat (PGROUNDUP k) = (unat k + 4095) div 4096 * 4096" using f by (rule unat_pgroundup)
  show ?thesis using round_up_le[of "unat k" j] by (simp only: a j word_le_nat_alt)
  qed

section \<open>The free list\<close>

fun flist :: "memory \<Rightarrow> u64 \<Rightarrow> u64 list \<Rightarrow> bool" where
  "flist m p [] \<longleftrightarrow> p = 0"
| "flist m p (x # xs) \<longleftrightarrow> p = x \<and> x \<noteq> 0 \<and> flist m (ld64 m x) xs"

text \<open>The allocator's invariant: its list in memory is the sequence \<open>xs\<close> of distinct pages.\<close>

definition kmem_inv :: "kstate \<Rightarrow> u64 list \<Rightarrow> bool" where
  "kmem_inv s xs \<longleftrightarrow> flist (mem s) (freelist s) xs \<and> distinct xs \<and> (\<forall>x \<in> set xs. page_ok (kend s) x)"

lemma flist_cong:
  assumes "\<And>x. x \<in> set xs \<Longrightarrow> ld64 m' x = ld64 m x"
  shows "flist m' p xs = flist m p xs"
  using assms by (induction xs arbitrary: p) auto

text \<open>Memory changes outside the free pages keep the free list.\<close>

lemma flist_outside:
  assumes "\<forall>x \<in> set xs. page_ok ke x" and "\<And>a. (\<forall>x \<in> set xs. \<not> within x 4096 a) \<or> m' a = m a"
  shows "flist m' p xs = flist m p xs"
proof (rule flist_cong)
  fix x assume x: "x \<in> set xs"
  then have f: "fits x 8" using assms(1) page_ok_fits[of ke x 8] by simp
  show "ld64 m' x = ld64 m x"
  proof (rule ld64_cong[OF f])
    fix a assume "within x 8 a"
    then have "within x 4096 a" by (simp add: within_def)
    with x assms(2)[of a] show "m' a = m a" by blast
  qed
qed

lemma kmem_inv_outside:
  assumes "kmem_inv s xs" and "\<And>a. (\<exists>x \<in> set xs. within x 4096 a) \<Longrightarrow> m a = mem s a"
  shows "kmem_inv (s\<lparr>mem := m\<rparr>) xs"
proof -
  have "flist m (freelist s) xs = flist (mem s) (freelist s) xs"
    by (rule flist_outside[of xs "kend s"]) (use assms in \<open>auto simp: kmem_inv_def\<close>)
  with assms(1) show ?thesis by (simp add: kmem_inv_def)
qed

lemma kmem_inv_empty: "kmem_inv s [] \<longleftrightarrow> freelist s = 0"
  by (simp add: kmem_inv_def)

lemma not_within_other_page:
  assumes "page_ok ke p" and "page_ok ke q" and "p \<noteq> q" and "within p 4096 a"
  shows "\<not> within q 4096 a"
  using apart_not_within[OF pages_apart[of q p]] assms by (auto simp: page_ok_def)

section \<open>What the operations do\<close>

lemma kalloc_Ok:
  assumes "kmem_inv s (x # xs)" and "L_kmem \<notin> held s"
  shows "kalloc s = Ok x (s\<lparr>freelist := ld64 (mem s) x, mem := memset x 5 4096 (mem s)\<rparr>)"
    and "kmem_inv (s\<lparr>freelist := ld64 (mem s) x, mem := memset x 5 4096 (mem s)\<rparr>) xs"
proof -
  have x: "freelist s = x" "x \<noteq> 0" "page_ok (kend s) x" "x \<notin> set xs"
    and xs: "kmem_inv (s\<lparr>freelist := ld64 (mem s) x\<rparr>) xs"
    using assms(1) by (auto simp: kmem_inv_def)
  show "kalloc s = Ok x (s\<lparr>freelist := ld64 (mem s) x, mem := memset x 5 4096 (mem s)\<rparr>)"
    using x assms(2) by (simp add: kalloc_def)
  have f: "fits x 4096" using x(3) page_ok_fits[of "kend s" x 4096] by simp
  have "kmem_inv (s\<lparr>freelist := ld64 (mem s) x, mem := memset x 5 4096 (mem (s\<lparr>freelist := ld64 (mem s) x\<rparr>))\<rparr>) xs"
  proof (rule kmem_inv_outside[OF xs])
    fix a assume "\<exists>y \<in> set xs. within y 4096 a"
    then obtain y where y: "y \<in> set xs" "within y 4096 a" by blast
    then have "page_ok (kend s) y" "y \<noteq> x" using xs x(4) by (auto simp: kmem_inv_def)
    with not_within_other_page[of "kend s" y x a] x(3) y(2)
    show "memset x 5 4096 (mem (s\<lparr>freelist := ld64 (mem s) x\<rparr>)) a = mem (s\<lparr>freelist := ld64 (mem s) x\<rparr>) a"
      by (simp add: memset_at[OF f])
  qed
  then show "kmem_inv (s\<lparr>freelist := ld64 (mem s) x, mem := memset x 5 4096 (mem s)\<rparr>) xs" by simp
qed

lemma kalloc_empty: "kmem_inv s [] \<Longrightarrow> L_kmem \<notin> held s \<Longrightarrow> kalloc s = Ok 0 s"
  by (simp add: kalloc_def kmem_inv_empty)

lemma kfree_Ok:
  assumes inv: "kmem_inv s xs" and pa: "page_ok (kend s) pa" and new: "pa \<notin> set xs" and lk: "L_kmem \<notin> held s"
  defines "m \<equiv> st64 pa (freelist s) (memset pa 1 4096 (mem s))"
  shows "kfree pa s = Ok () (s\<lparr>mem := m, freelist := pa\<rparr>)"
    and "kmem_inv (s\<lparr>mem := m, freelist := pa\<rparr>) (pa # xs)"
    and "\<not> within pa 4096 a \<Longrightarrow> m a = mem s a"
proof -
  have f: "fits pa 4096" "fits pa 8" using pa page_ok_fits[of "kend s" pa] by simp_all
  show "kfree pa s = Ok () (s\<lparr>mem := m, freelist := pa\<rparr>)"
    using pa lk by (simp add: kfree_def page_ok_def pg_aligned_def m_def not_less not_le)
  show out: "m a = mem s a" if "\<not> within pa 4096 a" for a
  proof -
    have "\<not> within pa 8 a" using that by (auto simp: within_def)
    with that f show ?thesis by (simp add: m_def st64_other memset_at)
  qed
  have "m a = mem s a" if "\<exists>x \<in> set xs. within x 4096 a" for a
  proof (rule out)
    from that obtain x where "x \<in> set xs" "within x 4096 a" by blast
    with inv pa new not_within_other_page[of "kend s" x pa a] show "\<not> within pa 4096 a"
      by (auto simp: kmem_inv_def)
  qed
  then have "kmem_inv (s\<lparr>mem := m\<rparr>) xs" by (rule kmem_inv_outside[OF inv])
  moreover have "ld64 m pa = freelist s" using f by (simp add: m_def)
  ultimately show "kmem_inv (s\<lparr>mem := m, freelist := pa\<rparr>) (pa # xs)"
    using pa new by (auto simp: kmem_inv_def page_ok_def)
qed

lemma kfree_bad: "pa mod PGSIZE \<noteq> 0 \<or> pa < kend s \<or> PHYSTOP \<le> pa \<Longrightarrow> kfree pa s = Panic ''kfree''"
  by (auto simp: kfree_def)

section \<open>The allocator as an interface\<close>

text \<open>
  What the users of a page allocator rely on. \<open>inv s xs\<close>: the free pages are \<open>xs\<close>; \<open>same A s t\<close>:
  outside the pages \<open>A\<close> and the allocator's own variables, \<open>t\<close> is \<open>s\<close>.
\<close>

locale page_allocator =
  fixes inv :: "'s \<Rightarrow> 'p list \<Rightarrow> bool"
    and ok :: "'s \<Rightarrow> 'p \<Rightarrow> bool"
    and same :: "'p set \<Rightarrow> 's \<Rightarrow> 's \<Rightarrow> bool"
    and null :: 'p
    and alloc :: "'s \<Rightarrow> ('s, 'p) outcome"
    and free :: "'p \<Rightarrow> 's \<Rightarrow> ('s, unit) outcome"
  assumes alloc_some: "inv s (x # xs) \<Longrightarrow> \<exists>t. alloc s = Ok x t \<and> inv t xs \<and> same {x} s t"
    and alloc_none: "inv s [] \<Longrightarrow> alloc s = Ok null s"
    and free_law: "inv s xs \<Longrightarrow> ok s x \<Longrightarrow> x \<notin> set xs \<Longrightarrow>
        \<exists>t. free x s = Ok () t \<and> inv t (x # xs) \<and> same {x} s t"
    and inv_pages: "inv s xs \<Longrightarrow> distinct xs \<and> null \<notin> set xs \<and> (\<forall>x \<in> set xs. ok s x)"
    and same_refl: "same {} s s"
    and same_trans: "same A s t \<Longrightarrow> same B t u \<Longrightarrow> same (A \<union> B) s u"
    and same_ok: "same A s t \<Longrightarrow> ok t x = ok s x"
begin

text \<open>\<open>n\<close> allocations return \<open>n\<close> different pages, none of them null.\<close>

lemma alloc_many:
  assumes "inv s xs" and "n \<le> length xs"
  shows "\<exists>t. repeat_m n alloc s = Ok (take n xs) t \<and> inv t (drop n xs) \<and> same (set (take n xs)) s t"
  using assms
proof (induction n arbitrary: s xs)
  case 0
  then show ?case by (simp add: same_refl)
next
  case (Suc n)
  then obtain x ys where xs: "xs = x # ys" by (cases xs) auto
  then obtain t where t: "alloc s = Ok x t" "inv t ys" "same {x} s t" using alloc_some Suc.prems by blast
  then obtain u where "repeat_m n alloc t = Ok (take n ys) u" "inv u (drop n ys)" "same (set (take n ys)) t u"
    using Suc xs by fastforce
  with t xs same_trans[OF t(3)] show ?case by simp
qed

lemma alloc_many_distinct:
  assumes "inv s xs" and "n \<le> length xs"
  shows "\<exists>ps t. repeat_m n alloc s = Ok ps t \<and> length ps = n \<and> distinct ps \<and> null \<notin> set ps"
proof -
  have "distinct (take n xs)" "null \<notin> set (take n xs)"
    using inv_pages[OF assms(1)] by (auto dest: in_set_takeD)
  with alloc_many[OF assms] assms(2) show ?thesis by auto
qed

lemma free_many:
  assumes "inv s ys" and "\<forall>x \<in> set xs. ok s x" and "distinct xs" and "set xs \<inter> set ys = {}"
  shows "\<exists>t. for_each xs free s = Ok () t \<and> inv t (rev xs @ ys) \<and> same (set xs) s t"
  using assms
proof (induction xs arbitrary: s ys)
  case Nil
  then show ?case by (simp add: same_refl)
next
  case (Cons x xs)
  then obtain t where t: "free x s = Ok () t" "inv t (x # ys)" "same {x} s t" using free_law[of s ys x] by auto
  moreover have "\<forall>x \<in> set xs. ok t x" using Cons.prems(2) same_ok[OF t(3)] by simp
  ultimately obtain u where "for_each xs free t = Ok () u" "inv u (rev xs @ x # ys)" "same (set xs) t u"
    using Cons.IH[of t "x # ys"] Cons.prems by auto
  with t same_trans[OF t(3)] show ?case by simp
qed

text \<open>Giving a page back makes it the next one handed out.\<close>

lemma alloc_free:
  assumes "inv s (x # xs)"
  shows "\<exists>t u. alloc s = Ok x t \<and> free x t = Ok () u \<and> inv u (x # xs) \<and> same {x} s u"
proof -
  obtain t where t: "alloc s = Ok x t" "inv t xs" "same {x} s t" using alloc_some[OF assms] by blast
  moreover have "x \<notin> set xs" "ok t x" using inv_pages[OF assms] same_ok[OF t(3)] by auto
  ultimately obtain u where "free x t = Ok () u" "inv u (x # xs)" "same {x} t u" using free_law by blast
  with t same_trans[OF t(3)] show ?thesis by fastforce
qed

end

text \<open>The part of the state outside a set of pages.\<close>

definition same_but_pages :: "u64 set \<Rightarrow> kstate \<Rightarrow> kstate \<Rightarrow> bool" where
  "same_but_pages A s t \<longleftrightarrow> s\<lparr>mem := mem t, freelist := freelist t\<rparr> = t
     \<and> (\<forall>a. (\<forall>x \<in> A. \<not> within x 4096 a) \<longrightarrow> mem t a = mem s a)"

lemma same_but_pages_refl [simp]: "same_but_pages {} s s"
  by (simp add: same_but_pages_def)

lemma same_but_pages_trans:
  assumes "same_but_pages A s t" and "same_but_pages B t u"
  shows "same_but_pages (A \<union> B) s u"
proof -
  have t: "s\<lparr>mem := mem t, freelist := freelist t\<rparr> = t" and u: "t\<lparr>mem := mem u, freelist := freelist u\<rparr> = u"
    using assms by (auto simp: same_but_pages_def)
  have "s\<lparr>mem := mem u, freelist := freelist u\<rparr>
      = (s\<lparr>mem := mem t, freelist := freelist t\<rparr>)\<lparr>mem := mem u, freelist := freelist u\<rparr>" by simp
  also have "\<dots> = u" unfolding t by (rule u)
  finally show ?thesis using assms by (simp add: same_but_pages_def)
qed

lemma same_but_pages_keeps:
  assumes "same_but_pages A s t" and "\<And>s m p. f (s\<lparr>mem := m, freelist := p\<rparr>) = f s"
  shows "f t = f s"
  using assms by (metis same_but_pages_def)

lemma same_but_pages_simps:
  assumes "same_but_pages A s t"
  shows "kend t = kend s" "held t = held s" "curproc t = curproc s" "procs t = procs s"
  by (rule same_but_pages_keeps[OF assms]; simp)+

definition kmem_ready :: "kstate \<Rightarrow> u64 list \<Rightarrow> bool" where
  "kmem_ready s xs \<longleftrightarrow> kmem_inv s xs \<and> L_kmem \<notin> held s"

interpretation km: page_allocator kmem_ready "\<lambda>s. page_ok (kend s)" same_but_pages 0 kalloc kfree
proof unfold_locales
  show "\<exists>t. kalloc s = Ok x t \<and> kmem_ready t xs \<and> same_but_pages {x} s t" if "kmem_ready s (x # xs)" for s x xs
  proof -
    have f: "fits x 4096" using that page_ok_fits[of "kend s" x 4096] by (simp add: kmem_ready_def kmem_inv_def)
    show ?thesis using kalloc_Ok[of s x xs] that
      by (auto simp: kmem_ready_def same_but_pages_def memset_at[OF f])
  qed
  show "kalloc s = Ok 0 s" if "kmem_ready s []" for s using that kalloc_empty by (simp add: kmem_ready_def)
  show "\<exists>t. kfree x s = Ok () t \<and> kmem_ready t (x # xs) \<and> same_but_pages {x} s t"
    if "kmem_ready s xs" "page_ok (kend s) x" "x \<notin> set xs" for s xs x
    using kfree_Ok[of s xs x] that by (auto simp: kmem_ready_def same_but_pages_def)
  show "distinct xs \<and> 0 \<notin> set xs \<and> (\<forall>x \<in> set xs. page_ok (kend s) x)" if "kmem_ready s xs" for s xs
    using that by (auto simp: kmem_ready_def kmem_inv_def page_ok_def)
  show "same_but_pages {} s s" for s by simp
  show "same_but_pages (A \<union> B) s u" if "same_but_pages A s t" "same_but_pages B t u" for A s t B u
    using that by (rule same_but_pages_trans)
  show "page_ok (kend t) x = page_ok (kend s) x" if "same_but_pages A s t" for A s t x
    using same_but_pages_simps[OF that] by simp
qed

section \<open>Properties\<close>

text \<open>
  C18. Initialising the allocator puts exactly the whole pages between \<open>end\<close> and \<open>PHYSTOP\<close> on the
  free list, each once, and touches no other memory.
\<close>

theorem kinit_free_pages:
  assumes "freelist s = 0" and "L_kmem \<notin> held s" and "0 < kend s" and "kend s \<le> PHYSTOP"
  shows "\<exists>t xs. kinit s = Ok () t \<and> kmem_inv t xs \<and>
    (\<forall>pa. pa \<in> set xs \<longleftrightarrow> pg_aligned pa \<and> kend s \<le> pa \<and> unat pa + 4096 \<le> unat PHYSTOP) \<and>
    (\<forall>a. a < kend s \<or> PHYSTOP \<le> a \<longrightarrow> mem t a = mem s a)"
proof -
  let ?xs = "page_seq (PGROUNDUP (kend s)) PHYSTOP"
  have f: "fits (kend s) 4096" using assms(4) by (simp add: fits_def word_le_nat_alt PHYSTOP_def)
  note up = pgroundup_le_iff[OF f]
  have mem: "pa \<in> set ?xs \<longleftrightarrow> pg_aligned pa \<and> kend s \<le> pa \<and> unat pa + 4096 \<le> unat PHYSTOP" for pa
    using page_seq_mem[of "PGROUNDUP (kend s)" pa PHYSTOP] up by auto
  have ok: "\<forall>x \<in> set ?xs. page_ok (kend s) x"
    using mem assms(3) by (auto simp: page_ok_def word_less_nat_alt word_le_nat_alt)
  have "kmem_ready s []" using assms(1,2) by (simp add: kmem_ready_def kmem_inv_empty)
  from km.free_many[OF this ok page_seq_distinct] obtain t
    where t: "for_each ?xs kfree s = Ok () t" "kmem_ready t (rev ?xs)" "same_but_pages (set ?xs) s t" by auto
  have "mem t a = mem s a" if "a < kend s \<or> PHYSTOP \<le> a" for a
  proof -
    have "\<not> within x 4096 a" if "x \<in> set ?xs" for x
      using mem[of x] that \<open>a < kend s \<or> PHYSTOP \<le> a\<close>
      by (auto simp: within_def word_less_nat_alt word_le_nat_alt)
    then show ?thesis using t(3) by (simp add: same_but_pages_def)
  qed
  moreover have "kinit s = Ok () t" using t(1) by (simp add: kinit_def freerange_def)
  moreover have "kmem_inv t (rev ?xs)" using t(2) by (simp add: kmem_ready_def)
  ultimately show ?thesis using mem by (intro exI[of _ t] exI[of _ "rev ?xs"]) simp
qed

theorem kinit_free_pages_witness:
  "\<exists>t xs. kinit zero_state = Ok () t \<and> kmem_inv t xs \<and>
    (\<forall>pa. pa \<in> set xs \<longleftrightarrow> pg_aligned pa \<and> kend zero_state \<le> pa \<and> unat pa + 4096 \<le> unat PHYSTOP) \<and>
    (\<forall>a. a < kend zero_state \<or> PHYSTOP \<le> a \<longrightarrow> mem t a = mem zero_state a)"
  by (rule kinit_free_pages) (simp_all add: zero_state_def PHYSTOP_def)

text \<open>
  C13: with \<open>xs\<close> on the free list, \<open>n\<close> calls of \<open>kalloc\<close> return \<open>n\<close> different pages of the allocator,
  changing no byte outside them; one more call than there are pages returns null; and giving the
  pages back with \<open>kfree\<close> puts exactly the original pages on the free list again.
\<close>

theorem kalloc_kfree:
  assumes rdy: "kmem_ready s xs" and n: "n \<le> length xs"
  shows "\<exists>ps t u. repeat_m n kalloc s = Ok ps t \<and> length ps = n \<and> distinct ps \<and> set ps \<subseteq> set xs \<and> same_but_pages (set ps) s t \<and>
    (n = length xs \<longrightarrow> kalloc t = Ok 0 t) \<and> for_each ps kfree t = Ok () u \<and> (\<exists>ys. kmem_ready u ys \<and> distinct ys \<and> set ys = set xs)"
proof -
  let ?ps = "take n xs"
  obtain t where t: "repeat_m n kalloc s = Ok ?ps t" "kmem_ready t (drop n xs)" "same_but_pages (set ?ps) s t"
    using km.alloc_many[OF rdy n] by blast
  note pg = km.inv_pages[OF rdy]
  have d: "distinct ?ps" "set ?ps \<inter> set (drop n xs) = {}" "set ?ps \<union> set (drop n xs) = set xs"
    using pg set_take_disj_set_drop_if_distinct[of xs n n] by (auto simp flip: set_append)
  have "\<forall>x \<in> set ?ps. page_ok (kend t) x" using pg km.same_ok[OF t(3)] by (auto dest: in_set_takeD)
  then obtain u where u: "for_each ?ps kfree t = Ok () u" "kmem_ready u (rev ?ps @ drop n xs)"
    using km.free_many[OF t(2) _ d(1,2)] by blast
  have "n = length xs \<longrightarrow> kalloc t = Ok 0 t" using t(2) km.alloc_none[of t] by auto
  moreover have "distinct (rev ?ps @ drop n xs)" "set (rev ?ps @ drop n xs) = set xs" using km.inv_pages[OF u(2)] d(3) by auto
  ultimately show ?thesis using t(1,3) u n d by (intro exI[of _ ?ps] exI[of _ t] exI[of _ u]) auto
qed

definition two_pages :: kstate where
  "two_pages = zero_state\<lparr>freelist := 0x80100000, mem := st64 0x80100000 0x80101000 (mem zero_state)\<rparr>"

lemma two_pages_ready: "kmem_ready two_pages [0x80100000, 0x80101000]"
proof -
  have a: "fits 0x80100000 8" "fits 0x80101000 8" "apart 0x80100000 8 0x80101000 8" by (simp_all add: fits_def apart_def)
  have z: "ld64 (\<lambda>_. 0) 0x80101000 = 0" by (simp add: ld64_def read_bytes_def of_le64_def upt_conv_Cons)
  show ?thesis using ld64_st64[OF a(1)] ld64_st64_apart[OF a(2,1,3)] z
    by (simp add: kmem_ready_def kmem_inv_def two_pages_def zero_state_def page_ok_def pg_aligned_def PGSIZE_def PHYSTOP_def)
qed

lemma kalloc_kfree_witness:
  "\<exists>ps t u. repeat_m 2 kalloc two_pages = Ok ps t \<and> distinct ps \<and> length ps = 2 \<and> kalloc t = Ok 0 t \<and> for_each ps kfree t = Ok () u"
  using kalloc_kfree[OF two_pages_ready, of 2] by auto

end
