(* ===== verification/Vm.thy ===== *)
theory Vm
  imports Kalloc Sched
begin

text \<open>
  Virtual memory (\<open>vm.c\<close>): Sv39 page tables as bytes of physical memory, user address spaces, and
  the copies between user and kernel space. Kernel-side buffers of the copies are byte lists.
\<close>

section \<open>Page-table entries\<close>

definition MAXVA :: u64 where "MAXVA = 2 ^ 38"
definition TRAMPOLINE :: u64 where "TRAMPOLINE = MAXVA - PGSIZE"
definition TRAPFRAME :: u64 where "TRAPFRAME = TRAMPOLINE - PGSIZE"
definition KSTACK :: "nat \<Rightarrow> u64" where "KSTACK p = TRAMPOLINE - (of_nat p + 1) * 2 * PGSIZE"
definition UART0 :: u64 where "UART0 = 0x10000000"
definition VIRTIO0 :: u64 where "VIRTIO0 = 0x10001000"
definition PLIC :: u64 where "PLIC = 0x0c000000"

definition PTE_V :: u64 where "PTE_V = 1"
definition PTE_R :: u64 where "PTE_R = 2"
definition PTE_W :: u64 where "PTE_W = 4"
definition PTE_X :: u64 where "PTE_X = 8"
definition PTE_U :: u64 where "PTE_U = 16"

definition PA2PTE :: "u64 \<Rightarrow> u64" where "PA2PTE pa = push_bit 10 (drop_bit 12 pa)"
definition PTE2PA :: "u64 \<Rightarrow> u64" where "PTE2PA pte = push_bit 12 (drop_bit 10 pte)"
definition PTE_FLAGS :: "u64 \<Rightarrow> u64" where "PTE_FLAGS pte = pte AND 0x3FF"
definition PX :: "nat \<Rightarrow> u64 \<Rightarrow> u64" where "PX level va = drop_bit (12 + 9 * level) va AND 0x1FF"

lemmas pte_defs = PTE_V_def PTE_R_def PTE_W_def PTE_X_def PTE_U_def

definition getmem :: "u64 \<Rightarrow> u64 K" where
  "getmem a = gets (\<lambda>s. ld64 (mem s) a)"

definition putmem :: "u64 \<Rightarrow> u64 \<Rightarrow> unit K" where
  "putmem a w = modify (\<lambda>s. s\<lparr>mem := st64 a w (mem s)\<rparr>)"

definition kmemset :: "u64 \<Rightarrow> byte \<Rightarrow> unit K" where
  "kmemset pa c = modify (\<lambda>s. s\<lparr>mem := memset pa c 4096 (mem s)\<rparr>)"

section \<open>Walking\<close>

text \<open>The loop of \<open>walk\<close>, from \<open>level\<close> down.\<close>

fun walk_from :: "nat \<Rightarrow> u64 \<Rightarrow> u64 \<Rightarrow> bool \<Rightarrow> u64 K" where
  "walk_from 0 pagetable va alloc = ret (pagetable + 8 * PX 0 va)"
| "walk_from (Suc l) pagetable va alloc =
     mbind (getmem (pagetable + 8 * PX (Suc l) va)) (\<lambda>pte.
     if pte AND PTE_V \<noteq> 0 then walk_from l (PTE2PA pte) va alloc
     else if \<not> alloc then ret 0
     else
       mbind kalloc (\<lambda>pt.
       if pt = 0 then ret 0
       else
         mbind (kmemset pt 0) (\<lambda>_.
         mbind (putmem (pagetable + 8 * PX (Suc l) va) (PA2PTE pt OR PTE_V)) (\<lambda>_.
         walk_from l pt va alloc))))"

definition walk :: "u64 \<Rightarrow> u64 \<Rightarrow> bool \<Rightarrow> u64 K" where
  "walk pagetable va alloc =
     (if va \<ge> MAXVA then panic ''walk'' else walk_from 2 pagetable va alloc)"

definition walkaddr :: "u64 \<Rightarrow> u64 \<Rightarrow> u64 K" where
  "walkaddr pagetable va =
     (if va \<ge> MAXVA then ret 0 else
     mbind (walk pagetable va False) (\<lambda>pte.
     if pte = 0 then ret 0 else
     mbind (getmem pte) (\<lambda>e.
     if e AND PTE_V = 0 then ret 0
     else if e AND PTE_U = 0 then ret 0
     else ret (PTE2PA e))))"

section \<open>Mapping and unmapping\<close>

text \<open>The loop of \<open>mappages\<close>; the first argument bounds the number of its passes.\<close>

fun mappages_loop :: "nat \<Rightarrow> u64 \<Rightarrow> u64 \<Rightarrow> u64 \<Rightarrow> u64 \<Rightarrow> u64 \<Rightarrow> int K" where
  "mappages_loop 0 pagetable a lst pa perm = undef ''mappages: bound''"
| "mappages_loop (Suc k) pagetable a lst pa perm =
     mbind (walk pagetable a True) (\<lambda>pte.
     if pte = 0 then ret (-1) else
     mbind (getmem pte) (\<lambda>e.
     if e AND PTE_V \<noteq> 0 then panic ''mappages: remap'' else
     mbind (putmem pte (PA2PTE pa OR perm OR PTE_V)) (\<lambda>_.
     if a = lst then ret 0
     else mappages_loop k pagetable (a + PGSIZE) lst (pa + PGSIZE) perm)))"

definition mappages :: "u64 \<Rightarrow> u64 \<Rightarrow> u64 \<Rightarrow> u64 \<Rightarrow> u64 \<Rightarrow> int K" where
  "mappages pagetable va sz pa perm =
     (if va mod PGSIZE \<noteq> 0 then panic ''mappages: va not aligned''
      else if sz mod PGSIZE \<noteq> 0 then panic ''mappages: size not aligned''
      else if sz = 0 then panic ''mappages: size''
      else mappages_loop (unat (sz div PGSIZE)) pagetable va (va + sz - PGSIZE) pa perm)"

definition kvmmap :: "u64 \<Rightarrow> u64 \<Rightarrow> u64 \<Rightarrow> u64 \<Rightarrow> u64 \<Rightarrow> unit K" where
  "kvmmap kpt va pa sz perm =
     mbind (mappages kpt va sz pa perm) (\<lambda>r.
     if r \<noteq> 0 then panic ''kvmmap'' else ret ())"

text \<open>\<open>proc_mapstacks\<close> of \<open>proc.c\<close>.\<close>

definition proc_mapstacks :: "u64 \<Rightarrow> unit K" where
  "proc_mapstacks kpt = for_each [0..<NPROC] (\<lambda>p.
     mbind kalloc (\<lambda>pa.
     if pa = 0 then panic ''kalloc'' else
     kvmmap kpt (KSTACK p) pa PGSIZE (PTE_R OR PTE_W)))"

definition kvmmake :: "u64 K" where
  "kvmmake =
     mbind kalloc (\<lambda>kpt.
     mbind (kmemset kpt 0) (\<lambda>_.
     mbind (kvmmap kpt UART0 UART0 PGSIZE (PTE_R OR PTE_W)) (\<lambda>_.
     mbind (kvmmap kpt VIRTIO0 VIRTIO0 PGSIZE (PTE_R OR PTE_W)) (\<lambda>_.
     mbind (kvmmap kpt PLIC PLIC 0x4000000 (PTE_R OR PTE_W)) (\<lambda>_.
     mbind (gets ketext) (\<lambda>etext.
     mbind (kvmmap kpt KERNBASE KERNBASE (etext - KERNBASE) (PTE_R OR PTE_X)) (\<lambda>_.
     mbind (kvmmap kpt etext etext (PHYSTOP - etext) (PTE_R OR PTE_W)) (\<lambda>_.
     mbind (gets ktramp) (\<lambda>trampoline.
     mbind (kvmmap kpt TRAMPOLINE trampoline PGSIZE (PTE_R OR PTE_X)) (\<lambda>_.
     mbind (proc_mapstacks kpt) (\<lambda>_.
     ret kpt)))))))))))"

definition kvminit :: "unit K" where
  "kvminit = mbind kvmmake (\<lambda>pt. modify (\<lambda>s. s\<lparr>kpgtbl := pt\<rparr>))"

text \<open>The values of \<open>a\<close> in the loops \<open>for(a = start; a < e; a += PGSIZE)\<close>. An address
  whose successor wraps is past \<open>MAXVA\<close>, where \<open>walk\<close> has panicked.\<close>

function va_seq :: "u64 \<Rightarrow> u64 \<Rightarrow> u64 list" where
  "va_seq a e = (if a < e then a # (if a < a + PGSIZE then va_seq (a + PGSIZE) e else []) else [])"
  by pat_completeness auto
termination
  by (relation "measure (\<lambda>(a, e). 2 ^ 64 - unat a)")
     (auto simp: word_less_nat_alt intro!: diff_less_mono2 unat_lt64[simplified])

declare va_seq.simps [simp del]

definition unmap_one :: "u64 \<Rightarrow> bool \<Rightarrow> u64 \<Rightarrow> unit K" where
  "unmap_one pagetable do_free a =
     mbind (walk pagetable a False) (\<lambda>pte.
     if pte = 0 then panic ''uvmunmap: walk'' else
     mbind (getmem pte) (\<lambda>e.
     if e AND PTE_V = 0 then panic ''uvmunmap: not mapped''
     else if PTE_FLAGS e = PTE_V then panic ''uvmunmap: not a leaf'' else
     mbind (if do_free then kfree (PTE2PA e) else ret ()) (\<lambda>_.
     putmem pte 0)))"

definition uvmunmap :: "u64 \<Rightarrow> u64 \<Rightarrow> u64 \<Rightarrow> bool \<Rightarrow> unit K" where
  "uvmunmap pagetable va npages do_free =
     (if va mod PGSIZE \<noteq> 0 then panic ''uvmunmap: not aligned''
      else for_each (va_seq va (va + npages * PGSIZE)) (unmap_one pagetable do_free))"

definition uvmcreate :: "u64 K" where
  "uvmcreate =
     mbind kalloc (\<lambda>pagetable.
     if pagetable = 0 then ret 0 else
     mbind (kmemset pagetable 0) (\<lambda>_.
     ret pagetable))"

definition uvmfirst :: "u64 \<Rightarrow> byte list \<Rightarrow> unit K" where
  "uvmfirst pagetable src =
     (if length src \<ge> 4096 then panic ''uvmfirst: more than a page'' else
     mbind kalloc (\<lambda>pg.
     mbind (kmemset pg 0) (\<lambda>_.
     mbind (mappages pagetable 0 PGSIZE pg (PTE_W OR PTE_R OR PTE_X OR PTE_U)) (\<lambda>_.
     modify (\<lambda>s. s\<lparr>mem := write_bytes (mem s) pg src\<rparr>)))))"

definition uvmdealloc :: "u64 \<Rightarrow> u64 \<Rightarrow> u64 \<Rightarrow> u64 K" where
  "uvmdealloc pagetable oldsz newsz =
     (if newsz \<ge> oldsz then ret oldsz else
     mbind (if PGROUNDUP newsz < PGROUNDUP oldsz then
              uvmunmap pagetable (PGROUNDUP newsz) ((PGROUNDUP oldsz - PGROUNDUP newsz) div PGSIZE) True
            else ret ()) (\<lambda>_.
     ret newsz))"

text \<open>The loop of \<open>uvmalloc\<close> over its page addresses.\<close>

fun uvmalloc_loop :: "u64 \<Rightarrow> u64 \<Rightarrow> u64 \<Rightarrow> u64 \<Rightarrow> u64 list \<Rightarrow> u64 K" where
  "uvmalloc_loop pagetable oldsz newsz xperm [] = ret newsz"
| "uvmalloc_loop pagetable oldsz newsz xperm (a # as) =
     mbind kalloc (\<lambda>pg.
     if pg = 0 then mbind (uvmdealloc pagetable a oldsz) (\<lambda>_. ret 0) else
     mbind (kmemset pg 0) (\<lambda>_.
     mbind (mappages pagetable a PGSIZE pg (PTE_R OR PTE_U OR xperm)) (\<lambda>r.
     if r \<noteq> 0 then
       mbind (kfree pg) (\<lambda>_.
       mbind (uvmdealloc pagetable a oldsz) (\<lambda>_.
       ret 0))
     else uvmalloc_loop pagetable oldsz newsz xperm as)))"

definition uvmalloc :: "u64 \<Rightarrow> u64 \<Rightarrow> u64 \<Rightarrow> u64 \<Rightarrow> u64 K" where
  "uvmalloc pagetable oldsz newsz xperm =
     (if newsz < oldsz then ret oldsz
      else uvmalloc_loop pagetable (PGROUNDUP oldsz) newsz xperm (va_seq (PGROUNDUP oldsz) newsz))"

text \<open>\<open>freewalk\<close> recurses once per level of the table; a table deeper than \<open>d\<close> levels is not one
  that the hardware walks.\<close>

fun freewalk :: "nat \<Rightarrow> u64 \<Rightarrow> unit K" where
  "freewalk 0 pagetable = undef ''freewalk: depth''"
| "freewalk (Suc d) pagetable =
     mbind (for_each [0..<512] (\<lambda>i.
       mbind (getmem (pagetable + 8 * of_nat i)) (\<lambda>pte.
       if pte AND PTE_V \<noteq> 0 \<and> pte AND (PTE_R OR PTE_W OR PTE_X) = 0 then
         mbind (freewalk d (PTE2PA pte)) (\<lambda>_.
         putmem (pagetable + 8 * of_nat i) 0)
       else if pte AND PTE_V \<noteq> 0 then panic ''freewalk: leaf''
       else ret ()))) (\<lambda>_.
     kfree pagetable)"

definition uvmfree :: "u64 \<Rightarrow> u64 \<Rightarrow> unit K" where
  "uvmfree pagetable sz =
     mbind (if sz > 0 then uvmunmap pagetable 0 (PGROUNDUP sz div PGSIZE) True else ret ()) (\<lambda>_.
     freewalk 3 pagetable)"

fun uvmcopy_loop :: "u64 \<Rightarrow> u64 \<Rightarrow> u64 list \<Rightarrow> int K" where
  "uvmcopy_loop old new [] = ret 0"
| "uvmcopy_loop old new (i # js) =
     mbind (walk old i False) (\<lambda>pte.
     if pte = 0 then panic ''uvmcopy: pte should exist'' else
     mbind (getmem pte) (\<lambda>e.
     if e AND PTE_V = 0 then panic ''uvmcopy: page not present'' else
     mbind kalloc (\<lambda>pg.
     if pg = 0 then mbind (uvmunmap new 0 (i div PGSIZE) True) (\<lambda>_. ret (-1)) else
     mbind (modify (\<lambda>s. s\<lparr>mem := memmove pg (PTE2PA e) 4096 (mem s)\<rparr>)) (\<lambda>_.
     mbind (mappages new i PGSIZE pg (PTE_FLAGS e)) (\<lambda>r.
     if r \<noteq> 0 then
       mbind (kfree pg) (\<lambda>_.
       mbind (uvmunmap new 0 (i div PGSIZE) True) (\<lambda>_.
       ret (-1)))
     else uvmcopy_loop old new js)))))"

definition uvmcopy :: "u64 \<Rightarrow> u64 \<Rightarrow> u64 \<Rightarrow> int K" where
  "uvmcopy old new sz = uvmcopy_loop old new (va_seq 0 sz)"

definition uvmclear :: "u64 \<Rightarrow> u64 \<Rightarrow> unit K" where
  "uvmclear pagetable va =
     mbind (walk pagetable va False) (\<lambda>pte.
     if pte = 0 then panic ''uvmclear'' else
     mbind (getmem pte) (\<lambda>e.
     putmem pte (e AND NOT PTE_U)))"

section \<open>Copies between user and kernel space\<close>

text \<open>How many bytes one pass of a copy loop moves: to the end of the page, or all that is left.\<close>

definition chunk :: "u64 \<Rightarrow> nat \<Rightarrow> nat" where
  "chunk va len = min (unat (PGSIZE - (va - PGROUNDDOWN va))) len"

lemma page_offset: "unat (va - PGROUNDDOWN va) = unat va mod 4096"
proof -
  have "va - PGROUNDDOWN va = va mod PGSIZE" by (simp add: pgrounddown_mod)
  then show ?thesis by (simp add: unat_mod_page)
qed

lemma unat_rest: "unat (PGSIZE - (va - PGROUNDDOWN va)) = 4096 - unat va mod 4096"
proof -
  have "unat (va - PGROUNDDOWN va) \<le> unat PGSIZE" by (simp add: page_offset PGSIZE_def)
  then have "unat (PGSIZE - (va - PGROUNDDOWN va)) = unat PGSIZE - unat (va - PGROUNDDOWN va)"
    by (simp add: unat_sub word_le_nat_alt)
  then show ?thesis by (simp add: page_offset PGSIZE_def)
qed

lemma chunk_pos: "0 < len \<Longrightarrow> 0 < chunk va len"
  by (simp add: chunk_def unat_rest)

function copyout :: "u64 \<Rightarrow> u64 \<Rightarrow> byte list \<Rightarrow> int K" where
  "copyout pagetable dstva src =
     (if src = [] then ret 0 else
      if PGROUNDDOWN dstva \<ge> MAXVA then ret (-1) else
      mbind (walk pagetable (PGROUNDDOWN dstva) False) (\<lambda>pte.
      mbind (getmem pte) (\<lambda>e.
      if pte = 0 \<or> e AND PTE_V = 0 \<or> e AND PTE_U = 0 \<or> e AND PTE_W = 0 then ret (-1) else
      mbind (modify (\<lambda>s. s\<lparr>mem := write_bytes (mem s) (PTE2PA e + (dstva - PGROUNDDOWN dstva))
                                    (take (chunk dstva (length src)) src)\<rparr>)) (\<lambda>_.
      copyout pagetable (PGROUNDDOWN dstva + PGSIZE) (drop (chunk dstva (length src)) src)))))"
  by pat_completeness auto
termination
  by (relation "measure (\<lambda>(_, _, src). length src)") (auto simp: chunk_pos)

declare copyout.simps [simp del]

text \<open>\<open>copyin\<close> and \<open>copyinstr\<close> return the C result and the bytes stored at \<open>dst\<close>, also when they fail
  part of the way.\<close>

function copyin :: "u64 \<Rightarrow> u64 \<Rightarrow> nat \<Rightarrow> (int \<times> byte list) K" where
  "copyin pagetable srcva len =
     (if len = 0 then ret (0, []) else
      mbind (walkaddr pagetable (PGROUNDDOWN srcva)) (\<lambda>pa0.
      if pa0 = 0 then ret (-1, []) else
      mbind (gets (\<lambda>s. read_bytes (mem s) (pa0 + (srcva - PGROUNDDOWN srcva)) (chunk srcva len))) (\<lambda>bs.
      mbind (copyin pagetable (PGROUNDDOWN srcva + PGSIZE) (len - chunk srcva len)) (\<lambda>r.
      ret (fst r, bs @ snd r)))))"
  by pat_completeness auto
termination
  by (relation "measure (\<lambda>(_, _, len). len)") (auto simp: chunk_pos)

declare copyin.simps [simp del]

text \<open>The inner loop of \<open>copyinstr\<close>: the bytes it stores and whether it met the terminator.\<close>

fun copy_until_nul :: "byte list \<Rightarrow> byte list \<times> bool" where
  "copy_until_nul [] = ([], False)"
| "copy_until_nul (b # bs) =
     (if b = 0 then ([0], True) else (case copy_until_nul bs of (r, g) \<Rightarrow> (b # r, g)))"

function copyinstr :: "u64 \<Rightarrow> u64 \<Rightarrow> nat \<Rightarrow> (int \<times> byte list) K" where
  "copyinstr pagetable srcva mx =
     (if mx = 0 then ret (-1, []) else
      mbind (walkaddr pagetable (PGROUNDDOWN srcva)) (\<lambda>pa0.
      if pa0 = 0 then ret (-1, []) else
      mbind (gets (\<lambda>s. copy_until_nul (read_bytes (mem s) (pa0 + (srcva - PGROUNDDOWN srcva)) (chunk srcva mx)))) (\<lambda>c.
      if snd c then ret (0, fst c) else
      mbind (copyinstr pagetable (PGROUNDDOWN srcva + PGSIZE) (mx - chunk srcva mx)) (\<lambda>r.
      ret (fst r, fst c @ snd r)))))"
  by pat_completeness auto
termination
  by (relation "measure (\<lambda>(_, _, mx). mx)") (auto simp: chunk_pos)

declare copyinstr.simps [simp del]

text \<open>\<open>either_copyout\<close> and \<open>either_copyin\<close> of \<open>proc.c\<close>. A kernel destination is an address, or a
  variable of the caller, for which the bytes are handed back; a kernel source is the bytes themselves.\<close>

datatype iodst = UserDst u64 | KernAddr u64 | KernVar

datatype iosrc = UserSrc u64 | KernBytes "byte list"

definition my_pagetable :: "u64 K" where
  "my_pagetable = mbind me (\<lambda>p. gets (\<lambda>s. p_pagetable (procs s ! p)))"

definition either_copyout :: "iodst \<Rightarrow> byte list \<Rightarrow> int K" where
  "either_copyout dst src =
     (case dst of
        UserDst va \<Rightarrow> mbind my_pagetable (\<lambda>pt. copyout pt va src)
      | KernAddr a \<Rightarrow> mbind (modify (\<lambda>s. s\<lparr>mem := write_bytes (mem s) a src\<rparr>)) (\<lambda>_. ret 0)
      | KernVar \<Rightarrow> ret 0)"

definition either_copyin :: "iosrc \<Rightarrow> nat \<Rightarrow> (int \<times> byte list) K" where
  "either_copyin src len =
     (case src of
        UserSrc va \<Rightarrow> mbind my_pagetable (\<lambda>pt. copyin pt va len)
      | KernBytes bs \<Rightarrow> ret (0, take len bs))"

fun dst_adv :: "iodst \<Rightarrow> nat \<Rightarrow> iodst" where
  "dst_adv (UserDst va) m = UserDst (va + of_nat m)"
| "dst_adv (KernAddr a) m = KernAddr (a + of_nat m)"
| "dst_adv KernVar m = KernVar"

fun src_adv :: "iosrc \<Rightarrow> nat \<Rightarrow> iosrc" where
  "src_adv (UserSrc va) m = UserSrc (va + of_nat m)"
| "src_adv (KernBytes bs) m = KernBytes (drop m bs)"

section \<open>The copies return for every address\<close>

lemma walk_from_reads: "\<exists>x. walk_from l pt va False s = Ok x s"
  by (induction l arbitrary: pt) (auto simp: getmem_def)

lemma walkaddr_reads: "\<exists>x. walkaddr pt va s = Ok x s"
  using walk_from_reads[of 2 pt va s] by (auto simp: walkaddr_def walk_def getmem_def)

lemma copyin_reads:
  "\<exists>r. copyin pt va len s = Ok r s \<and> (fst r = 0 \<and> length (snd r) = len \<or> fst r = -1)"
proof (induction len arbitrary: va rule: less_induct)
  case (less len)
  show ?case
  proof (cases "len = 0")
    case True
    then show ?thesis by (subst copyin.simps) simp
  next
    case False
    have c: "chunk va len \<le> len" "len - chunk va len < len" using False chunk_pos[of len va] by (auto simp: chunk_def)
    obtain x where x: "walkaddr pt (PGROUNDDOWN va) s = Ok x s" using walkaddr_reads by blast
    obtain r where "copyin pt (PGROUNDDOWN va + PGSIZE) (len - chunk va len) s = Ok r s"
      "fst r = 0 \<and> length (snd r) = len - chunk va len \<or> fst r = -1" using less[OF c(2)] by blast
    then show ?thesis using False x c by (subst copyin.simps) auto
  qed
qed

lemma copyout_writes: "\<exists>r m. copyout pt va src s = Ok r (s\<lparr>mem := m\<rparr>) \<and> (r = 0 \<or> r = -1)"
proof (induction "length src" arbitrary: src va s rule: less_induct)
  case less
  show ?case
  proof (cases "src = [] \<or> PGROUNDDOWN va \<ge> MAXVA")
    case True
    then show ?thesis by (intro exI[of _ "if src = [] then 0 else -1"] exI[of _ "mem s"]) (subst copyout.simps, auto)
  next
    case False
    obtain x where "walk pt (PGROUNDDOWN va) False s = Ok x s"
      using walk_from_reads[of 2 pt "PGROUNDDOWN va" s] False by (auto simp: walk_def)
    note x = this
    let ?e = "ld64 (mem s) x" and ?rest = "drop (chunk va (length src)) src"
    let ?s1 = "s\<lparr>mem := write_bytes (mem s) (PTE2PA ?e + (va - PGROUNDDOWN va)) (take (chunk va (length src)) src)\<rparr>"
    have "length ?rest < length src" using False chunk_pos[of "length src" va] by simp
    from less[OF this, of "PGROUNDDOWN va + PGSIZE" ?s1] obtain r m where "copyout pt (PGROUNDDOWN va + PGSIZE) ?rest ?s1 = Ok r (s\<lparr>mem := m\<rparr>)" "r = 0 \<or> r = -1"
      by auto
    then show ?thesis using False x
      by (cases "x = 0 \<or> ?e AND PTE_V = 0 \<or> ?e AND PTE_U = 0 \<or> ?e AND PTE_W = 0")
        (subst copyout.simps, auto simp: getmem_def intro: exI[of _ "mem s"])+
  qed
qed

text \<open>What the inner loop of \<open>copyinstr\<close> finds: the bytes before the first terminator, and it.\<close>

lemma copy_until_nul_spec:
  "snd (copy_until_nul bs) \<longleftrightarrow> 0 \<in> set bs"
  "fst (copy_until_nul bs) = cstr bs @ (if 0 \<in> set bs then [0] else [])"
  by (induction bs) (auto split: prod.splits)

definition nul_string :: "nat \<Rightarrow> byte list \<Rightarrow> bool" where
  "nul_string mx bs \<longleftrightarrow> length bs \<le> mx \<and> (\<exists>cs. bs = cs @ [0] \<and> 0 \<notin> set cs)"

lemma cstr_no_nul: "0 \<notin> set (cstr bs)"
  by (auto simp: cstr_def dest: set_takeWhileD)

lemma cstr_whole: "0 \<notin> set bs \<Longrightarrow> cstr bs = bs"
  by (auto simp: cstr_def takeWhile_eq_all_conv)

lemma copyinstr_reads:
  "\<exists>r. copyinstr pt va mx s = Ok r s \<and> (fst r = 0 \<and> nul_string mx (snd r) \<or> fst r = -1)"
proof (induction mx arbitrary: va rule: less_induct)
  case (less mx)
  show ?case
  proof (cases "mx = 0")
    case True
    then show ?thesis by (subst copyinstr.simps) simp
  next
    case False
    let ?c = "chunk va mx"
    have c: "?c \<le> mx" "mx - ?c < mx" using False chunk_pos[of mx va] by (auto simp: chunk_def)
    obtain x where x: "walkaddr pt (PGROUNDDOWN va) s = Ok x s" using walkaddr_reads by blast
    obtain r where r: "copyinstr pt (PGROUNDDOWN va + PGSIZE) (mx - ?c) s = Ok r s"
      "fst r = 0 \<and> nul_string (mx - ?c) (snd r) \<or> fst r = -1" using less[OF c(2)] by blast
    define bs where "bs = read_bytes (mem s) (x + (va - PGROUNDDOWN va)) ?c"
    have len: "length bs = ?c" "length (cstr bs) \<le> ?c" using length_cstr[of bs] by (simp_all add: bs_def)
    show ?thesis
    proof (cases "0 \<in> set bs")
      case True
      have "length (cstr bs) < length bs"
        using True cstr_no_nul[of bs] takeWhile_dropWhile_id[of "\<lambda>c. c \<noteq> 0" bs] length_cstr[of bs]
        by (metis cstr_def le_neq_implies_less length_append add_cancel_left_right self_append_conv length_0_conv)
      then have "nul_string mx (cstr bs @ [0])" using c len cstr_no_nul by (auto simp: nul_string_def)
      then show ?thesis using False x True
        by (subst copyinstr.simps) (auto simp: copy_until_nul_spec bs_def[symmetric])
    next
      case nz: False
      then have "nul_string mx (bs @ snd r)" if "nul_string (mx - ?c) (snd r)"
        using that len c by (auto simp: nul_string_def)
      then show ?thesis using False x nz r
        by (subst copyinstr.simps) (auto simp: copy_until_nul_spec cstr_whole bs_def[symmetric])
    qed
  qed
qed

section \<open>Properties\<close>


end
