(* ===== verification/Fs.thy ===== *)
theory Fs
  imports Log Vm
begin

text \<open>
  The file system (\<open>fs.c\<close>): block allocation, inodes, file content, directories and path names, on
  top of the log. An inode pointer is an index into the inode table. A path or name is the bytes up
  to its terminator.
\<close>

section \<open>Superblock and blocks\<close>

definition upd_data :: "nat \<Rightarrow> (byte list \<Rightarrow> byte list) \<Rightarrow> unit K" where
  "upd_data b f = mbind (buf_data b) (\<lambda>d. set_data b (f d))"

definition decode_sb :: "byte list \<Rightarrow> superblock" where
  "decode_sb d = \<lparr>sb_magic = get32 0 d, sb_size = get32 4 d, sb_nblocks = get32 8 d, sb_ninodes = get32 12 d,
     sb_nlog = get32 16 d, sb_logstart = get32 20 d, sb_inodestart = get32 24 d, sb_bmapstart = get32 28 d\<rparr>"

definition readsb :: "u32 \<Rightarrow> superblock K" where
  "readsb dev =
     mbind (bread dev 1) (\<lambda>bp.
     mbind (buf_data bp) (\<lambda>d.
     mbind (brelse bp) (\<lambda>_.
     ret (decode_sb d))))"

definition fsinit :: "u32 \<Rightarrow> unit K" where
  "fsinit dev =
     mbind (readsb dev) (\<lambda>x.
     mbind (modify (\<lambda>s. s\<lparr>sb := x\<rparr>)) (\<lambda>_.
     if sb_magic x \<noteq> FSMAGIC then panic ''invalid file system''
     else initlog dev x))"

definition BBLOCK :: "u32 \<Rightarrow> superblock \<Rightarrow> u32" where
  "BBLOCK b x = b div BPB + sb_bmapstart x"

definition IBLOCK :: "u32 \<Rightarrow> superblock \<Rightarrow> u32" where
  "IBLOCK i x = i div IPB + sb_inodestart x"

definition bzero :: "u32 \<Rightarrow> u32 \<Rightarrow> unit K" where
  "bzero dev bno =
     mbind (bread dev bno) (\<lambda>bp.
     mbind (set_data bp (replicate BSIZE 0)) (\<lambda>_.
     mbind (log_write bp) (\<lambda>_.
     brelse bp)))"

text \<open>Bit \<open>bi\<close> of a bitmap block.\<close>

definition bit_used :: "byte list \<Rightarrow> nat \<Rightarrow> bool" where
  "bit_used d bi \<longleftrightarrow> d ! (bi div 8) AND push_bit (bi mod 8) 1 \<noteq> 0"

definition set_used :: "nat \<Rightarrow> byte list \<Rightarrow> byte list" where
  "set_used bi d = d[bi div 8 := d ! (bi div 8) OR push_bit (bi mod 8) 1]"

definition set_free :: "nat \<Rightarrow> byte list \<Rightarrow> byte list" where
  "set_free bi d = d[bi div 8 := d ! (bi div 8) AND NOT (push_bit (bi mod 8) 1)]"

text \<open>The outer loop of \<open>balloc\<close> over the starts \<open>b\<close> of the bitmap blocks; the inner loop is the
  search for the first clear bit.\<close>

fun balloc_loop :: "u32 \<Rightarrow> nat \<Rightarrow> nat list \<Rightarrow> u32 K" where
  "balloc_loop dev sz [] =
     mbind (kprint ''balloc: out of blocks\<newline>'') (\<lambda>_.
     ret 0)"
| "balloc_loop dev sz (b # bs) =
     mbind (gets sb) (\<lambda>x.
     mbind (bread dev (BBLOCK (of_nat b) x)) (\<lambda>bp.
     mbind (buf_data bp) (\<lambda>d.
     case find (\<lambda>bi. \<not> bit_used d bi) [0..<min (unat BPB) (sz - b)] of
       Some bi \<Rightarrow>
         mbind (set_data bp (set_used bi d)) (\<lambda>_.
         mbind (log_write bp) (\<lambda>_.
         mbind (brelse bp) (\<lambda>_.
         mbind (bzero dev (of_nat (b + bi))) (\<lambda>_.
         ret (of_nat (b + bi))))))
     | None \<Rightarrow>
         mbind (brelse bp) (\<lambda>_.
         balloc_loop dev sz bs))))"

definition balloc :: "u32 \<Rightarrow> u32 K" where
  "balloc dev =
     mbind (gets (\<lambda>s. unat (sb_size (sb s)))) (\<lambda>sz.
     balloc_loop dev sz (map (\<lambda>k. k * unat BPB) [0..<(sz + unat BPB - 1) div unat BPB]))"

definition bfree :: "u32 \<Rightarrow> u32 \<Rightarrow> unit K" where
  "bfree dev b =
     mbind (gets sb) (\<lambda>x.
     mbind (bread dev (BBLOCK b x)) (\<lambda>bp.
     mbind (buf_data bp) (\<lambda>d.
     if \<not> bit_used d (unat (b mod BPB)) then panic ''freeing free block'' else
     mbind (set_data bp (set_free (unat (b mod BPB)) d)) (\<lambda>_.
     mbind (log_write bp) (\<lambda>_.
     brelse bp)))))"

section \<open>Inodes\<close>

definition upd_inode :: "nat \<Rightarrow> (inode \<Rightarrow> inode) \<Rightarrow> unit K" where
  "upd_inode ip f = modify (\<lambda>s. s\<lparr>inodes := tbl_upd ip f (inodes s)\<rparr>)"

definition get_inode :: "nat \<Rightarrow> inode K" where
  "get_inode ip = gets (\<lambda>s. inodes s ! ip)"

definition iinit :: "unit K" where
  "iinit = for_each [0..<NINODE] (\<lambda>i. initsleeplock (SL_inode i))"

text \<open>The byte offset of an inode in its block, and the fields of \<open>struct dinode\<close> there.\<close>

definition dinode_off :: "u32 \<Rightarrow> nat" where
  "dinode_off inum = 64 * unat (inum mod IPB)"

definition dinode_type :: "nat \<Rightarrow> byte list \<Rightarrow> u16" where
  "dinode_type off d = get16 off d"

definition load_dinode :: "nat \<Rightarrow> byte list \<Rightarrow> inode \<Rightarrow> inode" where
  "load_dinode off d x = x\<lparr>i_type := get16 off d, i_major := get16 (off + 2) d, i_minor := get16 (off + 4) d,
     i_nlink := get16 (off + 6) d, i_size := get32 (off + 8) d,
     i_addrs := map (\<lambda>i. get32 (off + 12 + 4 * i) d) [0..<NDIRECT + 1]\<rparr>"

definition put_addrs :: "nat \<Rightarrow> u32 list \<Rightarrow> byte list \<Rightarrow> byte list" where
  "put_addrs off as d = fold (\<lambda>i d. put32 (off + 4 * i) (as ! i) d) [0..<length as] d"

definition store_dinode :: "nat \<Rightarrow> inode \<Rightarrow> byte list \<Rightarrow> byte list" where
  "store_dinode off x d = put_addrs (off + 12) (i_addrs x) (put32 (off + 8) (i_size x)
     (put16 (off + 6) (i_nlink x) (put16 (off + 4) (i_minor x) (put16 (off + 2) (i_major x)
     (put16 off (i_type x) d)))))"

definition fresh_dinode :: "nat \<Rightarrow> u16 \<Rightarrow> byte list \<Rightarrow> byte list" where
  "fresh_dinode off ty d = put16 off ty (put_bytes off (replicate 64 0) d)"

definition iget :: "u32 \<Rightarrow> u32 \<Rightarrow> nat K" where
  "iget dev inum =
     mbind (acquire L_itable) (\<lambda>_.
     mbind (gets inodes) (\<lambda>tab.
     case find (\<lambda>i. i_ref (tab ! i) > 0 \<and> i_dev (tab ! i) = dev \<and> i_inum (tab ! i) = inum) [0..<NINODE] of
       Some i \<Rightarrow>
         mbind (upd_inode i (\<lambda>x. x\<lparr>i_ref := i_ref x + 1\<rparr>)) (\<lambda>_.
         mbind (release L_itable) (\<lambda>_.
         ret i))
     | None \<Rightarrow>
         (case find (\<lambda>i. i_ref (tab ! i) = 0) [0..<NINODE] of
            None \<Rightarrow> panic ''iget: no inodes''
          | Some i \<Rightarrow>
              mbind (upd_inode i (\<lambda>x. x\<lparr>i_dev := dev, i_inum := inum, i_ref := 1, i_valid := False\<rparr>)) (\<lambda>_.
              mbind (release L_itable) (\<lambda>_.
              ret i)))))"

fun ialloc_loop :: "u32 \<Rightarrow> u16 \<Rightarrow> u32 list \<Rightarrow> nat option K" where
  "ialloc_loop dev ty [] =
     mbind (kprint ''ialloc: no inodes\<newline>'') (\<lambda>_.
     ret None)"
| "ialloc_loop dev ty (inum # rest) =
     mbind (gets sb) (\<lambda>x.
     mbind (bread dev (IBLOCK inum x)) (\<lambda>bp.
     mbind (buf_data bp) (\<lambda>d.
     if dinode_type (dinode_off inum) d = 0 then
       mbind (set_data bp (fresh_dinode (dinode_off inum) ty d)) (\<lambda>_.
       mbind (log_write bp) (\<lambda>_.
       mbind (brelse bp) (\<lambda>_.
       mbind (iget dev inum) (\<lambda>i.
       ret (Some i)))))
     else
       mbind (brelse bp) (\<lambda>_.
       ialloc_loop dev ty rest))))"

definition ialloc :: "u32 \<Rightarrow> u16 \<Rightarrow> nat option K" where
  "ialloc dev ty =
     mbind (gets (\<lambda>s. sb_ninodes (sb s))) (\<lambda>n.
     ialloc_loop dev ty (map of_nat [1..<unat n]))"

definition iupdate :: "nat \<Rightarrow> unit K" where
  "iupdate ip =
     mbind (get_inode ip) (\<lambda>x.
     mbind (gets sb) (\<lambda>sbk.
     mbind (bread (i_dev x) (IBLOCK (i_inum x) sbk)) (\<lambda>bp.
     mbind (upd_data bp (store_dinode (dinode_off (i_inum x)) x)) (\<lambda>_.
     mbind (log_write bp) (\<lambda>_.
     brelse bp)))))"

definition idup :: "nat \<Rightarrow> nat K" where
  "idup ip =
     mbind (acquire L_itable) (\<lambda>_.
     mbind (upd_inode ip (\<lambda>x. x\<lparr>i_ref := i_ref x + 1\<rparr>)) (\<lambda>_.
     mbind (release L_itable) (\<lambda>_.
     ret ip)))"

definition ilock :: "nat \<Rightarrow> unit K" where
  "ilock ip =
     mbind (get_inode ip) (\<lambda>x.
     if i_ref x < 1 then panic ''ilock'' else
     mbind (acquiresleep (SL_inode ip)) (\<lambda>_.
     mbind (get_inode ip) (\<lambda>x.
     if \<not> i_valid x then
       mbind (gets sb) (\<lambda>sbk.
       mbind (bread (i_dev x) (IBLOCK (i_inum x) sbk)) (\<lambda>bp.
       mbind (buf_data bp) (\<lambda>d.
       mbind (upd_inode ip (load_dinode (dinode_off (i_inum x)) d)) (\<lambda>_.
       mbind (brelse bp) (\<lambda>_.
       mbind (upd_inode ip (\<lambda>y. y\<lparr>i_valid := True\<rparr>)) (\<lambda>_.
       mbind (get_inode ip) (\<lambda>y.
       if i_type y = 0 then panic ''ilock: no type'' else ret ())))))))
     else ret ())))"

definition iunlock :: "nat \<Rightarrow> unit K" where
  "iunlock ip =
     mbind (holdingsleep (SL_inode ip)) (\<lambda>h.
     mbind (get_inode ip) (\<lambda>x.
     if \<not> h \<or> i_ref x < 1 then panic ''iunlock''
     else releasesleep (SL_inode ip)))"

text \<open>\<open>itrunc\<close>: free the direct blocks, then the blocks listed in the indirect block, then that
  block.\<close>

definition trunc_direct :: "nat \<Rightarrow> nat \<Rightarrow> unit K" where
  "trunc_direct ip i =
     mbind (get_inode ip) (\<lambda>x.
     if i_addrs x ! i \<noteq> 0 then
       mbind (bfree (i_dev x) (i_addrs x ! i)) (\<lambda>_.
       upd_inode ip (\<lambda>y. y\<lparr>i_addrs := (i_addrs y)[i := 0]\<rparr>))
     else ret ())"

definition trunc_indirect :: "nat \<Rightarrow> unit K" where
  "trunc_indirect ip =
     mbind (get_inode ip) (\<lambda>x.
     if i_addrs x ! NDIRECT \<noteq> 0 then
       mbind (bread (i_dev x) (i_addrs x ! NDIRECT)) (\<lambda>bp.
       mbind (for_each [0..<NINDIRECT] (\<lambda>j.
         mbind (buf_data bp) (\<lambda>d.
         if get32 (4 * j) d \<noteq> 0 then bfree (i_dev x) (get32 (4 * j) d) else ret ()))) (\<lambda>_.
       mbind (brelse bp) (\<lambda>_.
       mbind (bfree (i_dev x) (i_addrs x ! NDIRECT)) (\<lambda>_.
       upd_inode ip (\<lambda>y. y\<lparr>i_addrs := (i_addrs y)[NDIRECT := 0]\<rparr>)))))
     else ret ())"

definition itrunc :: "nat \<Rightarrow> unit K" where
  "itrunc ip =
     mbind (for_each [0..<NDIRECT] (trunc_direct ip)) (\<lambda>_.
     mbind (trunc_indirect ip) (\<lambda>_.
     mbind (upd_inode ip (\<lambda>y. y\<lparr>i_size := 0\<rparr>)) (\<lambda>_.
     iupdate ip)))"

definition iput :: "nat \<Rightarrow> unit K" where
  "iput ip =
     mbind (acquire L_itable) (\<lambda>_.
     mbind (get_inode ip) (\<lambda>x.
     mbind (if i_ref x = 1 \<and> i_valid x \<and> i_nlink x = 0 then
              mbind (acquiresleep (SL_inode ip)) (\<lambda>_.
              mbind (release L_itable) (\<lambda>_.
              mbind (itrunc ip) (\<lambda>_.
              mbind (upd_inode ip (\<lambda>y. y\<lparr>i_type := 0\<rparr>)) (\<lambda>_.
              mbind (iupdate ip) (\<lambda>_.
              mbind (upd_inode ip (\<lambda>y. y\<lparr>i_valid := False\<rparr>)) (\<lambda>_.
              mbind (releasesleep (SL_inode ip)) (\<lambda>_.
              acquire L_itable)))))))
            else ret ()) (\<lambda>_.
     mbind (upd_inode ip (\<lambda>y. y\<lparr>i_ref := i_ref y - 1\<rparr>)) (\<lambda>_.
     release L_itable))))"

definition iunlockput :: "nat \<Rightarrow> unit K" where
  "iunlockput ip = mbind (iunlock ip) (\<lambda>_. iput ip)"

section \<open>File content\<close>

text \<open>\<open>bmap\<close>: the direct case, and the indirect case for the index \<open>bn - NDIRECT\<close>.\<close>

definition bmap_direct :: "nat \<Rightarrow> nat \<Rightarrow> u32 K" where
  "bmap_direct ip bn =
     mbind (get_inode ip) (\<lambda>x.
     if i_addrs x ! bn = 0 then
       mbind (balloc (i_dev x)) (\<lambda>addr.
       if addr = 0 then ret 0 else
       mbind (upd_inode ip (\<lambda>y. y\<lparr>i_addrs := (i_addrs y)[bn := addr]\<rparr>)) (\<lambda>_.
       ret addr))
     else ret (i_addrs x ! bn))"

definition bmap_indirect :: "nat \<Rightarrow> nat \<Rightarrow> u32 K" where
  "bmap_indirect ip bn =
     mbind (bmap_direct ip NDIRECT) (\<lambda>ind.
     if ind = 0 then ret 0 else
     mbind (get_inode ip) (\<lambda>x.
     mbind (bread (i_dev x) ind) (\<lambda>bp.
     mbind (buf_data bp) (\<lambda>d.
     mbind (if get32 (4 * bn) d = 0 then
              mbind (balloc (i_dev x)) (\<lambda>addr.
              mbind (if addr \<noteq> 0 then
                       mbind (upd_data bp (put32 (4 * bn) addr)) (\<lambda>_.
                       log_write bp)
                     else ret ()) (\<lambda>_.
              ret addr))
            else ret (get32 (4 * bn) d)) (\<lambda>addr.
     mbind (brelse bp) (\<lambda>_.
     ret addr))))))"

definition bmap :: "nat \<Rightarrow> u32 \<Rightarrow> u32 K" where
  "bmap ip bn =
     (if unat bn < NDIRECT then bmap_direct ip (unat bn)
      else if unat bn - NDIRECT < NINDIRECT then bmap_indirect ip (unat bn - NDIRECT)
      else panic ''bmap: out of range'')"

text \<open>The fields of \<open>struct stat\<close> that \<open>stati\<close> sets; it leaves \<open>mode\<close> as it finds it.\<close>

record stat =
  st_dev :: u32
  st_ino :: u32
  st_type :: u16
  st_nlink :: u16
  st_size :: u64
  st_mode :: u32

definition stati :: "nat \<Rightarrow> stat \<Rightarrow> stat K" where
  "stati ip st =
     mbind (get_inode ip) (\<lambda>x.
     ret (st\<lparr>st_dev := i_dev x, st_ino := i_inum x, st_type := i_type x, st_nlink := i_nlink x,
             st_size := ucast (i_size x)\<rparr>))"

text \<open>A C \<open>uint\<close> returned as \<open>int\<close>.\<close>

definition uint_as_int :: "nat \<Rightarrow> int" where
  "uint_as_int n = sint (of_nat n :: u32)"

text \<open>How much of a request of \<open>left\<close> bytes at \<open>off\<close> one pass of the loops handles.\<close>

definition io_chunk :: "u32 \<Rightarrow> nat \<Rightarrow> nat" where
  "io_chunk off left = min left (BSIZE - unat off mod BSIZE)"

lemma io_chunk_pos: "0 < left \<Longrightarrow> 0 < io_chunk off left"
  by (simp add: io_chunk_def BSIZE_def)

text \<open>The loop of \<open>readi\<close>: the result is \<open>tot\<close> and the bytes moved to \<open>dst\<close>.\<close>

function readi_loop :: "nat \<Rightarrow> iodst \<Rightarrow> u32 \<Rightarrow> nat \<Rightarrow> nat \<Rightarrow> (int \<times> byte list) K" where
  "readi_loop ip dst off left tot =
     (if left = 0 then ret (uint_as_int tot, []) else
      mbind (bmap ip (off div of_nat BSIZE)) (\<lambda>addr.
      if addr = 0 then ret (uint_as_int tot, []) else
      mbind (get_inode ip) (\<lambda>x.
      mbind (bread (i_dev x) addr) (\<lambda>bp.
      mbind (buf_data bp) (\<lambda>d.
      mbind (either_copyout dst (get_bytes (unat off mod BSIZE) (io_chunk off left) d)) (\<lambda>r.
      if r = -1 then
        mbind (brelse bp) (\<lambda>_.
        ret (-1, []))
      else
        mbind (brelse bp) (\<lambda>_.
        mbind (readi_loop ip (dst_adv dst (io_chunk off left)) (off + of_nat (io_chunk off left))
                 (left - io_chunk off left) (tot + io_chunk off left)) (\<lambda>res.
        ret (fst res, get_bytes (unat off mod BSIZE) (io_chunk off left) d @ snd res)))))))))"
  by pat_completeness auto
termination
  by (relation "measure (\<lambda>(_, _, _, left, _). left)") (auto simp: io_chunk_pos)

declare readi_loop.simps [simp del]

definition readi :: "nat \<Rightarrow> iodst \<Rightarrow> u32 \<Rightarrow> u32 \<Rightarrow> (int \<times> byte list) K" where
  "readi ip dst off n =
     mbind (get_inode ip) (\<lambda>x.
     if off > i_size x \<or> off + n < off then ret (0, [])
     else readi_loop ip dst off (unat (if off + n > i_size x then i_size x - off else n)) 0)"

text \<open>The loop of \<open>writei\<close>: \<open>tot\<close> and \<open>off\<close> when it ends.\<close>

function writei_loop :: "nat \<Rightarrow> iosrc \<Rightarrow> u32 \<Rightarrow> nat \<Rightarrow> nat \<Rightarrow> (nat \<times> u32) K" where
  "writei_loop ip src off left tot =
     (if left = 0 then ret (tot, off) else
      mbind (bmap ip (off div of_nat BSIZE)) (\<lambda>addr.
      if addr = 0 then ret (tot, off) else
      mbind (get_inode ip) (\<lambda>x.
      mbind (bread (i_dev x) addr) (\<lambda>bp.
      mbind (either_copyin src (io_chunk off left)) (\<lambda>r.
      mbind (upd_data bp (put_bytes (unat off mod BSIZE) (snd r))) (\<lambda>_.
      if fst r = -1 then
        mbind (brelse bp) (\<lambda>_.
        ret (tot, off))
      else
        mbind (log_write bp) (\<lambda>_.
        mbind (brelse bp) (\<lambda>_.
        writei_loop ip (src_adv src (io_chunk off left)) (off + of_nat (io_chunk off left))
          (left - io_chunk off left) (tot + io_chunk off left)))))))))"
  by pat_completeness auto
termination
  by (relation "measure (\<lambda>(_, _, _, left, _). left)") (auto simp: io_chunk_pos)

declare writei_loop.simps [simp del]

definition writei :: "nat \<Rightarrow> iosrc \<Rightarrow> u32 \<Rightarrow> u32 \<Rightarrow> int K" where
  "writei ip src off n =
     mbind (get_inode ip) (\<lambda>x.
     if off > i_size x \<or> off + n < off then ret (-1)
     else if unat (off + n) > MAXFILE * BSIZE then ret (-1) else
     mbind (writei_loop ip src off (unat n) 0) (\<lambda>res.
     mbind (upd_inode ip (\<lambda>y. if snd res > i_size y then y\<lparr>i_size := snd res\<rparr> else y)) (\<lambda>_.
     mbind (iupdate ip) (\<lambda>_.
     ret (uint_as_int (fst res))))))"

end
