(* ===== verification/Dir.thy ===== *)
theory Dir
  imports Fs
begin

text \<open>
  Directories and path names (the second part of \<open>fs.c\<close>). A directory is a file of 16-byte entries:
  a 16-bit inode number and a name of at most \<open>DIRSIZ\<close> bytes.
\<close>

section \<open>Directory entries\<close>

record dirent =
  de_inum :: u16
  de_name :: "byte list"

definition decode_dirent :: "byte list \<Rightarrow> dirent" where
  "decode_dirent bs = \<lparr>de_inum = get16 0 bs, de_name = get_bytes 2 DIRSIZ bs\<rparr>"

definition encode_dirent :: "dirent \<Rightarrow> byte list" where
  "encode_dirent de = le16 (de_inum de) @ de_name de"

text \<open>The array that a string of at most \<open>n\<close> bytes occupies, as far as \<open>strncmp\<close> and \<open>strncpy\<close> with
  bound \<open>n\<close> look at it.\<close>

definition pad :: "nat \<Rightarrow> byte list \<Rightarrow> byte list" where
  "pad n bs = take n (bs @ replicate n 0)"

definition namecmp :: "byte list \<Rightarrow> byte list \<Rightarrow> int" where
  "namecmp s t = strncmp_l (pad DIRSIZ s) (pad DIRSIZ t)"

text \<open>The values of \<open>off\<close> in the loops over a directory.\<close>

definition dir_offsets :: "u32 \<Rightarrow> u32 list" where
  "dir_offsets sz = map (\<lambda>i. of_nat (16 * i)) [0..<(unat sz + 15) div 16]"

fun dirlookup_loop :: "nat \<Rightarrow> byte list \<Rightarrow> u32 list \<Rightarrow> (nat \<times> u32) option K" where
  "dirlookup_loop dp name [] = ret None"
| "dirlookup_loop dp name (off # offs) =
     mbind (readi dp KernVar off 16) (\<lambda>r.
     if fst r \<noteq> 16 then panic ''dirlookup read'' else
     if de_inum (decode_dirent (snd r)) = 0 then dirlookup_loop dp name offs
     else if namecmp name (de_name (decode_dirent (snd r))) = 0 then
       mbind (get_inode dp) (\<lambda>x.
       mbind (iget (i_dev x) (ucast (de_inum (decode_dirent (snd r))))) (\<lambda>ip.
       ret (Some (ip, off))))
     else dirlookup_loop dp name offs)"

definition dirlookup :: "nat \<Rightarrow> byte list \<Rightarrow> (nat \<times> u32) option K" where
  "dirlookup dp name =
     mbind (get_inode dp) (\<lambda>x.
     if i_type x \<noteq> T_DIR then panic ''dirlookup not DIR''
     else dirlookup_loop dp name (dir_offsets (i_size x)))"

text \<open>The search of \<open>dirlink\<close> for an empty entry: its offset, or the end of the directory.\<close>

fun dirlink_find :: "nat \<Rightarrow> u32 \<Rightarrow> u32 list \<Rightarrow> u32 K" where
  "dirlink_find dp last_off [] = ret last_off"
| "dirlink_find dp last_off (off # offs) =
     mbind (readi dp KernVar off 16) (\<lambda>r.
     if fst r \<noteq> 16 then panic ''dirlink read''
     else if de_inum (decode_dirent (snd r)) = 0 then ret off
     else dirlink_find dp (off + 16) offs)"

definition dirlink :: "nat \<Rightarrow> byte list \<Rightarrow> u32 \<Rightarrow> int K" where
  "dirlink dp name inum =
     mbind (dirlookup dp name) (\<lambda>found.
     case found of
       Some (ip, off) \<Rightarrow>
         mbind (iput ip) (\<lambda>_.
         ret (-1))
     | None \<Rightarrow>
         mbind (get_inode dp) (\<lambda>x.
         mbind (dirlink_find dp 0 (dir_offsets (i_size x))) (\<lambda>off.
         mbind (writei dp (KernBytes (encode_dirent \<lparr>de_inum = ucast inum, de_name = strncpy_l (pad DIRSIZ name)\<rparr>)) off 16) (\<lambda>r.
         if r \<noteq> 16 then ret (-1) else ret 0))))"

section \<open>Paths\<close>

definition slash :: byte where "slash = 0x2f"

text \<open>\<open>skipelem\<close>: the next element, cut to \<open>DIRSIZ\<close> bytes, and the path after it.\<close>

definition skipelem :: "byte list \<Rightarrow> (byte list \<times> byte list) option" where
  "skipelem path0 =
     (let path = dropWhile (\<lambda>c. c = slash) path0 in
      if path = [] then None
      else Some (take DIRSIZ (takeWhile (\<lambda>c. c \<noteq> slash) path),
                 dropWhile (\<lambda>c. c = slash) (dropWhile (\<lambda>c. c \<noteq> slash) path)))"

lemma skipelem_shorter: "skipelem path = Some (name, rest) \<Longrightarrow> length rest < length path"
proof -
  assume s: "skipelem path = Some (name, rest)"
  let ?p = "dropWhile (\<lambda>c. c = slash) path"
  have ne: "?p \<noteq> []" and r: "rest = dropWhile (\<lambda>c. c = slash) (dropWhile (\<lambda>c. c \<noteq> slash) ?p)"
    using s by (auto simp: skipelem_def Let_def split: if_splits)
  have "hd ?p \<noteq> slash" using ne by (rule hd_dropWhile)
  then obtain c cs where p: "?p = c # cs" "c \<noteq> slash" using ne by (cases ?p) auto
  have "rest = dropWhile (\<lambda>c. c = slash) (dropWhile (\<lambda>c. c \<noteq> slash) cs)"
    using r unfolding p(1) using p(2) by simp
  then have "length rest \<le> length cs" by (metis length_dropWhile_le order_trans)
  also have "length cs < length ?p" using p by simp
  also have "length ?p \<le> length path" by (rule length_dropWhile_le)
  finally show ?thesis .
qed

text \<open>The loop of \<open>namex\<close>, with the current inode and the element copied last into \<open>name\<close>.\<close>

function namex_loop :: "nat \<Rightarrow> bool \<Rightarrow> byte list \<Rightarrow> byte list \<Rightarrow> (nat \<times> byte list) option K" where
  "namex_loop ip nparent path name =
     (case skipelem path of
        None \<Rightarrow>
          if nparent then
            mbind (iput ip) (\<lambda>_.
            ret None)
          else ret (Some (ip, name))
      | Some (elem, rest) \<Rightarrow>
          mbind (ilock ip) (\<lambda>_.
          mbind (get_inode ip) (\<lambda>x.
          if i_type x \<noteq> T_DIR then
            mbind (iunlockput ip) (\<lambda>_.
            ret None)
          else if nparent \<and> rest = [] then
            mbind (iunlock ip) (\<lambda>_.
            ret (Some (ip, elem)))
          else
            mbind (dirlookup ip elem) (\<lambda>found.
            case found of
              None \<Rightarrow>
                mbind (iunlockput ip) (\<lambda>_.
                ret None)
            | Some (nxt, off) \<Rightarrow>
                mbind (iunlockput ip) (\<lambda>_.
                namex_loop nxt nparent rest elem)))))"
  by pat_completeness auto
termination
  by (relation "measure (\<lambda>(_, _, path, _). length path)") (auto dest: skipelem_shorter)

declare namex_loop.simps [simp del]

definition namex :: "byte list \<Rightarrow> bool \<Rightarrow> (nat \<times> byte list) option K" where
  "namex path nparent =
     mbind (if path \<noteq> [] \<and> hd path = slash then iget ROOTDEV ROOTINO
            else
              mbind me (\<lambda>p.
              mbind (gets (\<lambda>s. p_cwd (procs s ! p))) (\<lambda>cwd.
              case cwd of None \<Rightarrow> undef ''cwd is null'' | Some i \<Rightarrow> idup i))) (\<lambda>ip.
     namex_loop ip nparent path [])"

definition namei :: "byte list \<Rightarrow> nat option K" where
  "namei path = mbind (namex path False) (\<lambda>r. ret (map_option fst r))"

definition nameiparent :: "byte list \<Rightarrow> (nat \<times> byte list) option K" where
  "nameiparent path = namex path True"

section \<open>Properties of the encodings\<close>

text \<open>Splitting a path into all its elements.\<close>

function path_elems :: "byte list \<Rightarrow> byte list list" where
  "path_elems path = (case skipelem path of None \<Rightarrow> [] | Some (elem, rest) \<Rightarrow> elem # path_elems rest)"
  by pat_completeness auto
termination
  by (relation "measure length") (auto dest: skipelem_shorter)

declare path_elems.simps [simp del]

lemma length_pad [simp]: "length (pad n bs) = n"
  by (simp add: pad_def)

lemma cstr_pad:
  assumes "0 \<notin> set bs"
  shows "cstr (pad n bs) = take n bs"
proof -
  have "cstr (xs @ replicate k 0) = xs" if "0 \<notin> set xs" for xs :: "byte list" and k
    using that by (induction xs) (cases k; auto)+
  moreover have "pad n bs = take n bs @ replicate (n - length bs) 0" by (simp add: pad_def)
  moreover have "0 \<notin> set (take n bs)" using assms by (auto dest: in_set_takeD)
  ultimately show ?thesis by simp
qed

lemma namecmp_eq:
  assumes "0 \<notin> set s" and "0 \<notin> set t"
  shows "namecmp s t = 0 \<longleftrightarrow> take DIRSIZ s = take DIRSIZ t"
  using assms by (simp add: namecmp_def strncmp_l_eq cstr_pad)

end
