(* ===== verification/Ring.thy ===== *)
theory Ring
  imports Prelude
begin

text \<open>
  Ring buffers: an array of \<open>N\<close> bytes with a read position and a number of bytes in use. The pipe,
  the UART's transmit buffer and the console's input buffer are such rings, with counters that only
  grow and wrap around at the width of their type. The locale states what a bounded queue of bytes
  promises; the rings interpret it.
\<close>

section \<open>Rings over natural numbers\<close>

definition ring :: "nat \<Rightarrow> 'b list \<Rightarrow> nat \<Rightarrow> nat \<Rightarrow> 'b list" where
  "ring N d r n = map (\<lambda>i. d ! ((r + i) mod N)) [0..<n]"

lemma length_ring [simp]: "length (ring N d r n) = n"
  by (simp add: ring_def)

lemma nth_ring [simp]: "i < n \<Longrightarrow> ring N d r n ! i = d ! ((r + i) mod N)"
  by (simp add: ring_def)

lemma ring_slots_differ:
  fixes r i n N :: nat
  assumes "i < n" and "n < N"
  shows "(r + i) mod N \<noteq> (r + n) mod N"
proof
  assume "(r + i) mod N = (r + n) mod N"
  then have "N dvd (r + n) - (r + i)" using assms by (metis mod_eq_dvd_iff_nat add_le_mono less_imp_le le_refl)
  then have "N dvd n - i" by simp
  then show False using assms by (auto dest: dvd_imp_le)
qed

lemma ring_put:
  assumes "length d = N" and "n < N"
  shows "ring N (d[(r + n) mod N := b]) r (Suc n) = ring N d r n @ [b]"
proof (rule nth_equalityI)
  fix i assume "i < length (ring N (d[(r + n) mod N := b]) r (Suc n))"
  then have i: "i < Suc n" by simp
  have N: "0 < N" using assms by simp
  show "ring N (d[(r + n) mod N := b]) r (Suc n) ! i = (ring N d r n @ [b]) ! i"
  proof (cases "i = n")
    case True
    then show ?thesis using i N assms by (simp add: nth_append)
  next
    case False
    then have "i < n" using i by simp
    then have "(r + n) mod N \<noteq> (r + i) mod N" using ring_slots_differ[of i n N r] assms(2) by simp
    then show ?thesis using \<open>i < n\<close> by (simp add: nth_append nth_list_update_neq)
  qed
qed simp

lemma ring_get: "0 < n \<Longrightarrow> ring N d r n = d ! (r mod N) # ring N d (Suc r) (n - 1)"
  by (rule nth_equalityI) (auto simp: nth_Cons')

lemma ring_cong: "r mod N = r' mod N \<Longrightarrow> ring N d r n = ring N d r' n"
proof -
  assume "r mod N = r' mod N"
  then have "(r + i) mod N = (r' + i) mod N" for i by (rule mod_add_cong) simp
  then show ?thesis by (simp add: ring_def)
qed

lemma ring_append: "ring N d r (n + k) = ring N d r n @ ring N d (r + n) k"
  by (rule nth_equalityI) (auto simp: nth_append add.assoc)

lemma ring_put_other:
  assumes "k \<le> n" and "n < N"
  shows "ring N (d[(r + n) mod N := b]) r k = ring N d r k"
proof (rule nth_equalityI; simp)
  fix i assume "i < k"
  then have "(r + n) mod N \<noteq> (r + i) mod N" using ring_slots_differ[of i n N r] assms by simp
  then show "d[(r + n) mod N := b] ! ((r + i) mod N) = d ! ((r + i) mod N)" by (rule nth_list_update_neq)
qed

text \<open>Counters that wrap around at a multiple of \<open>N\<close> still index the right slot.\<close>

lemma wrap_index:
  assumes "N dvd 2 ^ LENGTH('a::len)"
  shows "unat ((r :: 'a word) + of_nat i) mod N = (unat r + i) mod N"
proof -
  have "unat (r + of_nat i) mod N = ((unat r + i mod 2 ^ LENGTH('a)) mod 2 ^ LENGTH('a)) mod N"
    by (simp add: unat_word_ariths unsigned_of_nat take_bit_eq_mod)
  also have "\<dots> = (unat r + i) mod N" using assms by (simp add: mod_add_right_eq mod_mod_cancel)
  finally show ?thesis .
qed

lemma counter_next:
  assumes "w = r + of_nat n" and "n < 2 ^ LENGTH('a) - 1"
  shows "unat (w + 1 - r) = Suc (unat (w - (r :: 'a::len word)))"
proof -
  have n: "unat (of_nat n :: 'a word) = n" using assms(2) by (simp add: unsigned_of_nat take_bit_nat_eq_self)
  have "w + 1 - r = of_nat (Suc n)" using assms(1) by simp
  moreover have "unat (of_nat (Suc n) :: 'a word) = Suc n"
    using assms(2) by (simp only: unsigned_of_nat) (simp add: take_bit_nat_eq_self)
  ultimately show ?thesis using n assms(1) by (simp add: add.commute)
qed

lemma counter_read:
  assumes "w \<noteq> (r :: 'a::len word)"
  shows "unat (w - (r + 1)) = unat (w - r) - 1" and "0 < unat (w - r)"
proof -
  have nz: "w - r \<noteq> 0" using assms by simp
  show "unat (w - (r + 1)) = unat (w - r) - 1" using unat_minus_one[OF nz] by (simp only: diff_diff_eq)
  show "0 < unat (w - r)" using nz by (simp add: unat_gt_0)
qed

lemma counter_empty: "w = (r :: 'a::len word) \<longleftrightarrow> unat (w - r) = 0"
  by (simp add: unat_eq_0)

text \<open>Reading and writing through wrapping counters.\<close>

lemma ring_write:
  assumes N: "N dvd 2 ^ LENGTH('a::len)" "N < 2 ^ LENGTH('a) - 1" and "length d = N"
    and n: "unat (w - (r :: 'a word)) < N"
  shows "ring N (d[unat w mod N := b]) (unat r) (unat (w + 1 - r)) = ring N d (unat r) (unat (w - r)) @ [b]"
    and "unat (w + 1 - r) = Suc (unat (w - r))"
proof -
  have w: "w = r + of_nat (unat (w - r))" by simp
  show c: "unat (w + 1 - r) = Suc (unat (w - r))" using counter_next[OF w] n N(2) by simp
  have "unat w mod N = (unat r + unat (w - r)) mod N" using wrap_index[OF N(1), of r "unat (w - r)"] by simp
  then show "ring N (d[unat w mod N := b]) (unat r) (unat (w + 1 - r)) = ring N d (unat r) (unat (w - r)) @ [b]"
    using ring_put[OF assms(3) n, of "unat r" b] by (simp only: c)
qed

lemma ring_read:
  assumes N: "N dvd 2 ^ LENGTH('a::len)" and "w \<noteq> (r :: 'a word)"
  shows "ring N d (unat r) (unat (w - r)) = d ! (unat r mod N) # ring N d (unat (r + 1)) (unat (w - (r + 1)))"
proof -
  have "unat (r + 1) mod N = Suc (unat r) mod N" using wrap_index[OF N, of r 1] by simp
  then have "ring N d (Suc (unat r)) k = ring N d (unat (r + 1)) k" for k by (intro ring_cong) simp
  then show ?thesis using ring_get[OF counter_read(2)[OF assms(2)], of N d "unat r"] counter_read(1)[OF assms(2)] by simp
qed

section \<open>Queues of bytes\<close>

locale byte_queue =
  fixes inv :: "'q \<Rightarrow> bool"
    and contents :: "'q \<Rightarrow> byte list"
    and put :: "byte \<Rightarrow> 'q \<Rightarrow> 'q"
    and front :: "'q \<Rightarrow> byte"
    and advance :: "'q \<Rightarrow> 'q"
    and cap :: nat
  assumes put_law: "inv q \<Longrightarrow> length (contents q) < cap \<Longrightarrow> inv (put b q) \<and> contents (put b q) = contents q @ [b]"
    and get_law: "inv q \<Longrightarrow> contents q \<noteq> [] \<Longrightarrow>
      inv (advance q) \<and> contents q = front q # contents (advance q)"
    and bound: "inv q \<Longrightarrow> length (contents q) \<le> cap"
begin

text \<open>Bytes come out in the order in which they were put in.\<close>

lemma put_many:
  assumes "inv q" and "length (contents q) + length bs \<le> cap"
  shows "inv (fold put bs q) \<and> contents (fold put bs q) = contents q @ bs"
  using assms
proof (induction bs arbitrary: q)
  case (Cons b bs)
  then have "inv (put b q)" "contents (put b q) = contents q @ [b]" using put_law by auto
  then show ?case using Cons.IH[of "put b q"] Cons.prems by simp
qed simp

lemma get_many:
  assumes "inv q" and "n \<le> length (contents q)"
  shows "inv ((advance ^^ n) q) \<and> contents ((advance ^^ n) q) = drop n (contents q)"
  using assms
proof (induction n)
  case (Suc n)
  then have "inv ((advance ^^ n) q)" "contents ((advance ^^ n) q) = drop n (contents q)" by auto
  moreover from this have "contents ((advance ^^ n) q) \<noteq> []" using Suc.prems by simp
  ultimately show ?case using get_law[of "(advance ^^ n) q"] by (metis comp_apply drop_Suc funpow.simps(2) list.sel(3) tl_drop)
qed simp

lemma first_in_first_out:
  assumes "inv q" and "length (contents q) + length bs \<le> cap"
  shows "contents ((advance ^^ length (contents q)) (fold put bs q)) = bs"
  using put_many[OF assms] get_many[of "fold put bs q" "length (contents q)"] by simp

end

end
