(* ===== verification/Uart.thy ===== *)
theory Uart
  imports Sched Ring
begin

text \<open>
  The UART driver (\<open>uart.c\<close>): the interrupt-driven transmit ring and the polled output path. The
  ring refines a queue of bytes waiting to be sent.
\<close>

definition UART_TX_BUF_SIZE :: nat where "UART_TX_BUF_SIZE = 32"

definition upd_uart :: "(uartdev \<Rightarrow> uartdev) \<Rightarrow> unit K" where
  "upd_uart f = modify (\<lambda>s. s\<lparr>uart := f (uart s)\<rparr>)"

text \<open>\<open>WriteReg(THR, c)\<close>: the byte leaves and the transmitter has room for one byte less.\<close>

definition write_thr :: "byte \<Rightarrow> unit K" where
  "write_thr c = modify (\<lambda>s. s\<lparr>uart_out := uart_out s @ [c], uart := (uart s)\<lparr>u_room := u_room (uart s) - 1\<rparr>\<rparr>)"

text \<open>\<open>uartputc_sync\<close> waits until the transmitter is idle, so the byte always leaves.\<close>

definition uartputc_sync :: "int \<Rightarrow> unit K" where
  "uartputc_sync c = write_thr (word_of_int c)"

text \<open>The loop of \<open>uartstart\<close>; the bound is the number of buffered bytes, and every pass removes
  one.\<close>

primrec uartstart_loop :: "nat \<Rightarrow> unit K" where
  "uartstart_loop 0 = ret ()"
| "uartstart_loop (Suc k) =
     mbind (gets uart) (\<lambda>u.
     if u_tx_w u = u_tx_r u then ret ()
     else if u_room u = 0 then ret ()
     else
       mbind (upd_uart (\<lambda>u. u\<lparr>u_tx_r := u_tx_r u + 1\<rparr>)) (\<lambda>_.
       mbind (wakeup C_uart_tx_r) (\<lambda>_.
       mbind (write_thr (u_tx_buf u ! (unat (u_tx_r u) mod UART_TX_BUF_SIZE))) (\<lambda>_.
       uartstart_loop k))))"

definition uartstart :: "unit K" where
  "uartstart = mbind (gets uart) (\<lambda>u. uartstart_loop (Suc (unat (u_tx_w u - u_tx_r u))))"

definition uartputc :: "int \<Rightarrow> unit K" where
  "uartputc c =
     mbind (acquire L_uart) (\<lambda>_.
     mbind (gets uart) (\<lambda>u.
     if u_tx_w u = u_tx_r u + of_nat UART_TX_BUF_SIZE then sleep C_uart_tx_r L_uart
     else
       mbind (upd_uart (\<lambda>u. u\<lparr>u_tx_buf := (u_tx_buf u)[unat (u_tx_w u) mod UART_TX_BUF_SIZE := word_of_int c],
                              u_tx_w := u_tx_w u + 1\<rparr>)) (\<lambda>_.
       mbind uartstart (\<lambda>_.
       release L_uart))))"

definition uartgetc :: "int K" where
  "uartgetc =
     mbind (gets uart) (\<lambda>u.
     case u_rx u of
       [] \<Rightarrow> ret (-1)
     | c # cs \<Rightarrow>
         mbind (upd_uart (\<lambda>u. u\<lparr>u_rx := cs\<rparr>)) (\<lambda>_.
         ret (uint c)))"

section \<open>The transmit ring as a queue\<close>

definition tx_inv :: "uartdev \<Rightarrow> bool" where
  "tx_inv u \<longleftrightarrow> length (u_tx_buf u) = UART_TX_BUF_SIZE \<and> unat (u_tx_w u - u_tx_r u) \<le> UART_TX_BUF_SIZE"

definition tx_pending :: "uartdev \<Rightarrow> byte list" where
  "tx_pending u = ring UART_TX_BUF_SIZE (u_tx_buf u) (unat (u_tx_r u)) (unat (u_tx_w u - u_tx_r u))"

definition tx_put :: "byte \<Rightarrow> uartdev \<Rightarrow> uartdev" where
  "tx_put b u = u\<lparr>u_tx_buf := (u_tx_buf u)[unat (u_tx_w u) mod UART_TX_BUF_SIZE := b], u_tx_w := u_tx_w u + 1\<rparr>"

definition tx_head :: "uartdev \<Rightarrow> byte" where
  "tx_head u = u_tx_buf u ! (unat (u_tx_r u) mod UART_TX_BUF_SIZE)"

definition tx_skip :: "uartdev \<Rightarrow> uartdev" where
  "tx_skip u = u\<lparr>u_tx_r := u_tx_r u + 1\<rparr>"

lemma tx_empty_iff: "u_tx_w u = u_tx_r u \<longleftrightarrow> tx_pending u = []"
proof -
  have "u_tx_w u = u_tx_r u \<longleftrightarrow> length (tx_pending u) = 0"
    using counter_empty[of "u_tx_w u" "u_tx_r u"] by (simp add: tx_pending_def)
  then show ?thesis by simp
qed

lemma tx_full_iff: "u_tx_w u = u_tx_r u + of_nat UART_TX_BUF_SIZE \<longleftrightarrow> length (tx_pending u) = UART_TX_BUF_SIZE"
proof -
  have "u_tx_w u = u_tx_r u + of_nat UART_TX_BUF_SIZE \<longleftrightarrow> u_tx_w u - u_tx_r u = of_nat UART_TX_BUF_SIZE"
    by (auto simp: algebra_simps)
  also have "\<dots> \<longleftrightarrow> unat (u_tx_w u - u_tx_r u) = UART_TX_BUF_SIZE"
    by (simp add: word_unat_eq_iff UART_TX_BUF_SIZE_def)
  finally show ?thesis by (simp add: tx_pending_def)
qed

interpretation tx: byte_queue tx_inv tx_pending tx_put tx_head tx_skip UART_TX_BUF_SIZE
proof
  fix q b assume inv: "tx_inv q" and "length (tx_pending q) < UART_TX_BUF_SIZE"
  then have n: "unat (u_tx_w q - u_tx_r q) < UART_TX_BUF_SIZE" by (simp add: tx_pending_def)
  have "tx_pending (tx_put b q) = tx_pending q @ [b]"
    using ring_write(1)[where d = "u_tx_buf q" and b = b, OF _ _ _ n] inv
    by (simp add: tx_pending_def tx_put_def tx_inv_def UART_TX_BUF_SIZE_def)
  moreover have "unat (u_tx_w q + 1 - u_tx_r q) = Suc (unat (u_tx_w q - u_tx_r q))"
    using ring_write(2)[where d = "u_tx_buf q", OF _ _ _ n] inv by (simp add: tx_inv_def UART_TX_BUF_SIZE_def)
  ultimately show "tx_inv (tx_put b q) \<and> tx_pending (tx_put b q) = tx_pending q @ [b]"
    using inv n by (simp add: tx_inv_def tx_put_def)
next
  fix q assume inv: "tx_inv q" and ne: "tx_pending q \<noteq> []"
  have w: "u_tx_w q \<noteq> u_tx_r q" using ne tx_empty_iff by metis
  have "tx_pending q = tx_head q # tx_pending (tx_skip q)"
    using ring_read[of UART_TX_BUF_SIZE, OF _ w, of "u_tx_buf q"]
    by (simp add: tx_pending_def tx_head_def tx_skip_def UART_TX_BUF_SIZE_def)
  then show "tx_inv (tx_skip q) \<and> tx_pending q = tx_head q # tx_pending (tx_skip q)"
    using inv counter_read(1)[OF w] by (auto simp: tx_inv_def tx_skip_def)
next
  fix q assume "tx_inv q"
  then show "length (tx_pending q) \<le> UART_TX_BUF_SIZE" by (simp add: tx_inv_def tx_pending_def)
qed

text \<open>Everything handed to the driver, in order: what has left and what waits in the ring.\<close>

definition tx_stream :: "kstate \<Rightarrow> byte list" where
  "tx_stream s = uart_out s @ tx_pending (uart s)"

definition uart_run :: "kstate \<Rightarrow> bool" where
  "uart_run s \<longleftrightarrow> no_proc_locks s \<and> length (procs s) = NPROC \<and> tx_inv (uart s)"

lemma uartstart_loop_ok:
  assumes "uart_run s" and "length (tx_pending (uart s)) < k"
  shows "\<exists>u out ps. uartstart_loop k s = Ok () (s\<lparr>uart := u, uart_out := out, procs := ps\<rparr>) \<and>
    tx_inv u \<and> length ps = NPROC \<and> out @ tx_pending u = tx_stream s \<and> (tx_pending u = [] \<or> u_room u = 0)"
  using assms
proof (induction k arbitrary: s)
  case (Suc k)
  let ?u = "uart s"
  show ?case
  proof (cases "tx_pending ?u = [] \<or> u_room ?u = 0")
    case True
    then have "uartstart_loop (Suc k) s = Ok () (s\<lparr>uart := ?u, uart_out := uart_out s, procs := procs s\<rparr>)"
      using tx_empty_iff[of ?u] by auto
    then show ?thesis using Suc(2) True by (intro exI) (auto simp: uart_run_def tx_stream_def)
  next
    case False
    let ?u1 = "tx_skip ?u" and ?ps = "wake C_uart_tx_r (curproc s) (procs s)"
    let ?t = "s\<lparr>procs := ?ps, uart_out := uart_out s @ [tx_head ?u], uart := ?u1\<lparr>u_room := u_room ?u - 1\<rparr>\<rparr>"
    have inv: "tx_inv ?u1" and c: "tx_pending ?u = tx_head ?u # tx_pending ?u1"
      using tx.get_law[of ?u] Suc(2) False by (simp_all add: uart_run_def)
    have room: "tx_inv (u\<lparr>u_room := n\<rparr>) = tx_inv u" "tx_pending (u\<lparr>u_room := n\<rparr>) = tx_pending u" for u n
      by (simp_all add: tx_inv_def tx_pending_def)
    have "wakeup C_uart_tx_r (s\<lparr>uart := ?u1\<rparr>) = Ok () (s\<lparr>uart := ?u1, procs := ?ps\<rparr>)"
      using wakeup_Ok[of "s\<lparr>uart := ?u1\<rparr>"] Suc(2) by (simp add: uart_run_def no_proc_locks_def)
    then have step: "uartstart_loop (Suc k) s = uartstart_loop k ?t"
      using False tx_empty_iff[of ?u] by (simp add: upd_uart_def write_thr_def tx_head_def tx_skip_def)
    have run: "uart_run ?t" using Suc(2) inv by (simp add: uart_run_def no_proc_locks_def room)
    have len: "length (tx_pending (uart ?t)) < k" using Suc(3) c by (simp add: room)
    have str: "tx_stream ?t = tx_stream s" using c by (simp add: tx_stream_def room)
    show ?thesis using Suc.IH[OF run len] unfolding step str by simp
  qed
qed simp

lemma uartstart_ok:
  assumes "uart_run s"
  shows "\<exists>u out ps. uartstart s = Ok () (s\<lparr>uart := u, uart_out := out, procs := ps\<rparr>) \<and>
    tx_inv u \<and> length ps = NPROC \<and> out @ tx_pending u = tx_stream s \<and> (tx_pending u = [] \<or> u_room u = 0)"
  using uartstart_loop_ok[OF assms, of "Suc (unat (u_tx_w (uart s) - u_tx_r (uart s)))"]
  by (simp add: uartstart_def tx_pending_def)

section \<open>Properties\<close>



end
