(* ===== verification/Printf.thy ===== *)
theory Printf
  imports Uart CString
begin

text \<open>
  Console output of the kernel: \<open>consputc\<close> (\<open>console.c\<close>) and \<open>printf.c\<close>. Variadic arguments are a
  list; reading an argument of the wrong type, or one past the end, is undefined, as in C.
\<close>

definition BACKSPACE :: int where "BACKSPACE = 0x100"

definition consputc :: "int \<Rightarrow> unit K" where
  "consputc c =
     (if c = BACKSPACE then
        mbind (uartputc_sync 8) (\<lambda>_.
        mbind (uartputc_sync 32) (\<lambda>_.
        uartputc_sync 8))
      else uartputc_sync c)"

definition digits :: "byte list" where
  "digits = map of_char ''0123456789abcdef''"

text \<open>The digits of \<open>x\<close>, least significant first: the contents of \<open>buf\<close> after the first loop of
  \<open>printint\<close>.\<close>

function digit_list :: "nat \<Rightarrow> nat \<Rightarrow> byte list" where
  "digit_list base x =
     digits ! (x mod base) # (if 1 < base \<and> x div base \<noteq> 0 then digit_list base (x div base) else [])"
  by pat_completeness auto
termination
  by (relation "measure snd") (auto simp: div_greater_zero_iff intro!: div_less_dividend)

declare digit_list.simps [simp del]

definition printint_buf :: "u64 \<Rightarrow> nat \<Rightarrow> bool \<Rightarrow> byte list" where
  "printint_buf xx base sign =
     (let neg = sign \<and> sint xx < 0;
          x = (if neg then - xx else xx)
      in digit_list base (unat x) @ (if neg then [of_char (CHR ''-'')] else []))"

definition printint :: "u64 \<Rightarrow> nat \<Rightarrow> bool \<Rightarrow> unit K" where
  "printint xx base sign =
     (let buf = printint_buf xx base sign
      in if length buf > 16 then undef ''printint: buf''
         else for_each (rev buf) (\<lambda>c. consputc (uint c)))"

definition printptr :: "u64 \<Rightarrow> unit K" where
  "printptr x =
     mbind (consputc (of_char (CHR ''0''))) (\<lambda>_.
     mbind (consputc (of_char (CHR ''x''))) (\<lambda>_.
     for_each [0..<16] (\<lambda>i.
       consputc (uint (digits ! unat (drop_bit 60 (push_bit (4 * i) x)))))))"

datatype varg = VInt u32 | VLong u64 | VStr "byte list option"

fun va_int :: "varg list \<Rightarrow> (u64 \<times> varg list) option" where
  "va_int (VInt w # ap) = Some (scast w, ap)"
| "va_int _ = None"

fun va_long :: "varg list \<Rightarrow> (u64 \<times> varg list) option" where
  "va_long (VLong w # ap) = Some (w, ap)"
| "va_long _ = None"

fun va_str :: "varg list \<Rightarrow> (byte list \<times> varg list) option" where
  "va_str (VStr (Some s) # ap) = Some (s, ap)"
| "va_str (VStr None # ap) = Some (map of_char ''(null)'', ap)"
| "va_str _ = None"

text \<open>The conversion specifications that \<open>printf\<close> recognises after a percent sign, with the number
  of format bytes they take.\<close>

datatype conv =
    CInt nat bool
  | CLong nat bool
  | CPtr
  | CStr
  | CPercent
  | CEnd
  | CUnknown byte

definition chr :: "char \<Rightarrow> byte" where
  "chr c = of_char c"

definition conv_of :: "byte list \<Rightarrow> conv \<times> nat" where
  "conv_of fmt =
     (let c0 = (if fmt = [] then 0 else hd fmt);
          c1 = (if length fmt < 2 then 0 else fmt ! 1);
          c2 = (if length fmt < 3 then 0 else fmt ! 2)
      in if c0 = chr (CHR ''d'') then (CInt 10 True, 1)
         else if c0 = chr (CHR ''l'') \<and> c1 = chr (CHR ''d'') then (CLong 10 True, 2)
         else if c0 = chr (CHR ''l'') \<and> c1 = chr (CHR ''l'') \<and> c2 = chr (CHR ''d'') then (CLong 10 True, 3)
         else if c0 = chr (CHR ''u'') then (CInt 10 False, 1)
         else if c0 = chr (CHR ''l'') \<and> c1 = chr (CHR ''u'') then (CLong 10 False, 2)
         else if c0 = chr (CHR ''l'') \<and> c1 = chr (CHR ''l'') \<and> c2 = chr (CHR ''u'') then (CLong 10 False, 3)
         else if c0 = chr (CHR ''x'') then (CInt 16 False, 1)
         else if c0 = chr (CHR ''l'') \<and> c1 = chr (CHR ''x'') then (CLong 16 False, 2)
         else if c0 = chr (CHR ''l'') \<and> c1 = chr (CHR ''l'') \<and> c2 = chr (CHR ''x'') then (CLong 16 False, 3)
         else if c0 = chr (CHR ''p'') then (CPtr, 1)
         else if c0 = chr (CHR ''s'') then (CStr, 1)
         else if c0 = chr (CHR ''%'') then (CPercent, 1)
         else if c0 = 0 then (CEnd, 0)
         else (CUnknown c0, 1))"

text \<open>One conversion: print it and return the remaining arguments.\<close>

fun print_conv :: "conv \<Rightarrow> varg list \<Rightarrow> varg list K" where
  "print_conv (CInt base sign) ap =
     (case va_int ap of None \<Rightarrow> undef ''va_arg'' | Some (x, ap') \<Rightarrow> mbind (printint x base sign) (\<lambda>_. ret ap'))"
| "print_conv (CLong base sign) ap =
     (case va_long ap of None \<Rightarrow> undef ''va_arg'' | Some (x, ap') \<Rightarrow> mbind (printint x base sign) (\<lambda>_. ret ap'))"
| "print_conv CPtr ap =
     (case va_long ap of None \<Rightarrow> undef ''va_arg'' | Some (x, ap') \<Rightarrow> mbind (printptr x) (\<lambda>_. ret ap'))"
| "print_conv CStr ap =
     (case va_str ap of None \<Rightarrow> undef ''va_arg''
      | Some (str, ap') \<Rightarrow> mbind (for_each (cstr str) (\<lambda>c. consputc (uint c))) (\<lambda>_. ret ap'))"
| "print_conv CPercent ap = mbind (consputc (of_char (CHR ''%''))) (\<lambda>_. ret ap)"
| "print_conv CEnd ap = ret ap"
| "print_conv (CUnknown c) ap =
     mbind (consputc (of_char (CHR ''%''))) (\<lambda>_.
     mbind (consputc (uint c)) (\<lambda>_.
     ret ap))"

function printf_loop :: "byte list \<Rightarrow> varg list \<Rightarrow> unit K" where
  "printf_loop [] ap = ret ()"
| "printf_loop (cx # fmt) ap =
     (if cx = 0 then ret ()
      else if cx \<noteq> chr (CHR ''%'') then
        mbind (consputc (uint cx)) (\<lambda>_.
        printf_loop fmt ap)
      else if fst (conv_of fmt) = CEnd then ret ()
      else
        mbind (print_conv (fst (conv_of fmt)) ap) (\<lambda>ap'.
        printf_loop (drop (snd (conv_of fmt)) fmt) ap'))"
  by pat_completeness auto
termination
  by (relation "measure (\<lambda>(fmt, _). length fmt)") auto

declare printf_loop.simps [simp del]

text \<open>\<open>printf\<close> once \<open>printfinit\<close> has set \<open>pr.locking\<close>.\<close>

definition printf :: "byte list \<Rightarrow> varg list \<Rightarrow> int K" where
  "printf fmt ap =
     mbind (acquire L_pr) (\<lambda>_.
     mbind (printf_loop fmt ap) (\<lambda>_.
     mbind (release L_pr) (\<lambda>_.
     ret 0)))"

section \<open>What printint prints\<close>

lemma length_digit_list:
  assumes "1 < b"
  shows "length (digit_list b x) \<le> Suc k \<longleftrightarrow> x < b ^ Suc k"
proof (induction k arbitrary: x)
  case 0
  have "x div b = 0 \<longleftrightarrow> x < b" using assms by (simp add: div_eq_0_iff)
  then show ?case using assms by (subst digit_list.simps) (simp add: digit_list.simps[of b "x div b"])
next
  case (Suc k)
  have "x < b ^ Suc (Suc k) \<longleftrightarrow> x div b < b ^ Suc k" using assms by (simp add: div_less_iff_less_mult algebra_simps)
  moreover have "0 < b ^ Suc k" using assms by simp
  ultimately show ?case using Suc.IH[of "x div b"] assms by (subst digit_list.simps) auto
qed

text \<open>Reading a numeral back, the most significant digit first.\<close>

definition digit_val :: "byte \<Rightarrow> nat" where
  "digit_val c = (if c \<ge> 97 then unat c - 87 else unat c - 48)"

definition numeral_val :: "nat \<Rightarrow> byte list \<Rightarrow> nat" where
  "numeral_val b cs = foldl (\<lambda>v c. v * b + digit_val c) 0 cs"

lemma digit_val_digits:
  assumes "i < 16"
  shows "digit_val (digits ! i) = i"
proof -
  have "\<forall>i \<in> set [0..<16]. digit_val (digits ! i) = i" by code_simp
  then show ?thesis using assms by simp
qed

lemma numeral_val_snoc: "numeral_val b (cs @ [c]) = numeral_val b cs * b + digit_val c"
  by (simp add: numeral_val_def)

lemma numeral_digit_list:
  "1 < b \<Longrightarrow> b \<le> 16 \<Longrightarrow> numeral_val b (rev (digit_list b x)) = x"
proof (induction b x rule: digit_list.induct)
  case (1 b x)
  have d: "digit_val (digits ! (x mod b)) = x mod b"
    using 1 by (intro digit_val_digits) (meson mod_less_divisor order_less_le_trans less_trans zero_less_one)
  show ?case
  proof (cases "x div b = 0")
    case True
    then have "x < b" using 1 by (simp add: div_eq_0_iff)
    then show ?thesis using d by (subst digit_list.simps) (simp add: numeral_val_def)
  next
    case False
    then show ?thesis using d 1 by (subst digit_list.simps) (simp add: numeral_val_snoc)
  qed
qed

text \<open>A decimal numeral, with a minus sign in front when it is negative.\<close>

definition int_numeral :: "byte list \<Rightarrow> int" where
  "int_numeral cs = (if cs \<noteq> [] \<and> hd cs = 45 then - int (numeral_val 10 (tl cs)) else int (numeral_val 10 cs))"

lemma consputc_bytes:
  "\<exists>t. for_each cs (\<lambda>c. consputc (uint c)) s = Ok () t \<and> uart_out t = uart_out s @ cs"
proof (induction cs arbitrary: s)
  case (Cons c cs)
  have "uint c < 256" using uint_bounded[of c] by simp
  then have "consputc (uint c) s = write_thr c s" by (simp add: consputc_def uartputc_sync_def BACKSPACE_def)
  then show ?case using Cons by (force simp: write_thr_def)
qed simp

lemma sint_mod: "uint (x :: u64) = sint x mod 2 ^ 64"
proof -
  have "uint (word_of_int (sint x) :: u64) = sint x mod 2 ^ 64" by (subst uint_word_of_int) simp
  then show ?thesis by simp
qed

lemma uint_nonneg: "0 \<le> sint (x :: u64) \<Longrightarrow> uint x = sint x"
  using sint_mod[of x] sint_lt[of x] by simp

lemma uint_magnitude: "sint (x :: u64) < 0 \<Longrightarrow> uint (- x) = - sint x"
proof -
  assume n: "sint x < 0"
  have "uint (- x) = - uint x mod 2 ^ 64" by (simp add: uint_word_ariths)
  also have "\<dots> = - sint x mod 2 ^ 64" by (simp add: sint_mod mod_minus_eq)
  finally show ?thesis using n sint_ge[of x] by simp
qed

lemma digit_list_head: "1 < b \<Longrightarrow> b \<le> 16 \<Longrightarrow> hd (rev (digit_list b x)) \<noteq> 45"
proof (induction b x rule: digit_list.induct)
  case (1 b x)
  have "\<forall>i \<in> set [0..<16]. digits ! i \<noteq> 45" by code_simp
  then have d: "digits ! (x mod b) \<noteq> 45" using 1 by (simp add: order_less_le_trans[OF mod_less_divisor])
  have ne: "digit_list b y \<noteq> []" for y by (subst digit_list.simps) simp
  show ?case using 1 d ne by (subst digit_list.simps) (auto simp: hd_append)
qed

lemma printint_buf_numeral:
  "int_numeral (rev (printint_buf x 10 sign)) = (if sign then sint x else uint x)"
proof (cases "sign \<and> sint x < 0")
  case True
  then have "int (unat (- x)) = - sint x" using uint_magnitude[of x] by simp
  then show ?thesis using True
    by (simp add: printint_buf_def int_numeral_def numeral_digit_list del: of_nat_unat)
next
  case False
  have "int (unat x) = (if sign then sint x else uint x)" using False uint_nonneg[of x] by auto
  moreover have "hd (rev (digit_list 10 (unat x))) \<noteq> 45" by (simp add: digit_list_head)
  ultimately show ?thesis using False
    by (auto simp: printint_buf_def int_numeral_def numeral_digit_list simp del: of_nat_unat)
qed

lemma printint_buf_length:
  "length (printint_buf x 10 sign) \<le> 16 \<longleftrightarrow>
     - (10 ^ 15) < (if sign then sint x else uint x) \<and> (if sign then sint x else uint x) < 10 ^ 16"
proof (cases "sign \<and> sint x < 0")
  case True
  have "length (printint_buf x 10 sign) \<le> 16 \<longleftrightarrow> unat (- x) < 10 ^ 15"
    using True length_digit_list[of 10 "unat (- x)" 14] by (simp add: printint_buf_def)
  also have "\<dots> \<longleftrightarrow> int (unat (- x)) < int (10 ^ 15)" by (simp only: of_nat_less_iff)
  finally show ?thesis using True uint_magnitude[of x] by auto
next
  case False
  have "length (printint_buf x 10 sign) \<le> 16 \<longleftrightarrow> unat x < 10 ^ 16"
    using False length_digit_list[of 10 "unat x" 15] by (auto simp: printint_buf_def Let_def)
  also have "\<dots> \<longleftrightarrow> int (unat x) < int (10 ^ 16)" by (simp only: of_nat_less_iff)
  finally show ?thesis using False uint_nonneg[of x] order_less_le_trans[of "- (10 ^ 15)" 0 "uint x"] by auto
qed

text \<open>
  C29: \<open>printint\<close> in base 10 sends a numeral of its argument to the console, read as signed or
  unsigned as the caller asks, exactly when the numeral has at most the 16 characters of \<open>buf\<close>: from
  \<open>-10^15 + 1\<close> to \<open>10^16 - 1\<close>, which holds for every 32-bit argument. Outside of it, which \<open>%ld\<close> and
  \<open>%lu\<close> reach, it writes past the end of \<open>buf\<close>.
\<close>
theorem printint_decimal:
  "let v = (if sign then sint x else uint x) in
   if - (10 ^ 15) < v \<and> v < 10 ^ 16
   then \<exists>cs t. printint x 10 sign s = Ok () t \<and> uart_out t = uart_out s @ cs \<and> int_numeral cs = v
   else printint x 10 sign s = Undef ''printint: buf''"
proof (cases "length (printint_buf x 10 sign) \<le> 16")
  case True
  then show ?thesis
    using consputc_bytes[of "rev (printint_buf x 10 sign)" s] printint_buf_length[of x sign]
      printint_buf_numeral[of x sign] by (auto simp: printint_def Let_def)
next
  case False
  then show ?thesis using printint_buf_length[of x sign] by (auto simp: printint_def Let_def)
qed

end
