(* ===== verification/Console.thy ===== *)
theory Console
  imports Printf Vm
begin

text \<open>
  Console input and output (\<open>console.c\<close>), the UART interrupt handler (\<open>uart.c\<close>) and the process
  listing it can trigger (\<open>procdump\<close> of \<open>proc.c\<close>). The input buffer is a ring with three indices:
  bytes between \<open>r\<close> and \<open>w\<close> are complete lines waiting to be read, bytes between \<open>w\<close> and \<open>e\<close> are
  still being edited.
\<close>

definition INPUT_BUF_SIZE :: nat where "INPUT_BUF_SIZE = 128"

definition upd_cons :: "(consbuf \<Rightarrow> consbuf) \<Rightarrow> unit K" where
  "upd_cons f = modify (\<lambda>s. s\<lparr>cons := f (cons s)\<rparr>)"

definition cons_at :: "consbuf \<Rightarrow> u32 \<Rightarrow> byte" where
  "cons_at c i = cons_buf c ! (unat i mod INPUT_BUF_SIZE)"

section \<open>Listing processes\<close>

fun state_name :: "procstate \<Rightarrow> string" where
  "state_name UNUSED = ''unused''"
| "state_name USED = ''used''"
| "state_name SLEEPING = ''sleep ''"
| "state_name RUNNABLE = ''runble''"
| "state_name RUNNING = ''run   ''"
| "state_name ZOMBIE = ''zombie''"

definition bytes_of :: "string \<Rightarrow> byte list" where
  "bytes_of str = map of_char str"

definition procdump :: "unit K" where
  "procdump =
     mbind (printf (bytes_of ''\<newline>'') []) (\<lambda>_.
     for_each [0..<NPROC] (\<lambda>p.
       mbind (gets (\<lambda>s. procs s ! p)) (\<lambda>q.
       if p_state q = UNUSED then ret () else
       mbind (printf (bytes_of ''%d %s %s'')
         [VInt (word_of_int (p_pid q)), VStr (Some (bytes_of (state_name (p_state q)))), VStr (Some (p_name q))]) (\<lambda>_.
       mbind (printf (bytes_of ''\<newline>'') []) (\<lambda>_.
       ret ())))))"

section \<open>Reading and writing\<close>

text \<open>The loop of \<open>consolewrite\<close>, from index \<open>i\<close> with \<open>k\<close> bytes left.\<close>

fun consolewrite_loop :: "iosrc \<Rightarrow> nat \<Rightarrow> nat \<Rightarrow> int K" where
  "consolewrite_loop src i 0 = ret (int i)"
| "consolewrite_loop src i (Suc k) =
     mbind (either_copyin (src_adv src i) 1) (\<lambda>r.
     if fst r = -1 then ret (int i) else
     mbind (uartputc (uint (hd (snd r)))) (\<lambda>_.
     consolewrite_loop src (i + 1) k))"

definition consolewrite :: "iosrc \<Rightarrow> int \<Rightarrow> int K" where
  "consolewrite src n = consolewrite_loop src 0 (nat n)"

definition CTRL_D :: byte where "CTRL_D = 4"

text \<open>The loop of \<open>consoleread\<close> with \<open>n\<close> bytes still wanted. An empty buffer makes the process wait
  and ends the run; the loop tests again when it continues.\<close>

fun consoleread_loop :: "iodst \<Rightarrow> nat \<Rightarrow> nat \<Rightarrow> int K" where
  "consoleread_loop dst target 0 =
     mbind (release L_cons) (\<lambda>_.
     ret (int target))"
| "consoleread_loop dst target (Suc n) =
     mbind (gets cons) (\<lambda>c.
     if cons_r c = cons_w c then
       mbind me (\<lambda>p.
       mbind (killed p) (\<lambda>k.
       if k then
         mbind (release L_cons) (\<lambda>_.
         ret (-1))
       else
         mbind (sleep C_cons_r L_cons) (\<lambda>_.
         ret 0)))
     else
       mbind (upd_cons (\<lambda>c. c\<lparr>cons_r := cons_r c + 1\<rparr>)) (\<lambda>_.
       if cons_at c (cons_r c) = CTRL_D then
         mbind (if Suc n < target then upd_cons (\<lambda>c. c\<lparr>cons_r := cons_r c - 1\<rparr>) else ret ()) (\<lambda>_.
         mbind (release L_cons) (\<lambda>_.
         ret (int target - int (Suc n))))
       else
         mbind (either_copyout dst [cons_at c (cons_r c)]) (\<lambda>r.
         if r = -1 then
           mbind (release L_cons) (\<lambda>_.
           ret (int target - int (Suc n)))
         else if cons_at c (cons_r c) = 10 then
           mbind (release L_cons) (\<lambda>_.
           ret (int target - int n))
         else consoleread_loop (dst_adv dst 1) target n)))"

definition consoleread :: "iodst \<Rightarrow> int \<Rightarrow> int K" where
  "consoleread dst n =
     mbind (acquire L_cons) (\<lambda>_.
     consoleread_loop dst (nat n) (nat n))"

section \<open>Input\<close>

text \<open>Erasing the line being edited; every pass moves \<open>e\<close> one byte towards \<open>w\<close>.\<close>

primrec kill_line :: "nat \<Rightarrow> unit K" where
  "kill_line 0 = ret ()"
| "kill_line (Suc k) =
     mbind (gets cons) (\<lambda>c.
     if cons_e c \<noteq> cons_w c \<and> cons_at c (cons_e c - 1) \<noteq> 10 then
       mbind (upd_cons (\<lambda>c. c\<lparr>cons_e := cons_e c - 1\<rparr>)) (\<lambda>_.
       mbind (consputc BACKSPACE) (\<lambda>_.
       kill_line k))
     else ret ())"

definition cons_store :: "byte \<Rightarrow> consbuf \<Rightarrow> consbuf" where
  "cons_store b c = c\<lparr>cons_buf := (cons_buf c)[unat (cons_e c) mod INPUT_BUF_SIZE := b], cons_e := cons_e c + 1\<rparr>"

definition cons_input :: "int \<Rightarrow> unit K" where
  "cons_input ch =
     mbind (gets cons) (\<lambda>c.
     if ch \<noteq> 0 \<and> unat (cons_e c - cons_r c) < INPUT_BUF_SIZE then
       let b = (if ch = 13 then 10 else ch) in
       mbind (consputc b) (\<lambda>_.
       mbind (upd_cons (cons_store (word_of_int b))) (\<lambda>_.
       mbind (gets cons) (\<lambda>c.
       if b = 10 \<or> b = 4 \<or> unat (cons_e c - cons_r c) = INPUT_BUF_SIZE then
         mbind (upd_cons (\<lambda>c. c\<lparr>cons_w := cons_e c\<rparr>)) (\<lambda>_.
         wakeup C_cons_r)
       else ret ())))
     else ret ())"

definition consoleintr :: "int \<Rightarrow> unit K" where
  "consoleintr ch =
     mbind (acquire L_cons) (\<lambda>_.
     mbind (if ch = 16 then procdump
            else if ch = 21 then
              mbind (gets cons) (\<lambda>c.
              kill_line (unat (cons_e c - cons_w c)))
            else if ch = 8 \<or> ch = 0x7f then
              mbind (gets cons) (\<lambda>c.
              if cons_e c \<noteq> cons_w c then
                mbind (upd_cons (\<lambda>c. c\<lparr>cons_e := cons_e c - 1\<rparr>)) (\<lambda>_.
                consputc BACKSPACE)
              else ret ())
            else cons_input ch) (\<lambda>_.
     release L_cons))"

text \<open>The receive loop of \<open>uartintr\<close>, bounded by the number of received bytes.\<close>

primrec uartintr_loop :: "nat \<Rightarrow> unit K" where
  "uartintr_loop 0 = ret ()"
| "uartintr_loop (Suc k) =
     mbind uartgetc (\<lambda>c.
     if c = -1 then ret () else
     mbind (consoleintr c) (\<lambda>_.
     uartintr_loop k))"

definition uartintr :: "unit K" where
  "uartintr =
     mbind (gets (\<lambda>s. length (u_rx (uart s)))) (\<lambda>k.
     mbind (uartintr_loop (Suc k)) (\<lambda>_.
     mbind (acquire L_uart) (\<lambda>_.
     mbind uartstart (\<lambda>_.
     release L_uart))))"

section \<open>The input buffer as two queues\<close>

text \<open>The committed bytes waiting for \<open>consoleread\<close> and the line being edited.\<close>

definition cons_ready :: "consbuf \<Rightarrow> byte list" where
  "cons_ready c = ring INPUT_BUF_SIZE (cons_buf c) (unat (cons_r c)) (unat (cons_w c - cons_r c))"

definition cons_edit :: "consbuf \<Rightarrow> byte list" where
  "cons_edit c = ring INPUT_BUF_SIZE (cons_buf c) (unat (cons_w c)) (unat (cons_e c - cons_w c))"

definition cons_inv :: "consbuf \<Rightarrow> bool" where
  "cons_inv c \<longleftrightarrow> length (cons_buf c) = INPUT_BUF_SIZE \<and>
     length (cons_ready c) + length (cons_edit c) \<le> INPUT_BUF_SIZE \<and> 10 \<notin> set (cons_edit c)"

text \<open>What one input character does to them: special keys edit the line, a newline, an end-of-file
  mark or a full buffer commits it.\<close>

definition cons_step :: "int \<Rightarrow> byte list \<times> byte list \<Rightarrow> byte list \<times> byte list" where
  "cons_step ch q =
     (if ch = 21 then (fst q, [])
      else if ch = 8 \<or> ch = 0x7f then (fst q, butlast (snd q))
      else if ch = 0 \<or> length (fst q) + length (snd q) \<ge> INPUT_BUF_SIZE then q
      else
        let b = (if ch = 13 then 10 else ch); line = snd q @ [word_of_int b] in
        if b = 10 \<or> b = 4 \<or> length (fst q) + length line = INPUT_BUF_SIZE then (fst q @ line, []) else (fst q, line))"

lemma unat_add_small: "unat a + unat b < 2 ^ 32 \<Longrightarrow> unat (a + b :: u32) = unat a + unat b"
  by (simp add: unat_plus_if')

lemma cons_size:
  assumes fits: "length (cons_ready c) + length (cons_edit c) \<le> INPUT_BUF_SIZE"
  shows "unat (cons_e c - cons_r c) = length (cons_ready c) + length (cons_edit c)"
proof -
  have lt: "unat (cons_e c - cons_w c) + unat (cons_w c - cons_r c) < 2 ^ 32"
    using fits by (simp add: cons_ready_def cons_edit_def INPUT_BUF_SIZE_def)
  have "unat (cons_e c - cons_r c) = unat (cons_e c - cons_w c) + unat (cons_w c - cons_r c)"
    using unat_add_small[OF lt] by simp
  then show ?thesis by (simp add: cons_ready_def cons_edit_def)
qed

lemma cons_edit_empty: "cons_e c = cons_w c \<longleftrightarrow> cons_edit c = []"
proof -
  have "cons_e c = cons_w c \<longleftrightarrow> length (cons_edit c) = 0"
    using counter_empty[of "cons_e c" "cons_w c"] by (simp add: cons_edit_def)
  then show ?thesis by simp
qed

lemma wrap_cons: "unat ((r :: u32) + of_nat i) mod INPUT_BUF_SIZE = (unat r + i) mod INPUT_BUF_SIZE"
  by (rule wrap_index) (simp add: INPUT_BUF_SIZE_def)

text \<open>Storing a byte.\<close>

lemma cons_store_props:
  assumes inv: "cons_inv c" and room: "length (cons_ready c) + length (cons_edit c) < INPUT_BUF_SIZE"
  shows "cons_ready (cons_store b c) = cons_ready c" and "cons_edit (cons_store b c) = cons_edit c @ [b]"
    and "length (cons_buf (cons_store b c)) = INPUT_BUF_SIZE"
proof -
  let ?n = "length (cons_ready c) + length (cons_edit c)"
  have slot: "unat (cons_e c) mod INPUT_BUF_SIZE = (unat (cons_r c) + ?n) mod INPUT_BUF_SIZE"
    using wrap_cons[of "cons_r c" ?n] by (simp flip: cons_size[OF order_less_imp_le[OF room]])
  show "cons_ready (cons_store b c) = cons_ready c"
    using ring_put_other[of "length (cons_ready c)" ?n INPUT_BUF_SIZE "cons_buf c" "unat (cons_r c)" b] room
    by (simp add: cons_ready_def cons_store_def slot[unfolded cons_ready_def])
  have "unat (cons_e c - cons_w c) < INPUT_BUF_SIZE" using room by (simp add: cons_edit_def)
  then show "cons_edit (cons_store b c) = cons_edit c @ [b]"
    using ring_write(1)[where d = "cons_buf c" and b = b and N = INPUT_BUF_SIZE and w = "cons_e c" and r = "cons_w c"] inv
    by (simp add: cons_edit_def cons_store_def cons_inv_def INPUT_BUF_SIZE_def)
  show "length (cons_buf (cons_store b c)) = INPUT_BUF_SIZE" using inv by (simp add: cons_store_def cons_inv_def)
qed

text \<open>Committing the line, and erasing its last byte.\<close>

lemma cons_commit_props:
  assumes fits: "length (cons_ready c) + length (cons_edit c) \<le> INPUT_BUF_SIZE"
  shows "cons_ready (c\<lparr>cons_w := cons_e c\<rparr>) = cons_ready c @ cons_edit c"
    and "cons_edit (c\<lparr>cons_w := cons_e c\<rparr>) = []"
proof -
  let ?n = "length (cons_ready c)"
  have "(unat (cons_r c) + ?n) mod INPUT_BUF_SIZE = unat (cons_w c) mod INPUT_BUF_SIZE"
    using wrap_cons[of "cons_r c" ?n] by (simp add: cons_ready_def)
  then have "ring INPUT_BUF_SIZE (cons_buf c) (unat (cons_r c) + ?n) k = ring INPUT_BUF_SIZE (cons_buf c) (unat (cons_w c)) k" for k
    by (rule ring_cong)
  then show "cons_ready (c\<lparr>cons_w := cons_e c\<rparr>) = cons_ready c @ cons_edit c"
    using cons_size[OF fits] ring_append[of INPUT_BUF_SIZE "cons_buf c" "unat (cons_r c)"]
    by (simp add: cons_ready_def cons_edit_def)
  show "cons_edit (c\<lparr>cons_w := cons_e c\<rparr>) = []" by (simp add: cons_edit_def ring_def)
qed

lemma ring_butlast: "ring N d r (n - 1) = butlast (ring N d r n)"
  by (rule nth_equalityI) (simp_all add: nth_butlast)

lemma cons_erase_props:
  assumes "cons_edit c \<noteq> []"
  shows "cons_ready (c\<lparr>cons_e := cons_e c - 1\<rparr>) = cons_ready c"
    and "cons_edit (c\<lparr>cons_e := cons_e c - 1\<rparr>) = butlast (cons_edit c)"
    and "cons_at c (cons_e c - 1) = last (cons_edit c)"
proof -
  let ?n = "unat (cons_e c - cons_w c)"
  have nz: "cons_e c - cons_w c \<noteq> 0" using assms cons_edit_empty[of c] by auto
  have n: "unat (cons_e c - cons_w c - 1) = ?n - 1" "0 < ?n"
    using unat_minus_one[OF nz] nz by (simp_all add: unat_gt_0)
  have w: "cons_e c - 1 - cons_w c = cons_e c - cons_w c - 1" by simp
  show "cons_ready (c\<lparr>cons_e := cons_e c - 1\<rparr>) = cons_ready c" by (simp add: cons_ready_def)
  show "cons_edit (c\<lparr>cons_e := cons_e c - 1\<rparr>) = butlast (cons_edit c)"
    using n(1) ring_butlast[of INPUT_BUF_SIZE "cons_buf c" "unat (cons_w c)" ?n] by (simp add: cons_edit_def w)
  have "cons_e c - 1 = cons_w c + of_nat (?n - 1)" using n(1)[symmetric] by (simp del: One_nat_def)
  then have "unat (cons_e c - 1) mod INPUT_BUF_SIZE = (unat (cons_w c) + (?n - 1)) mod INPUT_BUF_SIZE"
    using wrap_cons[of "cons_w c" "?n - 1"] by (simp only:)
  then show "cons_at c (cons_e c - 1) = last (cons_edit c)"
    using assms n(2) by (simp add: cons_at_def cons_edit_def last_conv_nth)
qed

section \<open>The interrupt handler refines the two queues\<close>

definition same_procs :: "kstate \<Rightarrow> kstate \<Rightarrow> bool" where
  "same_procs s t \<longleftrightarrow> held t = held s \<and> procs t = procs s \<and> curproc t = curproc s"

lemma consputc_Ok: "\<exists>t. consputc c s = Ok () t \<and> cons t = cons s \<and> same_procs s t"
  by (auto simp: consputc_def uartputc_sync_def write_thr_def same_procs_def)

lemma kill_line_Ok:
  assumes "cons_inv (cons s)" and "length (cons_edit (cons s)) = k"
  shows "\<exists>t. kill_line k s = Ok () t \<and> cons_ready (cons t) = cons_ready (cons s) \<and> cons_edit (cons t) = [] \<and>
    cons_inv (cons t) \<and> same_procs s t"
  using assms
proof (induction k arbitrary: s)
  case 0
  then show ?case by (simp add: same_procs_def)
next
  case (Suc k)
  let ?c = "cons s"
  have ne: "cons_edit ?c \<noteq> []" using Suc(3) by auto
  let ?c1 = "?c\<lparr>cons_e := cons_e ?c - 1\<rparr>"
  note er = cons_erase_props[OF ne]
  have inv1: "cons_inv ?c1" using Suc(2) er by (auto simp: cons_inv_def dest: in_set_butlastD)
  have "last (cons_edit ?c) \<in> set (cons_edit ?c)" using ne by simp
  then have "cons_at ?c (cons_e ?c - 1) \<noteq> 10" using er(3) Suc(2) by (auto simp: cons_inv_def)
  moreover obtain t where t: "consputc BACKSPACE (s\<lparr>cons := ?c1\<rparr>) = Ok () t" "cons t = ?c1" "same_procs (s\<lparr>cons := ?c1\<rparr>) t"
    using consputc_Ok[of BACKSPACE "s\<lparr>cons := ?c1\<rparr>"] by auto
  ultimately have step: "kill_line (Suc k) s = kill_line k t"
    using cons_edit_empty[of ?c] ne by (simp add: upd_cons_def)
  have "length (cons_edit (cons t)) = k" using Suc(3) er(2) t(2) by simp
  then obtain u where "kill_line k t = Ok () u" "cons_ready (cons u) = cons_ready (cons t)" "cons_edit (cons u) = []"
      "cons_inv (cons u)" "same_procs t u" using Suc.IH[of t] inv1 t(2) by auto
  then show ?case using step t er(1) by (intro exI[of _ u]) (auto simp: same_procs_def)
qed

text \<open>Storing a character, and committing the line where the code does.\<close>

definition cons_take :: "int \<Rightarrow> consbuf \<Rightarrow> consbuf" where
  "cons_take b c = (let c = cons_store (word_of_int b) c in
     if b = 10 \<or> b = 4 \<or> unat (cons_e c - cons_r c) = INPUT_BUF_SIZE then c\<lparr>cons_w := cons_e c\<rparr> else c)"

lemma cons_take_step:
  assumes inv: "cons_inv c" and room: "length (cons_ready c) + length (cons_edit c) < INPUT_BUF_SIZE"
    and ch: "ch \<notin> {0, 21, 8, 0x7f}" "0 \<le> ch" "ch < 256"
  defines "b \<equiv> if ch = 13 then 10 else ch"
  shows "(cons_ready (cons_take b c), cons_edit (cons_take b c)) = cons_step ch (cons_ready c, cons_edit c)"
    and "cons_inv (cons_take b c)"
proof -
  let ?w = "word_of_int b :: byte"
  let ?c = "cons_store ?w c"
  note st = cons_store_props[OF inv room, of ?w]
  have w10: "?w = 10 \<longleftrightarrow> b = 10"
    using ch(2,3) unfolding b_def by (auto simp: word_uint_eq_iff uint_word_of_int)
  have fits: "length (cons_ready ?c) + length (cons_edit ?c) \<le> INPUT_BUF_SIZE" using room st by simp
  have full: "unat (cons_e ?c - cons_r ?c) = INPUT_BUF_SIZE \<longleftrightarrow>
      length (cons_ready c) + (length (cons_edit c) + 1) = INPUT_BUF_SIZE"
    using cons_size[OF fits] st by simp
  note cm = cons_commit_props[OF fits]
  show "(cons_ready (cons_take b c), cons_edit (cons_take b c)) = cons_step ch (cons_ready c, cons_edit c)"
    using ch(1) room st cm full unfolding cons_take_def cons_step_def Let_def b_def[symmetric] by auto
  show "cons_inv (cons_take b c)"
    using inv fits st cm w10 by (auto simp: cons_take_def cons_inv_def Let_def)
qed

lemma cons_input_Ok:
  assumes inv: "cons_inv (cons s)" and np: "no_proc_locks s" "length (procs s) = NPROC"
    and ch: "ch \<notin> {21, 8, 0x7f}" "0 \<le> ch" "ch < 256"
  shows "\<exists>t. cons_input ch s = Ok () t \<and>
    (cons_ready (cons t), cons_edit (cons t)) = cons_step ch (cons_ready (cons s), cons_edit (cons s)) \<and>
    cons_inv (cons t) \<and> held t = held s \<and> length (procs t) = NPROC"
proof (cases "ch \<noteq> 0 \<and> length (cons_ready (cons s)) + length (cons_edit (cons s)) < INPUT_BUF_SIZE")
  case False
  have "cons_input ch s = Ok () s" using False inv cons_size[of "cons s"] by (auto simp: cons_input_def cons_inv_def)
  then show ?thesis using False inv np ch by (auto simp: cons_step_def)
next
  case True
  define b where "b = (if ch = 13 then 10 else ch)"
  obtain t where t: "consputc b s = Ok () t" "cons t = cons s" "same_procs s t" using consputc_Ok by blast
  have lt: "unat (cons_e (cons s) - cons_r (cons s)) < INPUT_BUF_SIZE"
    using True inv cons_size[of "cons s"] by (auto simp: cons_inv_def)
  have "\<exists>u. cons_input ch s = Ok () u \<and> cons u = cons_take b (cons s) \<and> held u = held s \<and> length (procs u) = NPROC"
    using True t np lt
    by (auto simp: cons_input_def b_def[symmetric] upd_cons_def cons_take_def Let_def same_procs_def no_proc_locks_def wakeup_Ok)
  moreover have "ch \<notin> {0, 21, 8, 0x7f}" using ch True by simp
  ultimately show ?thesis using cons_take_step[of "cons s" ch] inv True ch b_def by auto
qed

lemma cons_erase_Ok:
  assumes inv: "cons_inv (cons s)" and ne: "cons_edit (cons s) \<noteq> []"
  shows "\<exists>t. consputc BACKSPACE (s\<lparr>cons := (cons s)\<lparr>cons_e := cons_e (cons s) - 1\<rparr>\<rparr>) = Ok () t \<and>
    cons_ready (cons t) = cons_ready (cons s) \<and> cons_edit (cons t) = butlast (cons_edit (cons s)) \<and>
    cons_inv (cons t) \<and> same_procs s t"
proof -
  let ?c1 = "(cons s)\<lparr>cons_e := cons_e (cons s) - 1\<rparr>"
  note er = cons_erase_props[OF ne]
  have "cons_inv ?c1" using inv er by (auto simp: cons_inv_def dest: in_set_butlastD)
  then show ?thesis using consputc_Ok[of BACKSPACE "s\<lparr>cons := ?c1\<rparr>"] er(1,2) by (auto simp: same_procs_def)
qed

text \<open>C24: an input character other than control-P never blocks and never panics: \<open>consoleintr\<close>
  returns with the lock released, and what it did to the ring buffer and its three wrapping indices is
  what the character does to a pair of byte queues (bytes ready for \<open>consoleread\<close>, bytes of the line
  being edited): control-U drops the line, backspace and delete drop its last byte, newline, control-D
  and the 128th pending byte move the line to the ready queue, and a full buffer drops the character.\<close>

theorem consoleintr_refines:
  assumes inv: "cons_inv (cons s)" and np: "no_proc_locks s" "length (procs s) = NPROC"
    and lk: "L_cons \<notin> held s" and ch: "ch \<noteq> 16" "0 \<le> ch" "ch < 256"
  shows "\<exists>t. consoleintr ch s = Ok () t \<and>
    (cons_ready (cons t), cons_edit (cons t)) = cons_step ch (cons_ready (cons s), cons_edit (cons s)) \<and>
    cons_inv (cons t) \<and> held t = held s"
proof -
  let ?s = "s\<lparr>held := insert L_cons (held s)\<rparr>"
  let ?body = "if ch = 21 then mbind (gets cons) (\<lambda>c. kill_line (unat (cons_e c - cons_w c)))
     else if ch = 8 \<or> ch = 0x7f then
       mbind (gets cons) (\<lambda>c. if cons_e c \<noteq> cons_w c
         then mbind (upd_cons (\<lambda>c. c\<lparr>cons_e := cons_e c - 1\<rparr>)) (\<lambda>_. consputc BACKSPACE) else ret ())
     else cons_input ch"
  have "\<exists>t. ?body ?s = Ok () t \<and>
      (cons_ready (cons t), cons_edit (cons t)) = cons_step ch (cons_ready (cons s), cons_edit (cons s)) \<and>
      cons_inv (cons t) \<and> held t = insert L_cons (held s)"
  proof (cases "ch \<in> {21, 8, 0x7f}")
    case False
    then show ?thesis using cons_input_Ok[of ?s ch] inv np ch by (auto simp: no_proc_locks_def)
  next
    case True
    show ?thesis
    proof (cases "ch = 21 \<or> cons_edit (cons s) = []")
      case False
      then show ?thesis using True cons_erase_Ok[of ?s] inv cons_edit_empty[of "cons s"]
        by (auto simp: upd_cons_def cons_step_def same_procs_def)
    next
      case emp: True
      show ?thesis
      proof (cases "ch = 21")
        case kill: True
        then show ?thesis using kill_line_Ok[of ?s "unat (cons_e (cons s) - cons_w (cons s))"] inv
          by (auto simp: cons_edit_def cons_step_def same_procs_def)
      next
        case False
        then show ?thesis using True emp inv cons_edit_empty[of "cons s"] by (auto simp: cons_step_def)
      qed
    qed
  qed
  then obtain t where "?body ?s = Ok () t" "(cons_ready (cons t), cons_edit (cons t)) = cons_step ch (cons_ready (cons s), cons_edit (cons s))"
      "cons_inv (cons t)" "held t = insert L_cons (held s)" by blast
  moreover have "consoleintr ch = mbind (acquire L_cons) (\<lambda>_. mbind ?body (\<lambda>_. release L_cons))"
    using ch(1) by (simp add: consoleintr_def)
  ultimately show ?thesis using lk by (auto simp: acquire_def release_def)
qed

definition typed_state :: kstate where
  "typed_state = zero_state\<lparr>cons := \<lparr>cons_buf = [104, 105] @ replicate 126 0, cons_r = 0, cons_w = 0, cons_e = 2\<rparr>\<rparr>"

lemma typed_queues: "cons_ready (cons typed_state) = []" "cons_edit (cons typed_state) = [104, 105]"
  by (simp_all add: typed_state_def cons_ready_def cons_edit_def ring_def INPUT_BUF_SIZE_def upt_conv_Cons)

lemma consoleintr_refines_witness:
  "\<exists>t. consoleintr 13 typed_state = Ok () t \<and> cons_ready (cons t) = [104, 105, 10] \<and> cons_edit (cons t) = []"
proof -
  have "cons_inv (cons typed_state)"
    unfolding cons_inv_def typed_queues by (simp add: typed_state_def INPUT_BUF_SIZE_def)
  moreover have "no_proc_locks typed_state" "length (procs typed_state) = NPROC" "L_cons \<notin> held typed_state"
    by (simp_all add: no_proc_locks_def typed_state_def zero_state_def)
  ultimately show ?thesis using consoleintr_refines[of typed_state 13]
    by (auto simp: typed_queues cons_step_def INPUT_BUF_SIZE_def)
qed

end
