(* ===== verification/Pagetable.thy ===== *)
theory Pagetable
  imports Vm
begin

text \<open>
  What the page-table code computes. A page table in memory is read as a function \<open>entry\<close> from
  virtual addresses to entries; \<open>walk\<close> with allocation keeps that function, and \<open>mappages\<close> updates
  it at exactly the pages it is asked to map.
\<close>

section \<open>Entries and indices\<close>

lemma aligned_bits: "pg_aligned pa \<longleftrightarrow> (\<forall>n < 12. \<not> bit pa n)"
proof -
  have "pg_aligned pa \<longleftrightarrow> take_bit 12 pa = 0"
    by (simp add: pg_aligned_def take_bit_eq_mod PGSIZE_def)
  also have "\<dots> \<longleftrightarrow> (\<forall>n < 12. \<not> bit pa n)"
    by (auto simp: bit_eq_iff bit_take_bit_iff)
  finally show ?thesis .
qed

lemma flag_bits: "(f :: u64) < 1024 \<Longrightarrow> 10 \<le> n \<Longrightarrow> \<not> bit f n"
proof -
  assume f: "f < 1024" and n: "10 \<le> n"
  have "unat f < 2 ^ 10" using f by (simp add: word_less_nat_alt)
  then have "take_bit 10 (unat f) = unat f" by (simp add: take_bit_nat_eq_self)
  then have "take_bit 10 f = f" by (metis unsigned_take_bit_eq word_unat_eq_iff)
  then show ?thesis using n by (metis bit_take_bit_iff not_le)
qed

lemma PTE2PA_PA2PTE:
  assumes "pg_aligned pa" and "f < 1024"
  shows "PTE2PA (PA2PTE pa OR f) = pa"
proof (rule bit_word_eqI)
  fix n assume n: "n < LENGTH(64)"
  have "\<not> bit f (n - 2)" if "12 \<le> n" using flag_bits[OF assms(2), of "n - 2"] that by simp
  moreover have "n - 12 + 10 = n - 2" "n - 2 - 10 + 12 = n" if "12 \<le> n" using that by simp_all
  ultimately show "bit (PTE2PA (PA2PTE pa OR f)) n = bit pa n"
    using assms(1) n unfolding aligned_bits PTE2PA_def PA2PTE_def
    by (cases "12 \<le> n") (auto simp: bit_simps not_le)
qed

lemma PTE_V_set [simp]: "(e OR PTE_V) AND PTE_V \<noteq> 0"
proof
  assume "(e OR PTE_V) AND PTE_V = 0"
  then have "bit ((e OR PTE_V) AND PTE_V) 0 = bit (0 :: u64) 0" by simp
  then show False by (simp add: bit_simps PTE_V_def)
qed

lemma PTE_V_ne [simp]: "PTE_V \<noteq> 0"
  by (simp add: PTE_V_def)

lemma PX_bit: "bit (PX l va) n \<longleftrightarrow> n < 9 \<and> bit va (12 + 9 * l + n)"
proof -
  have "(0x1FF :: u64) = mask 9" by (simp add: mask_eq_exp_minus_1)
  then have "bit (PX l va) n \<longleftrightarrow> bit va (12 + 9 * l + n) \<and> bit (mask 9 :: u64) n"
    unfolding PX_def by (simp only: bit_and_iff bit_drop_bit_eq comp_def)
  then show ?thesis using bit_imp_le_length[of va "12 + 9 * l + n"] by (auto simp: bit_mask_iff)
qed

lemma PX_lt [simp]: "PX l va < 512"
proof -
  have "take_bit 9 (PX l va) = PX l va" by (rule bit_eqI) (auto simp: PX_bit bit_simps)
  then have "unat (PX l va) < 2 ^ 9" by (metis take_bit_nat_less_exp unsigned_take_bit_eq)
  then show ?thesis by (simp add: word_less_nat_alt)
qed

text \<open>The three indices determine the page of an address below \<open>MAXVA\<close>.\<close>

lemma high_bits: "va < MAXVA \<Longrightarrow> 38 \<le> n \<Longrightarrow> \<not> bit va n"
proof -
  assume va: "va < MAXVA" and n: "38 \<le> n"
  have "unat va < 2 ^ 38" using va by (simp add: word_less_nat_alt MAXVA_def)
  then have "take_bit 38 (unat va) = unat va" by (simp add: take_bit_nat_eq_self)
  then have "take_bit 38 va = va" by (metis unsigned_take_bit_eq word_unat_eq_iff)
  then show ?thesis using n by (metis bit_take_bit_iff not_le)
qed

lemma PX_same_page:
  assumes "va < MAXVA" and "va' < MAXVA"
    and "PX 2 va = PX 2 va'" and "PX 1 va = PX 1 va'" and "PX 0 va = PX 0 va'"
  shows "PGROUNDDOWN va = PGROUNDDOWN va'"
proof -
  have "bit va n = bit va' n" if n: "12 \<le> n" for n
  proof -
    consider "n < 21" | "21 \<le> n" "n < 30" | "30 \<le> n" "n < 39" | "39 \<le> n" by linarith
    then show ?thesis
    proof cases
      case 1
      then have "bit (PX 0 va) (n - 12) = bit (PX 0 va') (n - 12)" using assms(5) by simp
      moreover have "n - 12 < 9" using 1 n by simp
      ultimately show ?thesis using n by (simp add: PX_bit)
    next
      case 2
      then have "bit (PX 1 va) (n - 21) = bit (PX 1 va') (n - 21)" using assms(4) by simp
      moreover have "n - 21 < 9" using 2 by simp
      ultimately show ?thesis using 2 by (simp add: PX_bit)
    next
      case 3
      then have "bit (PX 2 va) (n - 30) = bit (PX 2 va') (n - 30)" using assms(3) by simp
      moreover have "n - 30 < 9" using 3 by simp
      ultimately show ?thesis using 3 by (simp add: PX_bit)
    next
      case 4
      then show ?thesis using high_bits[OF assms(1), of n] high_bits[OF assms(2), of n] by simp
    qed
  qed
  moreover have m: "PGSIZE - 1 = mask 12" by (simp add: PGSIZE_def mask_eq_exp_minus_1)
  ultimately show ?thesis unfolding PGROUNDDOWN_def m by (intro bit_eqI) (auto simp: bit_simps)
qed

lemma PX_page: "PX l (PGROUNDDOWN va) = PX l va"
proof -
  have m: "PGSIZE - 1 = mask 12" by (simp add: PGSIZE_def mask_eq_exp_minus_1)
  have "bit (va AND NOT (mask 12)) (12 + 9 * l + n) = bit va (12 + 9 * l + n)" for n
    using bit_imp_le_length[of va "12 + 9 * l + n"] by (auto simp: bit_simps)
  then show ?thesis unfolding PGROUNDDOWN_def m by (intro bit_word_eqI) (simp only: PX_bit)
qed

section \<open>Slots of a table page\<close>

lemma aligned_top: "pg_aligned t \<Longrightarrow> unat t + 4096 \<le> 2 ^ 64"
proof -
  assume "pg_aligned t"
  then obtain k where k: "unat t = 4096 * k" unfolding aligned_nat by (metis dvdE)
  have "4096 * k < 4096 * 2 ^ 52" using unat_lt64[of t] k by simp
  then show ?thesis using k by simp
qed

lemma unat_slot:
  assumes "pg_aligned t" and "i < 512"
  shows "unat (t + 8 * i) = unat t + 8 * unat i"
proof -
  have i: "unat i < 512" using assms(2) by (simp add: word_less_nat_alt)
  then have "unat (8 * i) = 8 * unat i" by (simp add: unat_word_ariths)
  then show ?thesis using aligned_top[OF assms(1)] i by (simp add: unat_plus_if')
qed

lemma slot_in_page:
  assumes "pg_aligned t" and "i < 512" and "within (t + 8 * i) 8 a"
  shows "within t 4096 a"
proof -
  have "unat i < 512" using assms(2) by (simp add: word_less_nat_alt)
  then show ?thesis using assms(3) by (simp add: within_def unat_slot[OF assms(1,2)])
qed

lemma slot_fits:
  assumes "pg_aligned t" and "i < 512"
  shows "fits (t + 8 * i) 8"
proof -
  have "unat i < 512" using assms(2) by (simp add: word_less_nat_alt)
  then show ?thesis using aligned_top[OF assms(1)] by (simp add: fits_def unat_slot[OF assms])
qed

lemma slots_apart:
  assumes "pg_aligned t" and "i < 512" and "pg_aligned u" and "j < 512" and "(t, i) \<noteq> (u, j)"
  shows "apart (t + 8 * i) 8 (u + 8 * j) 8"
proof (cases "t = u")
  case True
  then have "unat i \<noteq> unat j" using assms(5) by (auto simp: word_unat_eq_iff)
  then show ?thesis using True by (auto simp: apart_def unat_slot assms)
next
  case False
  have "unat i < 512" "unat j < 512" using assms(2,4) by (simp_all add: word_less_nat_alt)
  then show ?thesis using pages_apart[OF assms(1,3) False] by (auto simp: apart_def unat_slot assms)
qed

section \<open>A page table as a function\<close>

text \<open>The page that slot \<open>i\<close> of table page \<open>t\<close> points to.\<close>

definition pnext :: "memory \<Rightarrow> u64 \<Rightarrow> u64 \<Rightarrow> u64 option" where
  "pnext m t i = (if ld64 m (t + 8 * i) AND PTE_V \<noteq> 0 then Some (PTE2PA (ld64 m (t + 8 * i))) else None)"

text \<open>The table page at the end of a path of indices, last index first.\<close>

fun tpage :: "memory \<Rightarrow> u64 \<Rightarrow> u64 list \<Rightarrow> u64 option" where
  "tpage m pt [] = Some pt"
| "tpage m pt (i # p) = (case tpage m pt p of None \<Rightarrow> None | Some t \<Rightarrow> pnext m t i)"

definition vpath :: "u64 list \<Rightarrow> bool" where
  "vpath p \<longleftrightarrow> length p \<le> 2 \<and> (\<forall>i \<in> set p. i < 512)"

text \<open>The path of a virtual address to its table page of level \<open>l\<close>.\<close>

definition vp :: "u64 \<Rightarrow> nat \<Rightarrow> u64 list" where
  "vp va l = drop l [PX 1 va, PX 2 va]"

definition entry :: "memory \<Rightarrow> u64 \<Rightarrow> u64 \<Rightarrow> u64" where
  "entry m pt va = (case tpage m pt (vp va 0) of None \<Rightarrow> 0 | Some t \<Rightarrow> ld64 m (t + 8 * PX 0 va))"

text \<open>The table pages are different pages among \<open>A\<close>: the table is a tree.\<close>

definition pt_wf :: "memory \<Rightarrow> u64 \<Rightarrow> u64 set \<Rightarrow> bool" where
  "pt_wf m pt A \<longleftrightarrow>
     (\<forall>p a. vpath p \<and> tpage m pt p = Some a \<longrightarrow> a \<in> A) \<and>
     (\<forall>p q a. vpath p \<and> vpath q \<and> tpage m pt p = Some a \<and> tpage m pt q = Some a \<longrightarrow> p = q) \<and>
     (\<forall>a \<in> A. pg_aligned a \<and> a \<noteq> 0)"

definition agree :: "u64 set \<Rightarrow> memory \<Rightarrow> memory \<Rightarrow> bool" where
  "agree A m m' \<longleftrightarrow> (\<forall>a. (\<exists>x \<in> A. within x 4096 a) \<longrightarrow> m' a = m a)"

lemma vpath_Cons: "vpath (i # p) \<Longrightarrow> vpath p" "vpath (i # p) \<Longrightarrow> i < 512"
  by (auto simp: vpath_def)

lemma vp_vpath [simp]: "vpath (vp va l)"
  unfolding vpath_def vp_def by (auto simp del: One_nat_def dest!: in_set_dropD)

lemma vp_step: "l < 2 \<Longrightarrow> vp va l = PX (l + 1) va # vp va (l + 1)"
  by (cases l) (auto simp: vp_def numeral_2_eq_2 less_Suc_eq)

lemma pt_wfD:
  assumes "pt_wf m pt A" and "vpath p" and "tpage m pt p = Some a"
  shows "a \<in> A" and "pg_aligned a" and "a \<noteq> 0"
    and "vpath q \<Longrightarrow> tpage m pt q = Some a \<Longrightarrow> q = p"
  using assms unfolding pt_wf_def by blast+

lemma ld64_agree:
  assumes "agree A m m'" and "t \<in> A" and "pg_aligned t" and "i < 512"
  shows "ld64 m' (t + 8 * i) = ld64 m (t + 8 * i)"
  using assms(1,2) slot_in_page[OF assms(3,4)]
  by (intro ld64_cong slot_fits assms(3,4)) (auto simp: agree_def)

lemma tpage_agree:
  assumes "pt_wf m pt A" and "agree A m m'" and "vpath p"
  shows "tpage m' pt p = tpage m pt p"
  using assms(3)
proof (induction p)
  case (Cons i p)
  have IH: "tpage m' pt p = tpage m pt p" using Cons vpath_Cons(1) by blast
  show ?case
  proof (cases "tpage m pt p")
    case None
    then show ?thesis by (simp add: IH)
  next
    case (Some t)
    note d = pt_wfD[OF assms(1) vpath_Cons(1)[OF Cons.prems] Some]
    show ?thesis using ld64_agree[OF assms(2) d(1,2) vpath_Cons(2)[OF Cons.prems]]
      by (simp add: IH Some pnext_def)
  qed
qed simp

lemma entry_agree:
  assumes "pt_wf m pt A" and "agree A m m'"
  shows "entry m' pt va = entry m pt va"
proof (cases "tpage m pt (vp va 0)")
  case None
  then show ?thesis by (simp add: entry_def tpage_agree[OF assms])
next
  case (Some t)
  note d = pt_wfD[OF assms(1) vp_vpath Some]
  show ?thesis using ld64_agree[OF assms(2) d(1,2) PX_lt]
    by (simp add: entry_def tpage_agree[OF assms] Some)
qed

lemma pt_wf_same:
  assumes "pt_wf m pt A" and "\<And>q. vpath q \<Longrightarrow> tpage m' pt q = tpage m pt q"
  shows "pt_wf m' pt A"
  using assms(1) unfolding pt_wf_def by (simp add: assms(2) cong: conj_cong)

lemma pt_wf_agree: "pt_wf m pt A \<Longrightarrow> agree A m m' \<Longrightarrow> pt_wf m' pt A"
  by (rule pt_wf_same[of m]) (auto intro: tpage_agree)

section \<open>Storing one entry\<close>

text \<open>A store to a slot of a last-level table page changes that entry and nothing else.\<close>

lemma ld64_slot_other:
  assumes "pt_wf m pt A" and "vpath p" and "tpage m pt p = Some t" and "i < 512"
    and "vpath q" and "tpage m pt q = Some u" and "j < 512" and "(p, i) \<noteq> (q, j)"
  shows "ld64 (st64 (t + 8 * i) e m) (u + 8 * j) = ld64 m (u + 8 * j)"
proof -
  note t = pt_wfD[OF assms(1-3)] and u = pt_wfD[OF assms(1,5,6)]
  have "(t, i) \<noteq> (u, j)" using t(4)[OF assms(5)] assms(6,8) by auto
  then show ?thesis using slots_apart[OF t(2) assms(4) u(2) assms(7)]
    by (intro ld64_st64_apart slot_fits t u assms) auto
qed

lemma tpage_leaf_store:
  assumes wf: "pt_wf m pt A" and p: "vpath p" "length p = 2" "tpage m pt p = Some t" "i < 512"
    and "vpath q"
  shows "tpage (st64 (t + 8 * i) e m) pt q = tpage m pt q"
  using assms(6)
proof (induction q)
  case (Cons j q)
  have q: "vpath q" "j < 512" using Cons.prems vpath_Cons by blast+
  have IH: "tpage (st64 (t + 8 * i) e m) pt q = tpage m pt q" using Cons.IH q(1) by blast
  show ?case
  proof (cases "tpage m pt q")
    case None
    then show ?thesis by (simp add: IH)
  next
    case (Some u)
    have "length q < 2" using Cons.prems by (simp add: vpath_def)
    then have "(p, i) \<noteq> (q, j)" using p(2) by auto
    then show ?thesis using ld64_slot_other[OF wf p(1,3,4) q(1) Some q(2)]
      by (simp add: IH Some pnext_def)
  qed
qed simp

lemma vp_eq_page:
  assumes "va < MAXVA" and "va' < MAXVA"
  shows "(vp va 0, PX 0 va) = (vp va' 0, PX 0 va') \<longleftrightarrow> PGROUNDDOWN va = PGROUNDDOWN va'"
proof
  assume "(vp va 0, PX 0 va) = (vp va' 0, PX 0 va')"
  then show "PGROUNDDOWN va = PGROUNDDOWN va'" using PX_same_page[OF assms] by (simp add: vp_def)
next
  assume "PGROUNDDOWN va = PGROUNDDOWN va'"
  then have "PX l va = PX l va'" for l using PX_page by metis
  then show "(vp va 0, PX 0 va) = (vp va' 0, PX 0 va')" by (simp add: vp_def)
qed

lemma entry_leaf_store:
  assumes wf: "pt_wf m pt A" and t: "tpage m pt (vp va 0) = Some t" and "va < MAXVA" and "va' < MAXVA"
  shows "entry (st64 (t + 8 * PX 0 va) e m) pt va' =
    (if PGROUNDDOWN va' = PGROUNDDOWN va then e else entry m pt va')"
proof -
  note d = pt_wfD[OF wf vp_vpath t]
  have len: "length (vp va 0) = 2" by (simp add: vp_def)
  have tp: "tpage (st64 (t + 8 * PX 0 va) e m) pt (vp va' 0) = tpage m pt (vp va' 0)"
    by (rule tpage_leaf_store[OF wf vp_vpath len t PX_lt vp_vpath])
  show ?thesis
  proof (cases "PGROUNDDOWN va' = PGROUNDDOWN va")
    case True
    then have "vp va' 0 = vp va 0" "PX 0 va' = PX 0 va" using vp_eq_page[OF assms(4,3)] by auto
    then show ?thesis using True tp t d slot_fits[OF d(2) PX_lt, of 0 va] by (simp add: entry_def)
  next
    case False
    then have ne: "(vp va 0, PX 0 va) \<noteq> (vp va' 0, PX 0 va')" using vp_eq_page[OF assms(3,4)] by auto
    show ?thesis
    proof (cases "tpage m pt (vp va' 0)")
      case None
      then show ?thesis using tp False by (simp add: entry_def)
    next
      case (Some u)
      then show ?thesis using tp False ld64_slot_other[OF wf vp_vpath t PX_lt vp_vpath Some PX_lt ne]
        by (simp add: entry_def)
    qed
  qed
qed

lemma pt_wf_leaf_store:
  assumes wf: "pt_wf m pt A" and t: "tpage m pt (vp va 0) = Some t"
  shows "pt_wf (st64 (t + 8 * PX 0 va) e m) pt A"
proof -
  have len: "length (vp va 0) = 2" by (simp add: vp_def)
  show ?thesis by (rule pt_wf_same[OF wf]) (rule tpage_leaf_store[OF wf vp_vpath len t PX_lt])
qed

section \<open>Adding a table page\<close>

definition zero_page :: "memory \<Rightarrow> u64 \<Rightarrow> bool" where
  "zero_page m n \<longleftrightarrow> (\<forall>a. within n 4096 a \<longrightarrow> m a = 0)"

lemma ld64_zero:
  assumes "zero_page m n" and "pg_aligned n" and "j < 512"
  shows "ld64 m (n + 8 * j) = 0"
proof -
  have "ld64 m (n + 8 * j) = ld64 (\<lambda>_. 0) (n + 8 * j)"
    using assms(1) slot_in_page[OF assms(2,3)]
    by (intro ld64_cong slot_fits assms(2,3)) (auto simp: zero_page_def)
  also have "\<dots> = 0" by (simp add: ld64_def read_bytes_def of_le64_def upt_conv_Cons)
  finally show ?thesis .
qed

text \<open>Slot \<open>i\<close> of the table page at path \<open>p\<close> is empty and is made to point to the zeroed page \<open>n\<close>.\<close>

definition linked :: "memory \<Rightarrow> u64 \<Rightarrow> u64 set \<Rightarrow> u64 list \<Rightarrow> u64 \<Rightarrow> u64 \<Rightarrow> u64 \<Rightarrow> bool" where
  "linked m pt A p t i n \<longleftrightarrow> pt_wf m pt A \<and> vpath p \<and> length p \<le> 1 \<and> tpage m pt p = Some t \<and> i < 512 \<and>
     pnext m t i = None \<and> n \<notin> A \<and> pg_aligned n \<and> n \<noteq> 0 \<and> zero_page m n"

definition link_mem :: "memory \<Rightarrow> u64 \<Rightarrow> u64 \<Rightarrow> u64 \<Rightarrow> memory" where
  "link_mem m t i n = st64 (t + 8 * i) (PA2PTE n OR PTE_V) m"

lemma linked_page:
  assumes "linked m pt A p t i n"
  shows "t \<in> A" and "pg_aligned t" and "t \<noteq> n"
  using assms pt_wfD[of m pt A p t] unfolding linked_def by blast+

lemma link_slot: "linked m pt A p t i n \<Longrightarrow> pnext (link_mem m t i n) t i = Some n"
proof -
  assume l: "linked m pt A p t i n"
  then have "fits (t + 8 * i) 8" using slot_fits[OF linked_page(2)[OF l]] by (simp add: linked_def)
  moreover have "PTE2PA (PA2PTE n OR PTE_V) = n" using l by (intro PTE2PA_PA2PTE) (simp_all add: linked_def PTE_V_def)
  ultimately show ?thesis by (simp add: pnext_def link_mem_def)
qed

lemma link_new: "linked m pt A p t i n \<Longrightarrow> j < 512 \<Longrightarrow> ld64 (link_mem m t i n) (n + 8 * j) = 0"
proof -
  assume l: "linked m pt A p t i n" and j: "j < 512"
  have n: "pg_aligned n" "zero_page m n" "i < 512" using l by (simp_all add: linked_def)
  have "ld64 (link_mem m t i n) (n + 8 * j) = ld64 m (n + 8 * j)"
    unfolding link_mem_def using linked_page[OF l] slots_apart[OF linked_page(2)[OF l] n(3) n(1) j]
    by (intro ld64_st64_apart slot_fits n j) auto
  then show ?thesis using ld64_zero[OF n(2,1) j] by simp
qed

lemma link_other:
  assumes "linked m pt A p t i n" and "vpath q" and "tpage m pt q = Some u" and "j < 512" and "(p, i) \<noteq> (q, j)"
  shows "ld64 (link_mem m t i n) (u + 8 * j) = ld64 m (u + 8 * j)"
  using assms unfolding linked_def link_mem_def by (intro ld64_slot_other[of m pt A p t i q u j]) blast+

lemma tpage_link:
  assumes l: "linked m pt A p t i n" and "vpath q"
  shows "tpage (link_mem m t i n) pt q =
    (if q = i # p then Some n else if \<exists>j. q = j # i # p then None else tpage m pt q)"
  using assms(2)
proof (induction q)
  case (Cons j q)
  have q: "vpath q" "j < 512" using Cons.prems vpath_Cons by blast+
  have len: "length q \<le> 1" using Cons.prems by (simp add: vpath_def)
  have pt: "tpage m pt p = Some t" using l by (simp add: linked_def)
  note IH = Cons.IH[OF q(1)]
  consider "q = i # p" | "q = p" "j = i" | "q \<noteq> i # p" "(p, i) \<noteq> (q, j)" by auto
  then show ?case
  proof cases
    case 1
    then show ?thesis using IH link_new[OF l q(2)] by (simp add: pnext_def)
  next
    case 2
    then show ?thesis using IH pt link_slot[OF l] by auto
  next
    case 3
    have "\<not> (\<exists>j'. q = j' # i # p)" using len by auto
    then have IH': "tpage (link_mem m t i n) pt q = tpage m pt q" using IH 3(1) by simp
    have "pnext (link_mem m t i n) u j = pnext m u j" if "tpage m pt q = Some u" for u
      using link_other[OF l q(1) that q(2) 3(2)] by (simp add: pnext_def)
    then show ?thesis using 3 IH' by (auto split: option.split)
  qed
qed simp

lemma entry_link:
  assumes l: "linked m pt A p t i n"
  shows "entry (link_mem m t i n) pt va = entry m pt va"
proof -
  have none: "tpage m pt (i # p) = None" using l by (simp add: linked_def)
  have ne: "(p, i) \<noteq> (vp va 0, PX 0 va)" using l by (auto simp: linked_def vp_def)
  consider "vp va 0 = i # p" | j where "vp va 0 = j # i # p"
    | "vp va 0 \<noteq> i # p" "\<not> (\<exists>j. vp va 0 = j # i # p)" by blast
  then show ?thesis
  proof cases
    case 1
    then show ?thesis using tpage_link[OF l vp_vpath, of va 0] none link_new[OF l PX_lt] by (simp add: entry_def)
  next
    case 2
    then show ?thesis using tpage_link[OF l vp_vpath, of va 0] none by (simp add: entry_def)
  next
    case 3
    then have "tpage (link_mem m t i n) pt (vp va 0) = tpage m pt (vp va 0)"
      using tpage_link[OF l vp_vpath, of va 0] by simp
    then show ?thesis using link_other[OF l vp_vpath _ PX_lt ne] by (auto simp: entry_def split: option.split)
  qed
qed

lemma pt_wf_link:
  assumes l: "linked m pt A p t i n"
  shows "pt_wf (link_mem m t i n) pt (insert n A)"
proof -
  have wf: "pt_wf m pt A" and n: "n \<notin> A" "pg_aligned n" "n \<noteq> 0" using l by (simp_all add: linked_def)
  let ?m = "link_mem m t i n"
  have cases: "q = i # p \<and> a = n \<or> q \<noteq> i # p \<and> tpage m pt q = Some a" if "vpath q" "tpage ?m pt q = Some a" for q a
    using that tpage_link[OF l that(1)] by (auto split: if_splits)
  have inA: "a \<in> A" if "vpath q" "tpage m pt q = Some a" for q a using pt_wfD(1)[OF wf that] .
  have inj: "q = r" if "vpath q" "vpath r" "tpage ?m pt q = Some a" "tpage ?m pt r = Some a" for q r a
    using cases[OF that(1,3)] cases[OF that(2,4)] inA n(1) pt_wfD(4)[OF wf] that by metis
  show ?thesis unfolding pt_wf_def
  proof (intro conjI allI impI ballI)
    fix q a assume "vpath q \<and> tpage ?m pt q = Some a"
    then show "a \<in> insert n A" using cases inA by blast
  next
    fix q r a assume "vpath q \<and> vpath r \<and> tpage ?m pt q = Some a \<and> tpage ?m pt r = Some a"
    then show "q = r" using inj by blast
  next
    fix a assume "a \<in> insert n A"
    then show "pg_aligned a" "a \<noteq> 0" using n wf by (auto simp: pt_wf_def)
  qed
qed

section \<open>Walking with allocation\<close>

text \<open>The allocator has the free pages \<open>xs\<close>, and \<open>A\<close> holds the pages of the table at \<open>pt\<close>.\<close>

definition table_ok :: "kstate \<Rightarrow> u64 \<Rightarrow> u64 set \<Rightarrow> u64 list \<Rightarrow> bool" where
  "table_ok s pt A xs \<longleftrightarrow> kmem_ready s xs \<and> pt_wf (mem s) pt A \<and> A \<inter> set xs = {}"

lemma kmem_ready_outside:
  assumes "kmem_ready s xs" and "\<And>a. \<exists>x \<in> set xs. within x 4096 a \<Longrightarrow> m a = mem s a"
  shows "kmem_ready (s\<lparr>mem := m\<rparr>) xs"
  using assms kmem_inv_outside[of s xs m] by (simp add: kmem_ready_def)

lemma free_page_ok: "kmem_ready s xs \<Longrightarrow> x \<in> set xs \<Longrightarrow> pg_aligned x \<and> x \<noteq> 0"
  by (auto simp: kmem_ready_def kmem_inv_def page_ok_def)

lemma within_same_page:
  "pg_aligned p \<Longrightarrow> pg_aligned q \<Longrightarrow> within p 4096 a \<Longrightarrow> within q 4096 a \<Longrightarrow> p = q"
  using apart_not_within[OF pages_apart[of p q]] by blast

text \<open>A new table page, taken from the allocator, zeroed and linked.\<close>

definition link_state :: "kstate \<Rightarrow> u64 \<Rightarrow> u64 \<Rightarrow> u64 \<Rightarrow> kstate" where
  "link_state s t i n = s\<lparr>mem := link_mem (memset n 0 4096 (mem s)) t i n\<rparr>"

lemma new_table:
  assumes tk: "table_ok s pt A (n # ys)" and p: "vpath p" "length p \<le> 1" "tpage (mem s) pt p = Some t"
    and i: "i < 512" "pnext (mem s) t i = None"
  shows "\<exists>s1. kalloc s = Ok n s1 \<and> table_ok (link_state s1 t i n) pt (insert n A) ys \<and>
    same_but_pages (insert n A) s (link_state s1 t i n) \<and>
    (\<forall>v. entry (mem (link_state s1 t i n)) pt v = entry (mem s) pt v) \<and>
    tpage (mem (link_state s1 t i n)) pt (i # p) = Some n \<and> n \<noteq> 0"
proof -
  have wf: "pt_wf (mem s) pt A" and rd: "kmem_ready s (n # ys)" and dis: "A \<inter> set (n # ys) = {}"
    using tk by (simp_all add: table_ok_def)
  obtain s1 where s1: "kalloc s = Ok n s1" "kmem_ready s1 ys" "same_but_pages {n} s s1"
    using km.alloc_some[OF rd] by blast
  let ?m1 = "memset n 0 4096 (mem s1)" and ?s2 = "link_state s1 t i n"
  have n: "pg_aligned n" "n \<noteq> 0" "n \<notin> A" "n \<notin> set ys"
    using free_page_ok[OF rd] dis rd by (auto simp: kmem_ready_def kmem_inv_def)
  have fn: "fits n 4096" using aligned_top[OF n(1)] by (simp add: fits_def)
  have al: "pg_aligned x" if "x \<in> A \<or> x \<in> set ys" for x
    using that wf free_page_ok[OF s1(2)] by (auto simp: pt_wf_def)
  have m1: "?m1 a = mem s a" if "\<not> within n 4096 a" for a
    using that s1(3) by (simp add: memset_at[OF fn] same_but_pages_def)
  have ag: "agree A (mem s) ?m1"
    unfolding agree_def using m1 within_same_page[OF n(1)] n(3) al by blast
  note tp = tpage_agree[OF wf ag p(1)]
  have tA: "t \<in> A" "pg_aligned t" using pt_wfD[OF wf p(1,3)] by auto
  have "pnext ?m1 t i = None" using i(2) ld64_agree[OF ag tA i(1)] by (simp add: pnext_def split: if_splits)
  then have l: "linked ?m1 pt A p t i n"
    using pt_wf_agree[OF wf ag] p i n tp by (auto simp: linked_def zero_page_def memset_at[OF fn])
  have fs: "fits (t + 8 * i) 8" by (rule slot_fits[OF tA(2) i(1)])
  have m2: "mem ?s2 a = mem s a" if "\<not> within n 4096 a" "\<not> within t 4096 a" for a
  proof -
    have "\<not> within (t + 8 * i) 8 a" using that(2) slot_in_page[OF tA(2) i(1)] by blast
    then show ?thesis using m1[OF that(1)] by (simp add: link_state_def link_mem_def st64_other[OF fs])
  qed
  show ?thesis
  proof (intro exI[of _ s1] conjI allI)
    show "kalloc s = Ok n s1" by (rule s1(1))
    have "mem ?s2 a = mem s1 a" if "\<exists>x \<in> set ys. within x 4096 a" for a
    proof -
      obtain x where x: "x \<in> set ys" "within x 4096 a" using \<open>\<exists>x \<in> set ys. within x 4096 a\<close> by blast
      have "\<not> within n 4096 a" using within_same_page[OF n(1) al _ x(2)] x(1) n(4) by blast
      moreover have "\<not> within t 4096 a" using within_same_page[OF tA(2) al _ x(2)] x(1) tA(1) dis by auto
      ultimately show ?thesis using m2 s1(3) by (simp add: same_but_pages_def)
    qed
    then have "kmem_ready ?s2 ys" unfolding link_state_def by (intro kmem_ready_outside[OF s1(2)]) simp
    then show "table_ok ?s2 pt (insert n A) ys"
      using pt_wf_link[OF l] dis n(4) by (simp add: table_ok_def link_state_def)
    have "s1\<lparr>mem := mem ?s2, freelist := freelist ?s2\<rparr> = ?s2" by (simp add: link_state_def)
    moreover have "mem ?s2 a = mem s1 a" if "\<forall>x \<in> {t, n}. \<not> within x 4096 a" for a
      using m2 that s1(3) by (simp add: same_but_pages_def)
    ultimately have "same_but_pages {t, n} s1 ?s2" by (simp add: same_but_pages_def)
    then have "same_but_pages ({n} \<union> {t, n}) s ?s2" by (rule same_but_pages_trans[OF s1(3)])
    then show "same_but_pages (insert n A) s ?s2" using tA(1) by (auto simp: same_but_pages_def)
    show "entry (mem ?s2) pt v = entry (mem s) pt v" for v
      using entry_link[OF l] entry_agree[OF wf ag] by (simp add: link_state_def)
    show "tpage (mem ?s2) pt (i # p) = Some n"
      using tpage_link[OF l, of "i # p"] p i(1) by (simp add: link_state_def vpath_def)
    show "n \<noteq> 0" by (rule n(2))
  qed
qed

text \<open>What an operation that may add table pages guarantees: it takes pages off the front of the free
  list, keeps the table a tree and every entry as it was, and touches only table pages.\<close>

definition grows :: "kstate \<Rightarrow> u64 \<Rightarrow> u64 set \<Rightarrow> u64 list \<Rightarrow> kstate \<Rightarrow> u64 list \<Rightarrow> u64 list \<Rightarrow> bool" where
  "grows s pt A xs s' B ys \<longleftrightarrow> xs = B @ ys \<and> table_ok s' pt (A \<union> set B) ys \<and> same_but_pages (A \<union> set B) s s'"

lemma grows_refl: "table_ok s pt A xs \<Longrightarrow> grows s pt A xs s [] xs"
  by (simp add: grows_def same_but_pages_def)

lemma grows_trans:
  assumes "grows s pt A xs s1 B ys" and "grows s1 pt (A \<union> set B) ys s2 C zs"
  shows "grows s pt A xs s2 (B @ C) zs"
proof -
  have "same_but_pages (A \<union> set B) s s1" "same_but_pages (A \<union> set B \<union> set C) s1 s2"
    using assms by (simp_all add: grows_def)
  then have "same_but_pages ((A \<union> set B) \<union> (A \<union> set B \<union> set C)) s s2" by (rule same_but_pages_trans)
  moreover have "(A \<union> set B) \<union> (A \<union> set B \<union> set C) = A \<union> set (B @ C)" by auto
  ultimately show ?thesis using assms by (simp add: grows_def Un_assoc)
qed

lemma walk_from_ok:
  assumes "table_ok s pt A xs" and "l \<le> 2" and "tpage (mem s) pt (vp va l) = Some t"
  shows "\<exists>x s' B ys. walk_from l t va True s = Ok x s' \<and> grows s pt A xs s' B ys \<and>
    (\<forall>v. entry (mem s') pt v = entry (mem s) pt v) \<and>
    (x = 0 \<and> ys = [] \<or> (\<exists>t0. tpage (mem s') pt (vp va 0) = Some t0 \<and> x = t0 + 8 * PX 0 va \<and> x \<noteq> 0))"
  using assms
proof (induction l arbitrary: s t A xs)
  case 0
  have wf: "pt_wf (mem s) pt A" using 0(1) by (simp add: table_ok_def)
  note d = pt_wfD[OF wf vp_vpath 0(3)]
  have "unat t \<noteq> 0" using d(3) by (simp add: unat_eq_0)
  then have "t + 8 * PX 0 va \<noteq> 0" using unat_slot[OF d(2) PX_lt, of 0 va] by auto
  then show ?case using grows_refl[OF 0(1)] 0(3) by auto
next
  case (Suc l)
  let ?i = "PX (Suc l) va"
  have vp: "vp va l = ?i # vp va (Suc l)" using vp_step[of l va] Suc(3) by simp
  have e: "getmem (t + 8 * ?i) s = Ok (ld64 (mem s) (t + 8 * ?i)) s" by (simp add: getmem_def)
  have len: "length (vp va (Suc l)) \<le> 1" by (simp add: vp_def)
  show ?case
  proof (cases "pnext (mem s) t ?i")
    case (Some u)
    then have "tpage (mem s) pt (vp va l) = Some u" using Suc(4) vp by simp
    from Suc.IH[OF Suc(2) _ this] Suc(3) Some show ?thesis
      by (auto simp: e pnext_def split: if_splits)
  next
    case None
    then have nv: "ld64 (mem s) (t + 8 * ?i) AND PTE_V = 0" by (auto simp: pnext_def split: if_splits)
    show ?thesis
    proof (cases xs)
      case Nil
      then have "kalloc s = Ok 0 s" using Suc(2) km.alloc_none by (simp add: table_ok_def)
      then show ?thesis using grows_refl[OF Suc(2)] Nil nv by (auto simp: e)
    next
      case (Cons n ys)
      obtain s1 where s1: "kalloc s = Ok n s1" "table_ok (link_state s1 t ?i n) pt (insert n A) ys"
          "same_but_pages (insert n A) s (link_state s1 t ?i n)"
          "\<forall>v. entry (mem (link_state s1 t ?i n)) pt v = entry (mem s) pt v"
          "tpage (mem (link_state s1 t ?i n)) pt (?i # vp va (Suc l)) = Some n" "n \<noteq> 0"
        using new_table[OF Suc(2)[unfolded Cons] vp_vpath len Suc(4) PX_lt None] by blast
      let ?s2 = "link_state s1 t ?i n"
      have g: "grows s pt A xs ?s2 [n] ys" using s1(2,3) Cons by (simp add: grows_def)
      obtain x s' B zs where r: "walk_from l n va True ?s2 = Ok x s'" "grows ?s2 pt (insert n A) ys s' B zs"
          "\<forall>v. entry (mem s') pt v = entry (mem ?s2) pt v"
          "x = 0 \<and> zs = [] \<or> (\<exists>t0. tpage (mem s') pt (vp va 0) = Some t0 \<and> x = t0 + 8 * PX 0 va \<and> x \<noteq> 0)"
        using Suc.IH[OF s1(2) _ s1(5)[folded vp]] Suc(3) by auto
      have "walk_from (Suc l) t va True s = Ok x s'"
        using nv s1(1,6) r(1) by (simp add: e kmemset_def putmem_def link_state_def link_mem_def)
      moreover have "grows s pt A xs s' ([n] @ B) zs" using grows_trans[OF g] r(2) by simp
      ultimately show ?thesis using r(3,4) s1(4) by metis
    qed
  qed
qed

lemma walk_ok:
  assumes "table_ok s pt A xs" and "va < MAXVA"
  shows "\<exists>x s' B ys. walk pt va True s = Ok x s' \<and> grows s pt A xs s' B ys \<and>
    (\<forall>v. entry (mem s') pt v = entry (mem s) pt v) \<and>
    (x = 0 \<and> ys = [] \<or> (\<exists>t0. tpage (mem s') pt (vp va 0) = Some t0 \<and> x = t0 + 8 * PX 0 va \<and> x \<noteq> 0))"
proof -
  have "vp va 2 = []" by (simp add: vp_def)
  then show ?thesis using walk_from_ok[OF assms(1), of 2 va pt] assms(2) by (simp add: walk_def not_le)
qed

text \<open>Without allocation a walk changes nothing and finds the slot of the entry, if there is one.\<close>

lemma walk_from_find:
  assumes "pt_wf (mem s) pt A" and "l \<le> 2" and "tpage (mem s) pt (vp va l) = Some t"
  shows "walk_from l t va False s =
    Ok (case tpage (mem s) pt (vp va 0) of None \<Rightarrow> 0 | Some t0 \<Rightarrow> t0 + 8 * PX 0 va) s"
  using assms(2,3)
proof (induction l arbitrary: t)
  case (Suc l)
  let ?i = "PX (Suc l) va"
  have vp: "vp va l = ?i # vp va (Suc l)" using vp_step[of l va] Suc(2) by simp
  show ?case
  proof (cases "pnext (mem s) t ?i")
    case (Some u)
    then have "tpage (mem s) pt (vp va l) = Some u" using Suc(3) vp by simp
    from Suc.IH[OF _ this] Suc(2) Some show ?thesis
      by (auto simp: getmem_def pnext_def split: if_splits)
  next
    case None
    then have "tpage (mem s) pt (vp va l) = None" using Suc(3) vp by simp
    then have "tpage (mem s) pt (vp va 0) = None"
      using vp_step[of 0 va] Suc(2) by (cases l) (auto simp: less_Suc_eq numeral_2_eq_2)
    then show ?thesis using None by (auto simp: getmem_def pnext_def split: if_splits)
  qed
qed simp

lemma walk_find:
  assumes "pt_wf (mem s) pt A" and "va < MAXVA"
  shows "walk pt va False s =
    Ok (case tpage (mem s) pt (vp va 0) of None \<Rightarrow> 0 | Some t0 \<Rightarrow> t0 + 8 * PX 0 va) s"
  using walk_from_find[OF assms(1), of 2 va pt] assms(2) by (simp add: walk_def not_le vp_def)

lemma slot_nonzero:
  assumes "pt_wf m pt A" and "tpage m pt (vp va 0) = Some t"
  shows "t + 8 * PX 0 va \<noteq> 0"
proof -
  note d = pt_wfD[OF assms(1) vp_vpath assms(2)]
  have "unat t \<noteq> 0" using d(3) by (simp add: unat_eq_0)
  then show ?thesis using unat_slot[OF d(2) PX_lt, of 0 va] by auto
qed

lemma walkaddr_entry:
  assumes "pt_wf (mem s) pt A" and "va < MAXVA"
  shows "walkaddr pt va s = Ok (let e = entry (mem s) pt va in
    if e AND PTE_V = 0 \<or> e AND PTE_U = 0 then 0 else PTE2PA e) s"
proof (cases "tpage (mem s) pt (vp va 0)")
  case None
  then show ?thesis using walk_find[OF assms] assms(2) by (simp add: walkaddr_def entry_def not_le Let_def)
next
  case (Some t)
  then show ?thesis using walk_find[OF assms] assms slot_nonzero[OF assms(1) Some]
    by (auto simp: walkaddr_def entry_def not_le Let_def getmem_def)
qed

section \<open>Mapping\<close>

lemma page_of:
  assumes "pg_aligned a"
  shows "PGROUNDDOWN v = a \<longleftrightarrow> unat a \<le> unat v \<and> unat v < unat a + 4096"
proof -
  obtain i where i: "unat a = 4096 * i" using assms unfolding aligned_nat by (metis dvdE)
  have "PGROUNDDOWN v = a \<longleftrightarrow> unat v div 4096 * 4096 = 4096 * i"
    by (simp add: word_unat_eq_iff unat_pgrounddown i)
  also have "\<dots> \<longleftrightarrow> unat v div 4096 = i" by auto
  also have "\<dots> \<longleftrightarrow> i \<le> unat v div 4096 \<and> unat v div 4096 < Suc i" by auto
  also have "\<dots> \<longleftrightarrow> i * 4096 \<le> unat v \<and> unat v < Suc i * 4096"
    by (subst less_eq_div_iff_mult_less_eq, simp, subst div_less_iff_less_mult, simp, rule refl)
  finally show ?thesis using i by (simp add: mult.commute add.commute)
qed

lemma MAXVA_nat: "v < MAXVA \<longleftrightarrow> unat v < 2 ^ 38"
  by (simp add: word_less_nat_alt MAXVA_def)

text \<open>Storing an entry at the slot a walk has found.\<close>

lemma store_entry:
  assumes g: "grows s pt A xs s1 B ys" and t: "tpage (mem s1) pt (vp va 0) = Some t" and va: "va < MAXVA"
    and s2_def: "s2 = s1\<lparr>mem := st64 (t + 8 * PX 0 va) e (mem s1)\<rparr>"
  shows "grows s pt A xs s2 B ys"
    and "v < MAXVA \<Longrightarrow> entry (mem s2) pt v = (if PGROUNDDOWN v = PGROUNDDOWN va then e else entry (mem s1) pt v)"
proof -
  have tk: "table_ok s1 pt (A \<union> set B) ys" using g by (simp add: grows_def)
  then have wf: "pt_wf (mem s1) pt (A \<union> set B)" and rd: "kmem_ready s1 ys"
    and dis: "(A \<union> set B) \<inter> set ys = {}" by (simp_all add: table_ok_def)
  note d = pt_wfD[OF wf vp_vpath t]
  have other: "mem s2 a = mem s1 a" if "\<not> within t 4096 a" for a
  proof -
    have "\<not> within (t + 8 * PX 0 va) 8 a" using that slot_in_page[OF d(2) PX_lt] by blast
    then show ?thesis by (simp add: s2_def st64_other[OF slot_fits[OF d(2) PX_lt]])
  qed
  have "mem s2 a = mem s1 a" if "\<exists>x \<in> set ys. within x 4096 a" for a
    using that other within_same_page[OF d(2)] d(1) dis free_page_ok[OF rd] by blast
  then have "kmem_ready s2 ys" unfolding s2_def by (intro kmem_ready_outside[OF rd]) simp
  then have tk2: "table_ok s2 pt (A \<union> set B) ys"
    using pt_wf_leaf_store[OF wf t] dis by (simp add: table_ok_def s2_def)
  have "s1\<lparr>mem := mem s2, freelist := freelist s2\<rparr> = s2" by (simp add: s2_def)
  then have "same_but_pages {t} s1 s2" using other by (simp add: same_but_pages_def)
  then have "same_but_pages ((A \<union> set B) \<union> {t}) s s2"
    using g same_but_pages_trans by (metis grows_def)
  then have "same_but_pages (A \<union> set B) s s2" using d(1) by (simp add: insert_absorb)
  then show "grows s pt A xs s2 B ys" using g tk2 by (simp add: grows_def)
  show "v < MAXVA \<Longrightarrow> entry (mem s2) pt v = (if PGROUNDDOWN v = PGROUNDDOWN va then e else entry (mem s1) pt v)"
    using entry_leaf_store[OF wf t va] by (simp add: s2_def)
qed

text \<open>One pass of the loop of \<open>mappages\<close>.\<close>

lemma map_one:
  assumes "table_ok s pt A xs" and a: "pg_aligned a" "a < MAXVA" and nv: "entry (mem s) pt a AND PTE_V = 0"
  shows "\<exists>x s1 B ys. walk pt a True s = Ok x s1 \<and>
    (x = 0 \<and> grows s pt A xs s1 B [] \<or>
     x \<noteq> 0 \<and> ld64 (mem s1) x AND PTE_V = 0 \<and> grows s pt A xs (s1\<lparr>mem := st64 x e (mem s1)\<rparr>) B ys \<and>
     (\<forall>v < MAXVA. entry (st64 x e (mem s1)) pt v = (if PGROUNDDOWN v = a then e else entry (mem s) pt v)))"
proof -
  obtain x s1 B ys where w: "walk pt a True s = Ok x s1" "grows s pt A xs s1 B ys"
      "\<forall>v. entry (mem s1) pt v = entry (mem s) pt v"
      "x = 0 \<and> ys = [] \<or> (\<exists>t0. tpage (mem s1) pt (vp a 0) = Some t0 \<and> x = t0 + 8 * PX 0 a \<and> x \<noteq> 0)"
    using walk_ok[OF assms(1) a(2)] by blast
  show ?thesis
  proof (cases "x = 0")
    case True
    then show ?thesis using w by auto
  next
    case False
    then obtain t where t: "tpage (mem s1) pt (vp a 0) = Some t" "x = t + 8 * PX 0 a" using w(4) by blast
    have "entry (mem s1) pt a AND PTE_V = 0" using w(3) nv by simp
    then have "ld64 (mem s1) x AND PTE_V = 0" using t by (simp add: entry_def)
    moreover have "PGROUNDDOWN a = a" using page_of[OF a(1), of a] by simp
    ultimately show ?thesis
      using w(1,3) False store_entry[where e = e, OF w(2) t(1) a(2) refl, folded t(2)] by auto
  qed
qed

text \<open>The entry that \<open>mappages\<close> gives to address \<open>v\<close> of a range starting at \<open>a\<close>.\<close>

definition map_entry :: "u64 \<Rightarrow> u64 \<Rightarrow> u64 \<Rightarrow> u64 \<Rightarrow> u64" where
  "map_entry a pa perm v = PA2PTE (pa + (PGROUNDDOWN v - a)) OR perm OR PTE_V"

lemma map_entry_next: "map_entry (a + PGSIZE) (pa + PGSIZE) perm v = map_entry a pa perm v"
  by (simp add: map_entry_def)

lemma map_entry_first: "PGROUNDDOWN v = a \<Longrightarrow> map_entry a pa perm v = PA2PTE pa OR perm OR PTE_V"
  by (simp add: map_entry_def)

definition in_range :: "u64 \<Rightarrow> nat \<Rightarrow> u64 \<Rightarrow> bool" where
  "in_range a n v \<longleftrightarrow> unat a \<le> unat v \<and> unat v < unat a + 4096 * n"

lemma range_step:
  assumes "pg_aligned a" and "unat a + 4096 \<le> 2 ^ 38"
  shows "in_range a (Suc n) v \<longleftrightarrow> PGROUNDDOWN v = a \<or> in_range (a + PGSIZE) n v"
    and "\<not> (PGROUNDDOWN v = a \<and> in_range (a + PGSIZE) n v)"
    and "pg_aligned (a + PGSIZE)" and "unat (a + PGSIZE) = unat a + 4096"
proof -
  show u: "unat (a + PGSIZE) = unat a + 4096" using assms(2) by (simp add: unat_plus_if' PGSIZE_def)
  then show "pg_aligned (a + PGSIZE)" using assms(1) by (simp add: aligned_nat)
  show "in_range a (Suc n) v \<longleftrightarrow> PGROUNDDOWN v = a \<or> in_range (a + PGSIZE) n v"
    and "\<not> (PGROUNDDOWN v = a \<and> in_range (a + PGSIZE) n v)"
    unfolding in_range_def u page_of[OF assms(1)] by auto
qed

lemma last_page:
  assumes "unat a + 4096 * Suc (Suc k) \<le> 2 ^ 38"
  shows "a \<noteq> a + of_nat (Suc k) * PGSIZE"
proof -
  have "unat (of_nat (Suc k) * PGSIZE) = 4096 * Suc k"
    using assms by (simp add: unat_word_ariths PGSIZE_def unsigned_of_nat take_bit_nat_eq_self)
  then have "of_nat (Suc k) * PGSIZE \<noteq> 0" by (metis mult_is_0 nat.distinct(1) unat_0 zero_neq_numeral)
  then show ?thesis by (metis add_cancel_left_right)
qed

lemma map_pages_loop_ok:
  assumes "table_ok s pt A xs" and "pg_aligned a" and "unat a + 4096 * Suc k \<le> 2 ^ 38"
    and "\<And>v. in_range a (Suc k) v \<Longrightarrow> entry (mem s) pt v AND PTE_V = 0"
  shows "\<exists>r s' B ys. mappages_loop (Suc k) pt a (a + of_nat k * PGSIZE) pa perm s = Ok r s' \<and> grows s pt A xs s' B ys \<and>
    (r = -1 \<and> ys = [] \<or> r = 0 \<and> (\<forall>v < MAXVA. entry (mem s') pt v =
       (if in_range a (Suc k) v then map_entry a pa perm v else entry (mem s) pt v)))"
  using assms
proof (induction k arbitrary: s A xs a pa)
  case (0 s A xs a pa)
  have a: "a < MAXVA" "unat a + 4096 \<le> 2 ^ 38" and i: "in_range a (Suc 0) a"
    using 0(3) by (simp_all add: MAXVA_nat in_range_def)
  note rs = range_step(1)[OF 0(2) a(2)]
  have n: "\<not> in_range (a + PGSIZE) 0 v" for v by (simp add: in_range_def)
  show ?case
    using map_one[OF 0(1,2) a(1) 0(4)[OF i], of "PA2PTE pa OR perm OR PTE_V"]
    by (elim exE conjE disjE) (auto simp: getmem_def putmem_def rs n map_entry_first)
next
  case (Suc k s A xs a pa)
  have a: "a < MAXVA" "unat a + 4096 \<le> 2 ^ 38" and i: "in_range a (Suc (Suc k)) a"
    using Suc(4) by (simp_all add: MAXVA_nat in_range_def)
  note rs = range_step[OF Suc(3) a(2)]
  let ?e = "PA2PTE pa OR perm OR PTE_V" and ?b = "a + PGSIZE" and ?l = "a + of_nat (Suc k) * PGSIZE"
  have ne: "a \<noteq> ?l" using last_page[OF Suc(4)] .
  have l: "?l = ?b + of_nat k * PGSIZE" by (simp add: algebra_simps)
  from map_one[OF Suc(2,3) a(1) Suc(5)[OF i], of ?e] obtain x s1 B ys where w: "walk pt a True s = Ok x s1"
    and c: "x = 0 \<and> grows s pt A xs s1 B [] \<or>
      x \<noteq> 0 \<and> ld64 (mem s1) x AND PTE_V = 0 \<and> grows s pt A xs (s1\<lparr>mem := st64 x ?e (mem s1)\<rparr>) B ys \<and>
      (\<forall>v < MAXVA. entry (st64 x ?e (mem s1)) pt v = (if PGROUNDDOWN v = a then ?e else entry (mem s) pt v))"
    by blast
  show ?case
  proof (cases "x = 0")
    case True
    then show ?thesis using w c by auto
  next
    case False
    let ?s2 = "s1\<lparr>mem := st64 x ?e (mem s1)\<rparr>"
    have g: "grows s pt A xs ?s2 B ys" and nv: "ld64 (mem s1) x AND PTE_V = 0"
      and en: "entry (mem ?s2) pt v = (if PGROUNDDOWN v = a then ?e else entry (mem s) pt v)" if "v < MAXVA" for v
      using c False that by auto
    have um: "entry (mem ?s2) pt v AND PTE_V = 0" if v: "in_range ?b (Suc k) v" for v
    proof -
      have "v < MAXVA" using v Suc(4) rs(4) by (simp add: in_range_def MAXVA_nat)
      then show ?thesis using en rs(1,2) v Suc(5) by metis
    qed
    have "table_ok ?s2 pt (A \<union> set B) ys" using g[of 0] by (simp add: grows_def MAXVA_nat)
    from Suc.IH[OF this rs(3) _ um, of "pa + PGSIZE"] obtain r s' C zs
      where r: "mappages_loop (Suc k) pt ?b ?l (pa + PGSIZE) perm ?s2 = Ok r s'"
        "grows ?s2 pt (A \<union> set B) ys s' C zs"
        "r = -1 \<and> zs = [] \<or> r = 0 \<and> (\<forall>v < MAXVA. entry (mem s') pt v =
           (if in_range ?b (Suc k) v then map_entry ?b (pa + PGSIZE) perm v else entry (mem ?s2) pt v))"
      using Suc(4) rs(4) unfolding l by auto
    have run: "mappages_loop (Suc (Suc k)) pt a ?l pa perm s = Ok r s'"
      using w False nv[of 0] ne r(1) by (simp add: getmem_def putmem_def MAXVA_nat)
    have "grows s pt A xs s' (B @ C) zs" using grows_trans[OF g[of 0] r(2)] by (simp add: MAXVA_nat)
    moreover have "entry (mem s') pt v = (if in_range a (Suc (Suc k)) v then map_entry a pa perm v else entry (mem s) pt v)"
      if "v < MAXVA" "r = 0" for v
      using r(3) that en[OF that(1)] rs(1,2) map_entry_next map_entry_first by auto
    ultimately show ?thesis using run r(3) by blast
  qed
qed

section \<open>Properties\<close>

lemma aligned_multiple: "pg_aligned a \<longleftrightarrow> (\<exists>k. a = k * PGSIZE)"
proof
  assume "pg_aligned a"
  then have "a = a div PGSIZE * PGSIZE" using div_mult_mod_eq[of a PGSIZE] by (simp add: pg_aligned_def)
  then show "\<exists>k. a = k * PGSIZE" ..
next
  assume "\<exists>k. a = k * PGSIZE"
  then obtain k where "a = push_bit 12 k" by (auto simp: push_bit_eq_mult PGSIZE_def)
  then show "pg_aligned a" by (simp add: aligned_bits bit_simps)
qed

lemma aligned_shift: "pg_aligned pa \<Longrightarrow> pg_aligned a \<Longrightarrow> pg_aligned b \<Longrightarrow> pg_aligned (pa + (b - a))"
proof -
  assume "pg_aligned pa" "pg_aligned a" "pg_aligned b"
  then obtain i j k where "pa = i * PGSIZE" "a = j * PGSIZE" "b = k * PGSIZE" unfolding aligned_multiple by blast
  then have "pa + (b - a) = (i + (k - j)) * PGSIZE" by (simp add: algebra_simps)
  then show ?thesis unfolding aligned_multiple by blast
qed

lemma flags_or: "f < 1024 \<Longrightarrow> (f :: u64) OR PTE_V < 1024"
proof -
  assume f: "f < 1024"
  have "\<not> bit (f OR PTE_V) n" if "10 \<le> n" for n
    using flag_bits[OF f that] flag_bits[of PTE_V n] that by (simp add: bit_simps PTE_V_def)
  then have "take_bit 10 (f OR PTE_V) = f OR PTE_V"
    by (intro bit_word_eqI) (metis bit_take_bit_iff not_le)
  then have "unat (f OR PTE_V) < 2 ^ 10" by (metis take_bit_nat_less_exp unsigned_take_bit_eq)
  then show ?thesis by (simp add: word_less_nat_alt)
qed

lemma user_bit:
  assumes "perm AND PTE_U \<noteq> 0"
  shows "(e OR perm OR PTE_V) AND PTE_U \<noteq> 0"
proof
  assume z: "(e OR perm OR PTE_V) AND PTE_U = 0"
  have "perm AND PTE_U = ((e OR perm OR PTE_V) AND PTE_U) AND (perm AND PTE_U)"
    by (rule bit_word_eqI) (auto simp: bit_simps)
  then show False using assms z by simp
qed


text \<open>A state with an empty page table at 0x80030000 and two free pages.\<close>

definition vm_state :: kstate where
  "vm_state = zero_state\<lparr>freelist := 0x80024000, mem := st64 0x80024000 0x80025000 (\<lambda>_. 0)\<rparr>"

lemma vm_mem: "mem vm_state = st64 0x80024000 0x80025000 (\<lambda>_. 0)"
  by (simp add: vm_state_def)

lemma vm_mem_zero: "pg_aligned t \<Longrightarrow> t \<noteq> 0x80024000 \<Longrightarrow> zero_page (mem vm_state) t"
proof -
  assume t: "pg_aligned t" "t \<noteq> 0x80024000"
  have al: "pg_aligned (0x80024000 :: u64)" by (simp add: aligned_nat)
  have "\<not> within 0x80024000 8 a" if "within t 4096 a" for a
    using within_same_page[OF al t(1) _ that] t(2) by (auto simp: within_def)
  then show ?thesis by (simp add: zero_page_def vm_mem st64_other fits_def)
qed

lemma vm_tpage: "vpath p \<Longrightarrow> tpage (mem vm_state) 0x80030000 p = (if p = [] then Some 0x80030000 else None)"
proof (induction p)
  case (Cons i p)
  have "pg_aligned (0x80030000 :: u64)" by (simp add: aligned_nat)
  then have "ld64 (mem vm_state) (0x80030000 + 8 * i) = 0"
    using ld64_zero[OF vm_mem_zero _ vpath_Cons(2)[OF Cons(2)], of "0x80030000"] by simp
  then show ?case using Cons vpath_Cons by (auto simp: pnext_def)
qed simp

lemma vm_table_ok: "table_ok vm_state 0x80030000 {0x80030000} [0x80024000, 0x80025000]"
proof -
  have z: "zero_page (mem vm_state) 0x80025000" by (rule vm_mem_zero) (simp_all add: aligned_nat)
  have "ld64 (mem vm_state) 0x80024000 = 0x80025000" by (simp add: vm_mem fits_def)
  moreover have "ld64 (mem vm_state) 0x80025000 = 0" using ld64_zero[OF z, of 0] by (simp add: aligned_nat)
  ultimately have "kmem_ready vm_state [0x80024000, 0x80025000]"
    by (simp add: kmem_ready_def kmem_inv_def vm_state_def page_ok_def aligned_nat zero_state_def PHYSTOP_def)
  moreover have "pt_wf (mem vm_state) 0x80030000 {0x80030000}"
    by (auto simp: pt_wf_def vm_tpage aligned_nat split: if_splits)
  ultimately show ?thesis by (simp add: table_ok_def)
qed

lemma vm_entry: "entry (mem vm_state) 0x80030000 v = 0"
  using vm_tpage[OF vp_vpath, of v 0] by (simp add: entry_def vp_def)


end
