(* ===== verification/Usermem.thy ===== *)
theory Usermem
  imports Pagetable
begin

text \<open>
  User memory as seen through a page table: \<open>ubyte\<close> is the byte a user access reads. \<open>copyout\<close>
  changes exactly the bytes of its destination and \<open>copyin\<close> returns the bytes of its source, page
  by page, wherever the pages lie in physical memory.
\<close>

section \<open>The user's view of memory\<close>

definition upage :: "memory \<Rightarrow> u64 \<Rightarrow> u64 \<Rightarrow> bool" where
  "upage m pt v \<longleftrightarrow> v < MAXVA \<and> entry m pt v AND PTE_V \<noteq> 0 \<and> entry m pt v AND PTE_U \<noteq> 0"

definition uwrite :: "memory \<Rightarrow> u64 \<Rightarrow> u64 \<Rightarrow> bool" where
  "uwrite m pt v \<longleftrightarrow> upage m pt v \<and> entry m pt v AND PTE_W \<noteq> 0"

definition ubyte :: "memory \<Rightarrow> u64 \<Rightarrow> u64 \<Rightarrow> byte" where
  "ubyte m pt v = m (PTE2PA (entry m pt v) + (v - PGROUNDDOWN v))"

text \<open>User pages are not table pages, and two virtual pages have two physical ones.\<close>

definition uspace :: "memory \<Rightarrow> u64 \<Rightarrow> u64 set \<Rightarrow> bool" where
  "uspace m pt A \<longleftrightarrow> pt_wf m pt A \<and>
     (\<forall>v. upage m pt v \<longrightarrow> PTE2PA (entry m pt v) \<notin> A \<and> PTE2PA (entry m pt v) \<noteq> 0) \<and>
     (\<forall>v w. upage m pt v \<and> upage m pt w \<and> PTE2PA (entry m pt v) = PTE2PA (entry m pt w) \<longrightarrow>
        PGROUNDDOWN v = PGROUNDDOWN w)"

lemma entry_page: "PGROUNDDOWN v = PGROUNDDOWN w \<Longrightarrow> entry m pt v = entry m pt w"
proof -
  assume "PGROUNDDOWN v = PGROUNDDOWN w"
  then have "PX l v = PX l w" for l using PX_page by metis
  then have "vp v 0 = vp w 0" "PX 0 v = PX 0 w" by (simp_all add: vp_def)
  then show ?thesis unfolding entry_def by (simp only:)
qed

lemma PTE2PA_aligned [simp]: "pg_aligned (PTE2PA e)"
  by (simp add: aligned_bits PTE2PA_def bit_simps)

lemma uspace_agree:
  assumes "uspace m pt A" and "agree A m m'"
  shows "uspace m' pt A" and "entry m' pt v = entry m pt v" and "upage m' pt v = upage m pt v"
    and "uwrite m' pt v = uwrite m pt v"
proof -
  have wf: "pt_wf m pt A" using assms(1) by (simp add: uspace_def)
  have e: "entry m' pt v = entry m pt v" for v by (rule entry_agree[OF wf assms(2)])
  show "entry m' pt v = entry m pt v" "upage m' pt v = upage m pt v" "uwrite m' pt v = uwrite m pt v"
    by (simp_all add: upage_def uwrite_def e)
  show "uspace m' pt A" using assms(1) pt_wf_agree[OF wf assms(2)] by (simp add: uspace_def upage_def e)
qed

text \<open>Where a byte of a page lies.\<close>

lemma uaddr_nat:
  assumes "pg_aligned p"
  shows "unat (p + (v - PGROUNDDOWN v)) = unat p + unat v mod 4096"
proof -
  have "unat v mod 4096 < 4096" by simp
  then have "unat p + unat v mod 4096 < 2 ^ 64" using aligned_top[OF assms] by linarith
  then show ?thesis using page_offset[of v] by (simp add: unat_plus_if')
qed

lemma rounddown_nat: "unat (PGROUNDDOWN v) + unat v mod 4096 = unat v"
  by (simp add: unat_pgrounddown)

section \<open>One page of a copy\<close>

lemma chunk_nat: "chunk va len = min (4096 - unat va mod 4096) len"
  by (simp add: chunk_def unat_rest)

lemma in_chunk:
  assumes "unat va \<le> unat v" and "unat v < unat va + chunk va len"
  shows "PGROUNDDOWN v = PGROUNDDOWN va"
    and "unat v mod 4096 = unat va mod 4096 + (unat v - unat va)"
proof -
  have u: "unat (PGROUNDDOWN va) \<le> unat v" "unat v < unat (PGROUNDDOWN va) + 4096"
    using assms rounddown_nat[of va] by (simp_all add: chunk_nat)
  then show p: "PGROUNDDOWN v = PGROUNDDOWN va" using page_of[OF pgrounddown_aligned, of v va] by simp
  show "unat v mod 4096 = unat va mod 4096 + (unat v - unat va)"
    using rounddown_nat[of va] rounddown_nat[of v] p assms(1) by simp
qed

text \<open>The bytes that one pass of \<open>copyout\<close> stores.\<close>

lemma chunk_store:
  assumes us: "uspace m pt A" and va: "upage m pt va" and len: "length bs = chunk va len"
    and m': "m' = write_bytes m (PTE2PA (entry m pt va) + (va - PGROUNDDOWN va)) bs"
  shows "agree A m m'"
    and "upage m pt v \<Longrightarrow> ubyte m' pt v =
      (if unat va \<le> unat v \<and> unat v < unat va + length bs then bs ! (unat v - unat va) else ubyte m pt v)"
proof -
  let ?p = "PTE2PA (entry m pt va)" and ?o = "unat va mod 4096"
  let ?a = "?p + (va - PGROUNDDOWN va)"
  have wf: "pt_wf m pt A" using us by (simp add: uspace_def)
  have a: "unat ?a = unat ?p + ?o" by (rule uaddr_nat) simp
  have ob: "?o + length bs \<le> 4096" using len by (simp add: chunk_nat)
  have f: "fits ?a (length bs)" using a ob aligned_top[of ?p] by (simp add: fits_def)
  have inp: "within ?p 4096 x" if "within ?a (length bs) x" for x
    using that ob unfolding within_def a by simp
  have "m' x = m x" if "y \<in> A" "within y 4096 x" for x y
  proof -
    have "pg_aligned y" "y \<noteq> ?p" using that(1) us va wf by (auto simp: uspace_def pt_wf_def)
    then have "\<not> within ?a (length bs) x" using inp within_same_page[of y ?p x] that(2) by auto
    then show ?thesis using write_bytes_other[OF f] by (simp add: m')
  qed
  then show ag: "agree A m m'" by (auto simp: agree_def)
  assume v: "upage m pt v"
  note e = uspace_agree(2)[OF us ag]
  let ?b = "PTE2PA (entry m pt v) + (v - PGROUNDDOWN v)"
  have b: "unat ?b = unat (PTE2PA (entry m pt v)) + unat v mod 4096" by (rule uaddr_nat) simp
  have ub: "ubyte m' pt v = m' ?b" by (simp add: ubyte_def e)
  show "ubyte m' pt v =
      (if unat va \<le> unat v \<and> unat v < unat va + length bs then bs ! (unat v - unat va) else ubyte m pt v)"
  proof (cases "unat va \<le> unat v \<and> unat v < unat va + length bs")
    case True
    then have i: "PGROUNDDOWN v = PGROUNDDOWN va" "unat v mod 4096 = ?o + (unat v - unat va)"
      using in_chunk[of va v len] len by auto
    have lt: "unat v - unat va < length bs" using True by linarith
    have "unat ?b = unat (?a + of_nat (unat v - unat va))"
      using b i entry_page[OF i(1)] unat_plus_of_nat[OF f lt] a by simp
    then have "?b = ?a + of_nat (unat v - unat va)" by (simp only: word_unat_eq_iff)
    then have "m' ?b = bs ! (unat v - unat va)" using write_bytes_nth[OF f lt, of m] unfolding m' by (simp only:)
    then show ?thesis using True ub by simp
  next
    case False
    have "\<not> within ?a (length bs) ?b"
    proof
      assume w: "within ?a (length bs) ?b"
      have "within (PTE2PA (entry m pt v)) 4096 ?b" by (simp add: within_def b)
      then have "PTE2PA (entry m pt v) = ?p" using within_same_page inp[OF w] by simp
      then have p: "PGROUNDDOWN v = PGROUNDDOWN va" using us va v unfolding uspace_def by blast
      have "?o \<le> unat v mod 4096 \<and> unat v mod 4096 < ?o + length bs"
        using w entry_page[OF p] unfolding within_def a b by simp
      then show False using False rounddown_nat[of v] rounddown_nat[of va] p by simp
    qed
    then have "m' ?b = m ?b" unfolding m' by (rule write_bytes_other[OF f])
    then show ?thesis using False ub by (simp only: if_False ubyte_def)
  qed
qed

lemma page_lt: "v < MAXVA \<Longrightarrow> PGROUNDDOWN v < MAXVA"
  using rounddown_nat[of v] by (simp add: MAXVA_nat)

lemma next_chunk:
  assumes "chunk va len < len" and "unat va + len \<le> 2 ^ 38"
  shows "unat (PGROUNDDOWN va + PGSIZE) = unat va + chunk va len"
proof -
  have "unat (PGROUNDDOWN va) + 4096 = unat va + chunk va len"
    using assms(1) rounddown_nat[of va] by (simp add: chunk_nat min_def split: if_splits)
  moreover from this have "unat (PGROUNDDOWN va) + 4096 < 2 ^ 64" using assms by simp
  ultimately show ?thesis by (simp add: unat_plus_if' PGSIZE_def)
qed

section \<open>Copying out\<close>

lemma copyout_pass:
  assumes us: "uspace (mem s) pt A" and va: "uwrite (mem s) pt va" and "src \<noteq> []"
  shows "copyout pt va src s = copyout pt (PGROUNDDOWN va + PGSIZE) (drop (chunk va (length src)) src)
    (s\<lparr>mem := write_bytes (mem s) (PTE2PA (entry (mem s) pt va) + (va - PGROUNDDOWN va)) (take (chunk va (length src)) src)\<rparr>)"
proof -
  have wf: "pt_wf (mem s) pt A" using us by (simp add: uspace_def)
  have v: "PGROUNDDOWN va < MAXVA" using va page_lt by (simp add: uwrite_def upage_def)
  have pe: "entry (mem s) pt (PGROUNDDOWN va) = entry (mem s) pt va"
    using page_of[OF pgrounddown_aligned, of "PGROUNDDOWN va" va] by (intro entry_page) simp
  have "entry (mem s) pt (PGROUNDDOWN va) \<noteq> 0" using va pe by (auto simp: uwrite_def upage_def)
  then obtain t where t: "tpage (mem s) pt (vp (PGROUNDDOWN va) 0) = Some t"
    by (auto simp: entry_def split: option.splits)
  let ?x = "t + 8 * PX 0 (PGROUNDDOWN va)"
  have w: "walk pt (PGROUNDDOWN va) False s = Ok ?x s" using walk_find[OF wf v] t by simp
  have e: "ld64 (mem s) ?x = entry (mem s) pt va" using t pe by (simp add: entry_def)
  have "\<not> MAXVA \<le> PGROUNDDOWN va" using v by simp
  then show ?thesis using assms(3) va slot_nonzero[OF wf t]
    by (subst copyout.simps) (simp add: w getmem_def e uwrite_def upage_def)
qed

lemma copyout_ok:
  assumes "uspace (mem s) pt A" and "unat va + length src \<le> 2 ^ 38"
    and "\<And>v. unat va \<le> unat v \<Longrightarrow> unat v < unat va + length src \<Longrightarrow> uwrite (mem s) pt v"
  shows "\<exists>m'. copyout pt va src s = Ok 0 (s\<lparr>mem := m'\<rparr>) \<and> agree A (mem s) m' \<and>
    (\<forall>v. upage (mem s) pt v \<longrightarrow> ubyte m' pt v =
       (if unat va \<le> unat v \<and> unat v < unat va + length src then src ! (unat v - unat va) else ubyte (mem s) pt v))"
  using assms
proof (induction "length src" arbitrary: src va s rule: less_induct)
  case less
  show ?case
  proof (cases "src = []")
    case True
    then show ?thesis by (intro exI[of _ "mem s"]) (subst copyout.simps, auto simp: agree_def)
  next
    case False
    define c b where "c = chunk va (length src)" and "b = PGROUNDDOWN va + PGSIZE"
    define m1 where "m1 = write_bytes (mem s) (PTE2PA (entry (mem s) pt va) + (va - PGROUNDDOWN va)) (take c src)"
    have c: "0 < c" "c \<le> length src" using False chunk_pos[of "length src" va] by (simp_all add: chunk_nat c_def)
    have len: "length (take c src) = chunk va (length src)" using c by (simp add: c_def)
    have va: "uwrite (mem s) pt va" using less(4)[of va] False by simp
    then have up: "upage (mem s) pt va" by (simp add: uwrite_def)
    note st = chunk_store[OF less(2) up len m1_def]
    note ua = uspace_agree[OF less(2) st(1)]
    have pass: "copyout pt va src s = copyout pt b (drop c src) (s\<lparr>mem := m1\<rparr>)"
      using copyout_pass[OF less(2) va False] by (simp only: c_def b_def m1_def)
    show ?thesis
    proof (cases "c = length src")
      case True
      then have "copyout pt va src s = Ok 0 (s\<lparr>mem := m1\<rparr>)" unfolding pass by (subst copyout.simps) simp
      then show ?thesis using st True by (intro exI[of _ m1]) simp
    next
      case cl: False
      have ub: "unat b = unat va + c" using next_chunk[of va "length src"] less(3) c cl by (simp add: c_def b_def)
      define t where "t = s\<lparr>mem := m1\<rparr>"
      have t: "mem t = m1" "t\<lparr>mem := m'\<rparr> = s\<lparr>mem := m'\<rparr>" for m' by (simp_all add: t_def)
      have shorter: "length (drop c src) < length src" using c by simp
      have fit: "unat b + length (drop c src) \<le> 2 ^ 38" using ub less(3) c by simp
      have rng: "uwrite (mem t) pt v" if "unat b \<le> unat v" "unat v < unat b + length (drop c src)" for v
        using less(4)[of v] that ub c ua(4) by (simp add: t)
      have us1: "uspace (mem t) pt A" using ua(1) by (simp add: t)
      obtain m' where m': "copyout pt b (drop c src) (s\<lparr>mem := m1\<rparr>) = Ok 0 (s\<lparr>mem := m'\<rparr>)" "agree A m1 m'"
        "\<forall>v. upage m1 pt v \<longrightarrow> ubyte m' pt v =
          (if unat b \<le> unat v \<and> unat v < unat b + length (drop c src) then drop c src ! (unat v - unat b) else ubyte m1 pt v)"
        using less(1)[OF shorter us1 fit rng] unfolding t unfolding t_def by blast
      have "ubyte m' pt v = (if unat va \<le> unat v \<and> unat v < unat va + length src then src ! (unat v - unat va) else ubyte (mem s) pt v)"
        if "upage (mem s) pt v" for v
        using m'(3)[rule_format, of v] st(2)[OF that] that ua(3)[of v] ub c by auto
      then show ?thesis using pass m'(1,2) st(1) by (intro exI[of _ m']) (auto simp: agree_def)
    qed
  qed
qed

section \<open>Copying in\<close>

lemma copyin_ok:
  assumes wf: "pt_wf (mem s) pt A" and nz: "\<And>v. upage (mem s) pt v \<Longrightarrow> PTE2PA (entry (mem s) pt v) \<noteq> 0"
    and "unat va + len \<le> 2 ^ 38"
    and "\<And>v. unat va \<le> unat v \<Longrightarrow> unat v < unat va + len \<Longrightarrow> upage (mem s) pt v"
  shows "copyin pt va len s = Ok (0, map (\<lambda>i. ubyte (mem s) pt (va + of_nat i)) [0..<len]) s"
  using assms(3,4)
proof (induction len arbitrary: va rule: less_induct)
  case (less len)
  show ?case
  proof (cases "len = 0")
    case True
    then show ?thesis by (subst copyin.simps) simp
  next
    case False
    define c b where "c = chunk va len" and "b = PGROUNDDOWN va + PGSIZE"
    let ?e = "entry (mem s) pt va"
    have c: "0 < c" "c \<le> len" using False chunk_pos[of len va] by (simp_all add: chunk_nat c_def)
    have va: "upage (mem s) pt va" using less(3)[of va] False by simp
    have v: "PGROUNDDOWN va < MAXVA" using va page_lt by (simp add: upage_def)
    have pe: "entry (mem s) pt (PGROUNDDOWN va) = ?e"
      using page_of[OF pgrounddown_aligned, of "PGROUNDDOWN va" va] by (intro entry_page) simp
    have w: "walkaddr pt (PGROUNDDOWN va) s = Ok (PTE2PA ?e) s"
      using walkaddr_entry[OF wf v] va by (simp add: pe Let_def upage_def)
    have bytes: "read_bytes (mem s) (PTE2PA ?e + (va - PGROUNDDOWN va)) c
        = map (\<lambda>i. ubyte (mem s) pt (va + of_nat i)) [0..<c]"
    proof (rule nth_equalityI; simp)
      fix i assume i: "i < c"
      have u: "unat (va + of_nat i) = unat va + i"
        using less(2) c i by (intro unat_plus_of_nat[of _ len]) (auto simp: fits_def)
      have p: "PGROUNDDOWN (va + of_nat i) = PGROUNDDOWN va" using in_chunk[of va "va + of_nat i" len] u i by (simp add: c_def)
      show "mem s (PTE2PA ?e + (va - PGROUNDDOWN va) + of_nat i) = ubyte (mem s) pt (va + of_nat i)"
        unfolding ubyte_def entry_page[OF p] p by (simp add: algebra_simps)
    qed
    have "copyin pt b (len - c) s = Ok (0, map (\<lambda>i. ubyte (mem s) pt (b + of_nat i)) [0..<len - c]) s
        \<and> (c < len \<longrightarrow> b = va + of_nat c)"
    proof (cases "c = len")
      case True
      then show ?thesis by (subst copyin.simps) simp
    next
      case False
      then have u: "unat b = unat va + c" using next_chunk[of va len] less(2) c by (simp add: c_def b_def)
      moreover have "unat (va + of_nat c) = unat va + c"
        using False c less(2) by (intro unat_plus_of_nat[of _ len]) (auto simp: fits_def)
      ultimately have "b = va + of_nat c" by (simp only: word_unat_eq_iff)
      then show ?thesis using less(1)[of "len - c" b] less(2,3) c u by simp
    qed
    then have rest: "copyin pt b (len - c) s = Ok (0, map (\<lambda>i. ubyte (mem s) pt (va + of_nat (c + i))) [0..<len - c]) s"
      using c(2) by (cases "c = len") (auto simp: add.assoc)
    have all: "map (\<lambda>i. ubyte (mem s) pt (va + of_nat i)) [0..<len] = map (\<lambda>i. ubyte (mem s) pt (va + of_nat i)) [0..<c]
        @ map (\<lambda>i. ubyte (mem s) pt (va + of_nat (c + i))) [0..<len - c]"
      using c(2) by (intro nth_equalityI) (auto simp: nth_append not_less diff_less_mono simp flip: of_nat_add)
    show ?thesis unfolding all
      by (subst copyin.simps) (use False nz[OF va] in \<open>simp add: w bytes[folded c_def] rest c_def[symmetric] b_def[symmetric]\<close>)
  qed
qed

section \<open>Properties\<close>

text \<open>
  C7. Round trip through user memory. If every page of the destination is a writable user page,
  \<open>copyout\<close> succeeds, changes no other byte of user memory, and \<open>copyin\<close> from the same address then
  returns exactly the bytes that were copied out.
\<close>

theorem copyout_copyin:
  assumes "uspace (mem s) pt A" and "unat va + length src \<le> 2 ^ 38"
    and "\<And>v. unat va \<le> unat v \<Longrightarrow> unat v < unat va + length src \<Longrightarrow> uwrite (mem s) pt v"
  shows "\<exists>m'. copyout pt va src s = Ok 0 (s\<lparr>mem := m'\<rparr>) \<and>
    copyin pt va (length src) (s\<lparr>mem := m'\<rparr>) = Ok (0, src) (s\<lparr>mem := m'\<rparr>) \<and>
    (\<forall>v. upage (mem s) pt v \<and> \<not> (unat va \<le> unat v \<and> unat v < unat va + length src) \<longrightarrow>
       ubyte m' pt v = ubyte (mem s) pt v)"
proof -
  obtain m' where m': "copyout pt va src s = Ok 0 (s\<lparr>mem := m'\<rparr>)" "agree A (mem s) m'"
    "\<forall>v. upage (mem s) pt v \<longrightarrow> ubyte m' pt v =
       (if unat va \<le> unat v \<and> unat v < unat va + length src then src ! (unat v - unat va) else ubyte (mem s) pt v)"
    using copyout_ok[OF assms] by blast
  note ua = uspace_agree[OF assms(1) m'(2)]
  have up: "upage (mem s) pt v" if "unat va \<le> unat v" "unat v < unat va + length src" for v
    using assms(3)[OF that] by (simp add: uwrite_def)
  have nz: "PTE2PA (entry m' pt v) \<noteq> 0" if "upage m' pt v" for v
    using ua(1) that unfolding uspace_def by blast
  have "copyin pt va (length src) (s\<lparr>mem := m'\<rparr>)
      = Ok (0, map (\<lambda>i. ubyte m' pt (va + of_nat i)) [0..<length src]) (s\<lparr>mem := m'\<rparr>)"
    using copyin_ok[where s = "s\<lparr>mem := m'\<rparr>" and A = A and pt = pt and va = va and len = "length src"]
      ua(1,3) nz assms(2) up by (simp add: uspace_def)
  moreover have "map (\<lambda>i. ubyte m' pt (va + of_nat i)) [0..<length src] = src"
  proof (rule nth_equalityI; simp)
    fix i assume i: "i < length src"
    have "unat (va + of_nat i) = unat va + i"
      using assms(2) i by (intro unat_plus_of_nat[of _ "length src"]) (simp_all add: fits_def)
    then show "ubyte m' pt (va + of_nat i) = src ! i" using m'(3) up[of "va + of_nat i"] i by simp
  qed
  ultimately show ?thesis using m'(1,3) by (intro exI[of _ m']) auto
qed

text \<open>An address space with one writable user page: virtual page 0 at physical page 0x80040000, with
  table pages at 0x80030000, 0x80031000 and 0x80032000.\<close>

definition tbl1 :: memory where
  "tbl1 = link_mem (\<lambda>_. 0) 0x80030000 0 0x80031000"

definition tbl2 :: memory where
  "tbl2 = link_mem tbl1 0x80031000 0 0x80032000"

definition tbl_mem :: memory where
  "tbl_mem = st64 (0x80032000 + 8 * PX 0 0) (PA2PTE 0x80040000 OR 0x17) tbl2"

definition user_state :: kstate where
  "user_state = zero_state\<lparr>mem := tbl_mem\<rparr>"

lemma zero_root: "pt_wf (\<lambda>_. 0) 0x80030000 {0x80030000}"
    "vpath p \<Longrightarrow> tpage (\<lambda>_. 0) 0x80030000 p = (if p = [] then Some 0x80030000 else None)"
proof -
  have z: "zero_page (\<lambda>_. 0) 0x80030000" by (simp add: zero_page_def)
  have al: "pg_aligned (0x80030000 :: u64)" by (simp add: aligned_nat)
  show t: "tpage (\<lambda>_. 0) 0x80030000 p = (if p = [] then Some 0x80030000 else None)" if "vpath p" for p
    using that
  proof (induction p)
    case (Cons i p)
    then show ?case using ld64_zero[OF z al vpath_Cons(2)[OF Cons(2)]] vpath_Cons by (auto simp: pnext_def)
  qed simp
  show "pt_wf (\<lambda>_. 0) 0x80030000 {0x80030000}"
    using al by (auto simp: pt_wf_def t split: if_splits)
qed

lemma tbl1_linked: "linked (\<lambda>_. 0) 0x80030000 {0x80030000} [] 0x80030000 0 0x80031000"
  using zero_root(1) zero_root(2)[of "[0]"] by (simp add: linked_def vpath_def aligned_nat zero_page_def)

lemma tbl1_other: "pg_aligned t \<Longrightarrow> t \<noteq> 0x80030000 \<Longrightarrow> zero_page tbl1 t"
proof -
  assume t: "pg_aligned t" "t \<noteq> 0x80030000"
  have al: "pg_aligned (0x80030000 :: u64)" by (simp add: aligned_nat)
  have "\<not> within 0x80030000 8 a" if "within t 4096 a" for a
    using within_same_page[OF al t(1) _ that] t(2) by (auto simp: within_def)
  then show ?thesis by (simp add: zero_page_def tbl1_def link_mem_def st64_other fits_def)
qed

lemma tbl2_linked: "linked tbl1 0x80030000 {0x80031000, 0x80030000} [0] 0x80031000 0 0x80032000"
proof -
  have "pnext tbl1 0x80031000 0 = None"
    using link_new[OF tbl1_linked, of 0] by (simp add: pnext_def tbl1_def)
  moreover have "tpage tbl1 0x80030000 [0] = Some 0x80031000"
    using tpage_link[OF tbl1_linked, of "[0]"] by (simp add: tbl1_def vpath_def)
  moreover have "zero_page tbl1 0x80032000" by (rule tbl1_other) (simp_all add: aligned_nat)
  ultimately show ?thesis using pt_wf_link[OF tbl1_linked]
    by (simp add: linked_def tbl1_def vpath_def aligned_nat)
qed

lemma tbl2_leaf: "tpage tbl2 0x80030000 (vp 0 0) = Some 0x80032000"
  using tpage_link[OF tbl2_linked, of "[0, 0]"] by (simp add: tbl2_def vpath_def vp_def PX_def)

lemma tbl2_wf: "pt_wf tbl2 0x80030000 {0x80032000, 0x80031000, 0x80030000}"
  unfolding tbl2_def by (rule pt_wf_link[OF tbl2_linked])

lemma tbl2_entry: "entry tbl2 0x80030000 v = 0"
proof -
  have "entry tbl2 0x80030000 v = entry (\<lambda>_. 0) 0x80030000 v"
    unfolding tbl2_def using entry_link[OF tbl2_linked] entry_link[OF tbl1_linked] by (simp add: tbl1_def)
  also have "\<dots> = 0" using zero_root(2)[OF vp_vpath, of v 0] by (simp add: entry_def vp_def)
  finally show ?thesis .
qed

lemma user_entry:
  assumes "v < MAXVA"
  shows "entry tbl_mem 0x80030000 v = (if unat v < 4096 then PA2PTE 0x80040000 OR 0x17 else 0)"
proof -
  have "PGROUNDDOWN v = PGROUNDDOWN 0 \<longleftrightarrow> unat v < 4096"
    using page_of[of 0 v] by (simp add: aligned_nat PGROUNDDOWN_def)
  then show ?thesis unfolding tbl_mem_def
    using entry_leaf_store[OF tbl2_wf tbl2_leaf _ assms] by (simp add: MAXVA_def tbl2_entry)
qed

lemma user_bits:
  "PTE2PA (PA2PTE 0x80040000 OR 0x17) = 0x80040000"
  "(PA2PTE 0x80040000 OR 0x17) AND PTE_V \<noteq> 0" "(PA2PTE 0x80040000 OR 0x17) AND PTE_U \<noteq> 0"
  "(PA2PTE 0x80040000 OR 0x17) AND PTE_W \<noteq> 0"
  by (simp_all add: PTE2PA_def PA2PTE_def pte_defs)

lemma user_upage: "upage tbl_mem 0x80030000 v \<longleftrightarrow> unat v < 4096"
  using user_entry[of v] user_bits by (auto simp: upage_def MAXVA_nat split: if_splits)

lemma user_space: "uspace (mem user_state) 0x80030000 {0x80032000, 0x80031000, 0x80030000}"
proof -
  have "pt_wf tbl_mem 0x80030000 {0x80032000, 0x80031000, 0x80030000}"
    unfolding tbl_mem_def by (rule pt_wf_leaf_store[OF tbl2_wf tbl2_leaf])
  moreover have "PTE2PA (entry tbl_mem 0x80030000 v) = 0x80040000" if "upage tbl_mem 0x80030000 v" for v
    using that user_entry[of v] user_bits by (simp add: user_upage MAXVA_nat)
  moreover have "PGROUNDDOWN v = 0" if "upage tbl_mem 0x80030000 v" for v
    using that page_of[of 0 v] by (simp add: user_upage aligned_nat)
  ultimately show ?thesis by (auto simp: uspace_def user_state_def)
qed

lemma user_writable: "unat v < 4096 \<Longrightarrow> uwrite (mem user_state) 0x80030000 v"
  using user_entry[of v] user_bits by (simp add: uwrite_def user_upage user_state_def MAXVA_nat)

theorem copyout_copyin_witness:
  "\<exists>m'. copyout 0x80030000 0x100 [1, 2, 3] user_state = Ok 0 (user_state\<lparr>mem := m'\<rparr>) \<and>
    copyin 0x80030000 0x100 (length [1, 2, 3 :: byte]) (user_state\<lparr>mem := m'\<rparr>)
      = Ok (0, [1, 2, 3]) (user_state\<lparr>mem := m'\<rparr>) \<and>
    (\<forall>v. upage (mem user_state) 0x80030000 v \<and>
       \<not> (unat (0x100 :: u64) \<le> unat v \<and> unat v < unat (0x100 :: u64) + length [1, 2, 3 :: byte]) \<longrightarrow>
       ubyte m' 0x80030000 v = ubyte (mem user_state) 0x80030000 v)"
  by (rule copyout_copyin[OF user_space]) (auto intro: user_writable)

end
