(* ===== verification/Pipe.thy ===== *)
theory Pipe
  imports Ring Usermem
begin

text \<open>
  Pipes (\<open>pipe.c\<close>): a ring of 512 bytes between two counters that only grow and wrap around at
  $2^{32}$. The ring implements a first-in first-out queue of at most 512 bytes; \<open>pipealloc\<close> is in
  \<open>File.thy\<close>, with the file table it fills in.
\<close>

section \<open>The code\<close>

definition PIPESIZE :: nat where "PIPESIZE = 512"

definition get_pipe :: "u64 \<Rightarrow> pipe K" where
  "get_pipe a = gets (\<lambda>s. pipes s a)"

definition upd_pipe :: "u64 \<Rightarrow> (pipe \<Rightarrow> pipe) \<Rightarrow> unit K" where
  "upd_pipe a f = modify (\<lambda>s. s\<lparr>pipes := (pipes s)(a := f (pipes s a))\<rparr>)"

definition pipeclose :: "u64 \<Rightarrow> bool \<Rightarrow> unit K" where
  "pipeclose a writable =
     mbind (acquire (L_pipe a)) (\<lambda>_.
     mbind (if writable then
              mbind (upd_pipe a (\<lambda>pi. pi\<lparr>pi_writeopen := False\<rparr>)) (\<lambda>_.
              wakeup (C_pipe_nread a))
            else
              mbind (upd_pipe a (\<lambda>pi. pi\<lparr>pi_readopen := False\<rparr>)) (\<lambda>_.
              wakeup (C_pipe_nwrite a))) (\<lambda>_.
     mbind (get_pipe a) (\<lambda>pi.
     if \<not> pi_readopen pi \<and> \<not> pi_writeopen pi then
       mbind (release (L_pipe a)) (\<lambda>_.
       kfree a)
     else release (L_pipe a))))"

definition pipe_full :: "pipe \<Rightarrow> bool" where
  "pipe_full pi \<longleftrightarrow> pi_nwrite pi = pi_nread pi + of_nat PIPESIZE"

definition pipe_put :: "byte \<Rightarrow> pipe \<Rightarrow> pipe" where
  "pipe_put b pi = pi\<lparr>pi_data := (pi_data pi)[unat (pi_nwrite pi) mod PIPESIZE := b],
     pi_nwrite := pi_nwrite pi + 1\<rparr>"

definition pipe_head :: "pipe \<Rightarrow> byte" where
  "pipe_head pi = pi_data pi ! (unat (pi_nread pi) mod PIPESIZE)"

text \<open>The loop of \<open>pipewrite\<close>, at index \<open>i\<close> with \<open>k\<close> bytes left to write. A full pipe makes the writer
  wait, which ends the run.\<close>

fun pipewrite_loop :: "u64 \<Rightarrow> nat \<Rightarrow> u64 \<Rightarrow> u64 \<Rightarrow> nat \<Rightarrow> nat \<Rightarrow> int K" where
  "pipewrite_loop a pr pt addr i 0 =
     mbind (wakeup (C_pipe_nread a)) (\<lambda>_.
     mbind (release (L_pipe a)) (\<lambda>_.
     ret (int i)))"
| "pipewrite_loop a pr pt addr i (Suc k) =
     mbind (get_pipe a) (\<lambda>pi.
     mbind (if pi_readopen pi then killed pr else ret True) (\<lambda>stop.
     if stop then
       mbind (release (L_pipe a)) (\<lambda>_.
       ret (-1))
     else if pipe_full pi then
       mbind (wakeup (C_pipe_nread a)) (\<lambda>_.
       mbind (sleep (C_pipe_nwrite a) (L_pipe a)) (\<lambda>_.
       ret 0))
     else
       mbind (copyin pt (addr + of_nat i) 1) (\<lambda>r.
       if fst r = -1 then
         mbind (wakeup (C_pipe_nread a)) (\<lambda>_.
         mbind (release (L_pipe a)) (\<lambda>_.
         ret (int i)))
       else
         mbind (upd_pipe a (pipe_put (hd (snd r)))) (\<lambda>_.
         pipewrite_loop a pr pt addr (i + 1) k))))"

definition pipewrite :: "u64 \<Rightarrow> u64 \<Rightarrow> int \<Rightarrow> int K" where
  "pipewrite a addr n =
     mbind me (\<lambda>pr.
     mbind (acquire (L_pipe a)) (\<lambda>_.
     mbind (gets (\<lambda>s. p_pagetable (procs s ! pr))) (\<lambda>pt.
     pipewrite_loop a pr pt addr 0 (nat n))))"

fun piperead_copy :: "u64 \<Rightarrow> u64 \<Rightarrow> u64 \<Rightarrow> nat \<Rightarrow> nat \<Rightarrow> int K" where
  "piperead_copy a pt addr i 0 = ret (int i)"
| "piperead_copy a pt addr i (Suc k) =
     mbind (get_pipe a) (\<lambda>pi.
     if pi_nread pi = pi_nwrite pi then ret (int i) else
     mbind (upd_pipe a (\<lambda>pi. pi\<lparr>pi_nread := pi_nread pi + 1\<rparr>)) (\<lambda>_.
     mbind (copyout pt (addr + of_nat i) [pipe_head pi]) (\<lambda>r.
     if r = -1 then ret (int i) else
     piperead_copy a pt addr (i + 1) k)))"

definition piperead :: "u64 \<Rightarrow> u64 \<Rightarrow> int \<Rightarrow> int K" where
  "piperead a addr n =
     mbind me (\<lambda>pr.
     mbind (acquire (L_pipe a)) (\<lambda>_.
     mbind (get_pipe a) (\<lambda>pi.
     if pi_nread pi = pi_nwrite pi \<and> pi_writeopen pi then
       mbind (killed pr) (\<lambda>k.
       if k then
         mbind (release (L_pipe a)) (\<lambda>_.
         ret (-1))
       else
         mbind (sleep (C_pipe_nread a) (L_pipe a)) (\<lambda>_.
         ret 0))
     else
       mbind (gets (\<lambda>s. p_pagetable (procs s ! pr))) (\<lambda>pt.
       mbind (piperead_copy a pt addr 0 (nat n)) (\<lambda>i.
       mbind (wakeup (C_pipe_nwrite a)) (\<lambda>_.
       mbind (release (L_pipe a)) (\<lambda>_.
       ret i)))))))"

section \<open>The ring as a queue\<close>

definition pipe_inv :: "pipe \<Rightarrow> bool" where
  "pipe_inv pi \<longleftrightarrow> length (pi_data pi) = PIPESIZE \<and> unat (pi_nwrite pi - pi_nread pi) \<le> PIPESIZE"

definition pipe_contents :: "pipe \<Rightarrow> byte list" where
  "pipe_contents pi = ring PIPESIZE (pi_data pi) (unat (pi_nread pi)) (unat (pi_nwrite pi - pi_nread pi))"

definition pipe_skip :: "pipe \<Rightarrow> pipe" where
  "pipe_skip pi = pi\<lparr>pi_nread := pi_nread pi + 1\<rparr>"

lemma pipe_full_iff: "pipe_full pi \<longleftrightarrow> length (pipe_contents pi) = PIPESIZE"
proof -
  have "pipe_full pi \<longleftrightarrow> pi_nwrite pi - pi_nread pi = of_nat PIPESIZE"
    by (auto simp: pipe_full_def algebra_simps)
  also have "\<dots> \<longleftrightarrow> unat (pi_nwrite pi - pi_nread pi) = PIPESIZE"
    by (simp add: word_unat_eq_iff PIPESIZE_def)
  finally show ?thesis by (simp add: pipe_contents_def)
qed

lemma pipe_empty_iff: "pi_nread pi = pi_nwrite pi \<longleftrightarrow> pipe_contents pi = []"
proof -
  have "pi_nread pi = pi_nwrite pi \<longleftrightarrow> length (pipe_contents pi) = 0"
    using counter_empty[of "pi_nwrite pi" "pi_nread pi"] by (auto simp: pipe_contents_def)
  then show ?thesis by simp
qed

interpretation pq: byte_queue pipe_inv pipe_contents pipe_put pipe_head pipe_skip PIPESIZE
proof
  fix q b assume inv: "pipe_inv q" and "length (pipe_contents q) < PIPESIZE"
  then have n: "unat (pi_nwrite q - pi_nread q) < PIPESIZE" by (simp add: pipe_contents_def)
  have "pipe_contents (pipe_put b q) = pipe_contents q @ [b]"
    using ring_write(1)[where d = "pi_data q" and b = b, OF _ _ _ n] inv
    by (simp add: pipe_contents_def pipe_put_def pipe_inv_def PIPESIZE_def)
  moreover have "unat (pi_nwrite q + 1 - pi_nread q) = Suc (unat (pi_nwrite q - pi_nread q))"
    using ring_write(2)[where d = "pi_data q", OF _ _ _ n] inv by (simp add: pipe_inv_def PIPESIZE_def)
  ultimately show "pipe_inv (pipe_put b q) \<and> pipe_contents (pipe_put b q) = pipe_contents q @ [b]"
    using inv n by (simp add: pipe_inv_def pipe_put_def)
next
  fix q assume inv: "pipe_inv q" and ne: "pipe_contents q \<noteq> []"
  have w: "pi_nwrite q \<noteq> pi_nread q" using ne pipe_empty_iff by metis
  have "pipe_contents q = pipe_head q # pipe_contents (pipe_skip q)"
    using ring_read[of PIPESIZE, OF _ w, of "pi_data q"]
    by (simp add: pipe_contents_def pipe_head_def pipe_skip_def PIPESIZE_def)
  then show "pipe_inv (pipe_skip q) \<and> pipe_contents q = pipe_head q # pipe_contents (pipe_skip q)"
    using inv counter_read(1)[OF w] by (auto simp: pipe_inv_def pipe_skip_def)
next
  fix q assume "pipe_inv q"
  then show "length (pipe_contents q) \<le> PIPESIZE" by (simp add: pipe_inv_def pipe_contents_def)
qed

section \<open>Writing and reading\<close>

text \<open>Process \<open>p\<close> runs the pipe code, holding the lock of pipe \<open>a\<close> and no other.\<close>

definition pipe_run :: "nat \<Rightarrow> u64 \<Rightarrow> kstate \<Rightarrow> bool" where
  "pipe_run p a s \<longleftrightarrow> curproc s = Some p \<and> p < NPROC \<and> length (procs s) = NPROC \<and> held s = {L_pipe a}"

lemma killed_Ok: "L_proc p \<notin> held s \<Longrightarrow> killed p s = Ok (p_killed (procs s ! p)) s"
  by (simp add: killed_def)

lemma pipe_wakeup:
  assumes "pipe_run p a s"
  shows "wakeup ch s = Ok () (s\<lparr>procs := wake ch (Some p) (procs s)\<rparr>)"
  using assms wakeup_Ok[of s ch] by (simp add: pipe_run_def no_proc_locks_def)

definition pipe_upd :: "u64 \<Rightarrow> (pipe \<Rightarrow> pipe) \<Rightarrow> kstate \<Rightarrow> kstate" where
  "pipe_upd a f s = s\<lparr>pipes := (pipes s)(a := f (pipes s a))\<rparr>"

lemma pipe_upd_fields [simp]:
  "mem (pipe_upd a f s) = mem s" "procs (pipe_upd a f s) = procs s" "held (pipe_upd a f s) = held s"
  "pipes (pipe_upd a f s) a = f (pipes s a)" "pipe_run p a (pipe_upd a f s) = pipe_run p a s"
  by (simp_all add: pipe_upd_def pipe_run_def)

lemma pipewrite_loop_ok:
  assumes "pipe_run p a s" and "pipe_inv (pipes s a)" and "pi_readopen (pipes s a)"
    and "\<not> p_killed (procs s ! p)" and "length (pipe_contents (pipes s a)) + k \<le> PIPESIZE"
    and "\<And>l t. l < k \<Longrightarrow> mem t = mem s \<Longrightarrow> copyin pt (addr + of_nat (i + l)) 1 t = Ok (0, [f (i + l)]) t"
  shows "pipewrite_loop a p pt addr i k s = Ok (int (i + k))
    ((pipe_upd a (fold pipe_put (map f [i..<i + k])) s)\<lparr>procs := wake (C_pipe_nread a) (Some p) (procs s), held := {}\<rparr>)"
  using assms
proof (induction k arbitrary: i s)
  case 0
  then show ?case using pipe_wakeup[OF 0(1)] by (simp add: pipe_run_def pipe_upd_def)
next
  case (Suc k)
  let ?q = "pipes s a" and ?s1 = "pipe_upd a (pipe_put (f i)) s"
  have kp: "killed p s = Ok False s" using Suc(2,5) by (simp add: killed_Ok pipe_run_def)
  have room: "length (pipe_contents ?q) < PIPESIZE" using Suc(6) by simp
  have nf: "\<not> pipe_full ?q" using room pipe_full_iff by auto
  have ci: "copyin pt (addr + of_nat i) 1 s = Ok (0, [f i]) s" using Suc(7)[of 0 s] by simp
  note put = pq.put_law[OF Suc(3) room, of "f i"]
  have step: "pipewrite_loop a p pt addr i (Suc k) s = pipewrite_loop a p pt addr (Suc i) k ?s1"
    using kp nf ci Suc(4) by (simp add: get_pipe_def upd_pipe_def pipe_upd_def)
  have ro: "pi_readopen (pipes ?s1 a)" using Suc(4) by (simp add: pipe_put_def)
  have ci': "copyin pt (addr + of_nat (Suc i + l)) 1 t = Ok (0, [f (Suc i + l)]) t" if "l < k" "mem t = mem ?s1" for l t
    using Suc(7)[of "Suc l" t] that by simp
  have "pipewrite_loop a p pt addr (Suc i) k ?s1 = Ok (int (Suc i + k))
    ((pipe_upd a (fold pipe_put (map f [Suc i..<Suc i + k])) ?s1)\<lparr>procs := wake (C_pipe_nread a) (Some p) (procs ?s1), held := {}\<rparr>)"
    using put Suc(2,5,6) ro ci' by (intro Suc.IH) simp_all
  moreover have "map f [i..<i + Suc k] = f i # map f [Suc i..<Suc i + k]"
    by (simp add: upt_conv_Cons del: upt_Suc)
  ultimately show ?case unfolding step by (simp add: pipe_upd_def del: upt_Suc)
qed

lemma piperead_copy_ok:
  assumes "pipe_inv (pipes s a)" and "uspace (mem s) pt A" and "unat addr + (i + k) \<le> 2 ^ 38"
    and "\<And>v. unat addr + i \<le> unat v \<Longrightarrow> unat v < unat addr + (i + k) \<Longrightarrow> uwrite (mem s) pt v"
  shows "\<exists>m. piperead_copy a pt addr i k s = Ok (int (i + min k (length (pipe_contents (pipes s a)))))
      ((pipe_upd a (pipe_skip ^^ min k (length (pipe_contents (pipes s a)))) s)\<lparr>mem := m\<rparr>) \<and>
    (\<forall>v. upage (mem s) pt v \<longrightarrow> ubyte m pt v =
      (if unat addr + i \<le> unat v \<and> unat v < unat addr + i + min k (length (pipe_contents (pipes s a)))
       then pipe_contents (pipes s a) ! (unat v - (unat addr + i)) else ubyte (mem s) pt v))"
  using assms
proof (induction k arbitrary: i s)
  case 0
  then show ?case by (intro exI[of _ "mem s"]) (auto simp: pipe_upd_def)
next
  case (Suc k)
  let ?q = "pipes s a"
  show ?case
  proof (cases "pipe_contents ?q = []")
    case True
    then show ?thesis using pipe_empty_iff[of ?q]
      by (intro exI[of _ "mem s"]) (auto simp: pipe_upd_def get_pipe_def)
  next
    case False
    let ?s1 = "pipe_upd a pipe_skip s" and ?v = "addr + of_nat i"
    note g = pq.get_law[OF Suc(2) False]
    have uv: "unat ?v = unat addr + i"
      using Suc(4) by (intro unat_plus_of_nat[of _ "Suc i"]) (simp_all add: fits_def)
    obtain m1 where m1: "copyout pt ?v [pipe_head ?q] ?s1 = Ok 0 (?s1\<lparr>mem := m1\<rparr>)" "agree A (mem s) m1"
      "\<forall>v. upage (mem s) pt v \<longrightarrow> ubyte m1 pt v = (if unat ?v \<le> unat v \<and> unat v < unat ?v + 1
          then [pipe_head ?q] ! (unat v - unat ?v) else ubyte (mem s) pt v)"
      using copyout_ok[where s = ?s1 and va = ?v and src = "[pipe_head ?q]", of pt A] Suc(3-5) uv by auto
    note ua = uspace_agree[OF Suc(3) m1(2)]
    let ?s2 = "?s1\<lparr>mem := m1\<rparr>"
    have w: "uwrite (mem ?s2) pt v" if "unat addr + Suc i \<le> unat v" "unat v < unat addr + (Suc i + k)" for v
      using Suc(5)[of v] that ua(4)[of v] by simp
    have us: "uspace (mem ?s2) pt A" and fit: "unat addr + (Suc i + k) \<le> 2 ^ 38" using ua(1) Suc(4) by simp_all
    have inv: "pipe_inv (pipes ?s2 a)" and c2: "pipe_contents ?q = pipe_head ?q # pipe_contents (pipes ?s2 a)"
      using g by (simp_all add: pipe_upd_def)
    obtain m where m: "piperead_copy a pt addr (Suc i) k ?s2 = Ok (int (Suc i + min k (length (pipe_contents (pipes ?s2 a)))))
      ((pipe_upd a (pipe_skip ^^ min k (length (pipe_contents (pipes ?s2 a)))) ?s2)\<lparr>mem := m\<rparr>)"
      "\<forall>v. upage (mem ?s2) pt v \<longrightarrow> ubyte m pt v =
      (if unat addr + Suc i \<le> unat v \<and> unat v < unat addr + Suc i + min k (length (pipe_contents (pipes ?s2 a)))
       then pipe_contents (pipes ?s2 a) ! (unat v - (unat addr + Suc i)) else ubyte (mem ?s2) pt v)"
      using Suc.IH[OF inv us fit w] by blast
    have step: "piperead_copy a pt addr i (Suc k) s = piperead_copy a pt addr (Suc i) k ?s2"
      using False pipe_empty_iff[of ?q] m1(1) by (simp add: get_pipe_def upd_pipe_def pipe_upd_def pipe_skip_def)
    define n c where "n = min k (length (pipe_contents (pipes ?s2 a)))" and "c = pipe_contents (pipes ?s2 a)"
    have n: "min (Suc k) (length (pipe_contents ?q)) = Suc n" using c2 by (simp add: n_def)
    have q: "pipe_contents ?q = pipe_head ?q # c" using c2 by (simp only: c_def)
    have st: "(pipe_upd a (pipe_skip ^^ n) ?s2)\<lparr>mem := m\<rparr> = (pipe_upd a (pipe_skip ^^ Suc n) s)\<lparr>mem := m\<rparr>"
      by (simp add: pipe_upd_def funpow_swap1)
    have "ubyte m pt v = (if unat addr + i \<le> unat v \<and> unat v < unat addr + i + Suc n
        then pipe_contents ?q ! (unat v - (unat addr + i)) else ubyte (mem s) pt v)" if "upage (mem s) pt v" for v
    proof -
      have "ubyte m pt v = (if unat addr + Suc i \<le> unat v \<and> unat v < unat addr + Suc i + n
          then c ! (unat v - (unat addr + Suc i)) else ubyte m1 pt v)"
        using m(2) that ua(3)[of v] by (simp add: n_def c_def)
      moreover have "ubyte m1 pt v = (if unat v = unat addr + i then pipe_head ?q else ubyte (mem s) pt v)"
        using m1(3) that uv by auto
      ultimately show ?thesis unfolding q by (auto simp: nth_Cons')
    qed
    moreover have "piperead_copy a pt addr i (Suc k) s = Ok (int (i + Suc n)) ((pipe_upd a (pipe_skip ^^ Suc n) s)\<lparr>mem := m\<rparr>)"
      using m(1)[folded n_def] by (simp only: step st add_Suc_shift)
    ultimately show ?thesis unfolding n by blast
  qed
qed

section \<open>Properties\<close>


text \<open>Process 0 with the address space \<open>user_state\<close> and an open pipe holding one byte.\<close>

definition pipe_state :: kstate where
  "pipe_state = user_state\<lparr>procs := (replicate NPROC zero_proc)[0 := zero_proc\<lparr>p_pagetable := 0x80030000\<rparr>],
     pipes := (\<lambda>_. \<lparr>pi_data = replicate 512 7, pi_nread = 0, pi_nwrite = 1, pi_readopen = True, pi_writeopen = True\<rparr>)\<rparr>"

lemma pipe_state_facts:
  "in_proc 0 pipe_state" "pipe_inv (pipes pipe_state a)" "pi_readopen (pipes pipe_state a)"
  "\<not> p_killed (procs pipe_state ! 0)" "pipe_contents (pipes pipe_state a) = [7]"
  "0x80030000 = p_pagetable (procs pipe_state ! 0)" "mem pipe_state = mem user_state"
  by (simp_all add: pipe_state_def in_proc_def user_state_def zero_state_def NPROC_def pipe_inv_def PIPESIZE_def
      zero_proc_def pipe_contents_def ring_def)




end
