(* ===== verification/File.thy ===== *)
theory File
  imports Dir Console Pipe
begin

text \<open>
  The file table (\<open>file.c\<close>) and \<open>pipealloc\<close> of \<open>pipe.c\<close>: open files are entries of a table of
  \<open>NFILE\<close> with a reference count, and dispatch reads and writes to pipes, devices and inodes.
\<close>

definition upd_file :: "nat \<Rightarrow> (kfile \<Rightarrow> kfile) \<Rightarrow> unit K" where
  "upd_file f g = modify (\<lambda>s. s\<lparr>files := tbl_upd f g (files s)\<rparr>)"

definition get_file :: "nat \<Rightarrow> kfile K" where
  "get_file f = gets (\<lambda>s. files s ! f)"

definition filealloc :: "nat option K" where
  "filealloc =
     mbind (acquire L_ftable) (\<lambda>_.
     mbind (gets files) (\<lambda>tab.
     case find (\<lambda>f. f_ref (tab ! f) = 0) [0..<NFILE] of
       Some f \<Rightarrow>
         mbind (upd_file f (\<lambda>x. x\<lparr>f_ref := 1\<rparr>)) (\<lambda>_.
         mbind (release L_ftable) (\<lambda>_.
         ret (Some f)))
     | None \<Rightarrow>
         mbind (release L_ftable) (\<lambda>_.
         ret None)))"

definition filedup :: "nat \<Rightarrow> nat K" where
  "filedup f =
     mbind (acquire L_ftable) (\<lambda>_.
     mbind (get_file f) (\<lambda>x.
     if f_ref x < 1 then panic ''filedup'' else
     mbind (upd_file f (\<lambda>x. x\<lparr>f_ref := f_ref x + 1\<rparr>)) (\<lambda>_.
     mbind (release L_ftable) (\<lambda>_.
     ret f))))"

definition fileclose :: "nat \<Rightarrow> unit K" where
  "fileclose f =
     mbind (acquire L_ftable) (\<lambda>_.
     mbind (get_file f) (\<lambda>x.
     if f_ref x < 1 then panic ''fileclose'' else
     mbind (upd_file f (\<lambda>x. x\<lparr>f_ref := f_ref x - 1\<rparr>)) (\<lambda>_.
     mbind (get_file f) (\<lambda>ff.
     if f_ref ff > 0 then release L_ftable else
     mbind (upd_file f (\<lambda>x. x\<lparr>f_ref := 0, f_type := FD_NONE\<rparr>)) (\<lambda>_.
     mbind (release L_ftable) (\<lambda>_.
     case f_type ff of
       FD_PIPE \<Rightarrow> pipeclose (f_pipe ff) (f_writable ff)
     | FD_NONE \<Rightarrow> ret ()
     | _ \<Rightarrow>
         mbind begin_op (\<lambda>_.
         mbind (iput (f_ip ff)) (\<lambda>_.
         end_op))))))))"

text \<open>\<open>struct stat\<close> in memory: 32 bytes with padding at 12 and 28. The caller's variable holds
  \<open>junk\<close> before \<open>stati\<close> fills it in.\<close>

definition stat_of :: "byte list \<Rightarrow> stat" where
  "stat_of bs = \<lparr>st_dev = get32 0 bs, st_ino = get32 4 bs, st_type = get16 8 bs, st_nlink = get16 10 bs,
     st_size = of_le64 (get_bytes 16 8 bs), st_mode = get32 24 bs\<rparr>"

definition stat_bytes :: "byte list \<Rightarrow> stat \<Rightarrow> byte list" where
  "stat_bytes junk st = put32 24 (st_mode st) (put_bytes 16 (le64 (st_size st)) (put16 10 (st_nlink st)
     (put16 8 (st_type st) (put32 4 (st_ino st) (put32 0 (st_dev st) junk)))))"

definition filestat :: "byte list \<Rightarrow> nat \<Rightarrow> u64 \<Rightarrow> int K" where
  "filestat junk f addr =
     mbind my_pagetable (\<lambda>pt.
     mbind (get_file f) (\<lambda>x.
     if f_type x = FD_INODE \<or> f_type x = FD_DEVICE then
       mbind (ilock (f_ip x)) (\<lambda>_.
       mbind (stati (f_ip x) (stat_of junk)) (\<lambda>st.
       mbind (iunlock (f_ip x)) (\<lambda>_.
       mbind (copyout pt addr (stat_bytes junk st)) (\<lambda>r.
       if r < 0 then ret (-1) else ret 0))))
     else ret (-1)))"

text \<open>\<open>devsw\<close>: only the console has a driver.\<close>

definition CONSOLE :: int where "CONSOLE = 1"

definition has_driver :: "u16 \<Rightarrow> bool" where
  "has_driver major \<longleftrightarrow> \<not> (sint major < 0 \<or> sint major \<ge> NDEV \<or> sint major \<noteq> CONSOLE)"

definition fileread :: "nat \<Rightarrow> u64 \<Rightarrow> int \<Rightarrow> int K" where
  "fileread f addr n =
     mbind (get_file f) (\<lambda>x.
     if \<not> f_readable x then ret (-1) else
     case f_type x of
       FD_PIPE \<Rightarrow> piperead (f_pipe x) addr n
     | FD_DEVICE \<Rightarrow> if \<not> has_driver (f_major x) then ret (-1) else consoleread (UserDst addr) n
     | FD_INODE \<Rightarrow>
         mbind (ilock (f_ip x)) (\<lambda>_.
         mbind (readi (f_ip x) (UserDst addr) (f_off x) (word_of_int n)) (\<lambda>r.
         mbind (if fst r > 0 then upd_file f (\<lambda>y. y\<lparr>f_off := f_off y + word_of_int (fst r)\<rparr>) else ret ()) (\<lambda>_.
         mbind (iunlock (f_ip x)) (\<lambda>_.
         ret (fst r)))))
     | FD_NONE \<Rightarrow> panic ''fileread'')"

definition write_max :: int where
  "write_max = ((MAXOPBLOCKS - 1 - 1 - 2) div 2) * int BSIZE"

text \<open>The loop of \<open>filewrite\<close>, at index \<open>i\<close> with \<open>left\<close> bytes to write; the result is the final \<open>i\<close>.\<close>

function filewrite_loop :: "nat \<Rightarrow> u64 \<Rightarrow> int \<Rightarrow> int \<Rightarrow> int K" where
  "filewrite_loop f addr i n =
     (if i < n then
        let n1 = min (n - i) write_max in
        mbind begin_op (\<lambda>_.
        mbind (get_file f) (\<lambda>x.
        mbind (ilock (f_ip x)) (\<lambda>_.
        mbind (writei (f_ip x) (UserSrc (addr + word_of_int i)) (f_off x) (word_of_int n1)) (\<lambda>r.
        mbind (if r > 0 then upd_file f (\<lambda>y. y\<lparr>f_off := f_off y + word_of_int r\<rparr>) else ret ()) (\<lambda>_.
        mbind (iunlock (f_ip x)) (\<lambda>_.
        mbind end_op (\<lambda>_.
        if r \<noteq> n1 then ret i else filewrite_loop f addr (i + r) n)))))))
      else ret i)"
  by pat_completeness auto
termination
  by (relation "measure (\<lambda>(_, _, i, n). nat (n - i))") (auto simp: write_max_def MAXOPBLOCKS_def BSIZE_def min_def)

declare filewrite_loop.simps [simp del]

definition filewrite :: "nat \<Rightarrow> u64 \<Rightarrow> int \<Rightarrow> int K" where
  "filewrite f addr n =
     mbind (get_file f) (\<lambda>x.
     if \<not> f_writable x then ret (-1) else
     case f_type x of
       FD_PIPE \<Rightarrow> pipewrite (f_pipe x) addr n
     | FD_DEVICE \<Rightarrow> if \<not> has_driver (f_major x) then ret (-1) else consolewrite (UserSrc addr) n
     | FD_INODE \<Rightarrow>
         mbind (filewrite_loop f addr 0 n) (\<lambda>i.
         ret (if i = n then n else -1))
     | FD_NONE \<Rightarrow> panic ''filewrite'')"

section \<open>Creating a pipe\<close>

definition close_opt :: "nat option \<Rightarrow> unit K" where
  "close_opt f = (case f of None \<Rightarrow> ret () | Some i \<Rightarrow> fileclose i)"

text \<open>The label \<open>bad\<close>; \<open>pi\<close> is null at every jump to it.\<close>

definition pipealloc_bad :: "nat option \<Rightarrow> nat option \<Rightarrow> (nat \<times> nat) option K" where
  "pipealloc_bad f0 f1 =
     mbind (close_opt f0) (\<lambda>_.
     mbind (close_opt f1) (\<lambda>_.
     ret None))"

definition pipealloc :: "(nat \<times> nat) option K" where
  "pipealloc =
     mbind filealloc (\<lambda>f0.
     case f0 of None \<Rightarrow> pipealloc_bad None None | Some i0 \<Rightarrow>
     mbind filealloc (\<lambda>f1.
     case f1 of None \<Rightarrow> pipealloc_bad (Some i0) None | Some i1 \<Rightarrow>
     mbind kalloc (\<lambda>pi.
     if pi = 0 then pipealloc_bad (Some i0) (Some i1) else
     mbind (upd_pipe pi (\<lambda>x. x\<lparr>pi_readopen := True, pi_writeopen := True, pi_nwrite := 0, pi_nread := 0\<rparr>)) (\<lambda>_.
     mbind (upd_file i0 (\<lambda>x. x\<lparr>f_type := FD_PIPE, f_readable := True, f_writable := False, f_pipe := pi\<rparr>)) (\<lambda>_.
     mbind (upd_file i1 (\<lambda>x. x\<lparr>f_type := FD_PIPE, f_readable := False, f_writable := True, f_pipe := pi\<rparr>)) (\<lambda>_.
     ret (Some (i0, i1))))))))"

end
