(* ===== verification/Proc.thy ===== *)
theory Proc
  imports File
begin

text \<open>
  Processes (\<open>proc.c\<close>): allocation and release of process slots and their page tables, \<open>fork\<close>,
  \<open>exit\<close>, \<open>wait\<close>, the scheduler's scan of the process table, and \<open>getprocs\<close>. The sleep and wakeup
  part of \<open>proc.c\<close> is in \<open>Sched.thy\<close>, \<open>forkret\<close> in \<open>Trap.thy\<close>.
\<close>

section \<open>Process slots\<close>

definition get_proc :: "nat \<Rightarrow> proc K" where
  "get_proc p = gets (\<lambda>s. procs s ! p)"

definition upd_tf :: "u64 \<Rightarrow> (trapframe \<Rightarrow> trapframe) \<Rightarrow> unit K" where
  "upd_tf a f = modify (\<lambda>s. s\<lparr>tframes := (tframes s)(a := f (tframes s a))\<rparr>)"

definition procinit :: "unit K" where
  "procinit = for_each [0..<NPROC] (\<lambda>p. upd_proc p (\<lambda>q. q\<lparr>p_state := UNUSED, p_kstack := KSTACK p\<rparr>))"

definition allocpid :: "int K" where
  "allocpid =
     mbind (acquire L_pid) (\<lambda>_.
     mbind (gets nextpid) (\<lambda>pid.
     mbind (modify (\<lambda>s. s\<lparr>nextpid := nextpid s + 1\<rparr>)) (\<lambda>_.
     mbind (release L_pid) (\<lambda>_.
     ret pid))))"

definition proc_pagetable :: "nat \<Rightarrow> u64 K" where
  "proc_pagetable p =
     mbind uvmcreate (\<lambda>pt.
     if pt = 0 then ret 0 else
     mbind (gets ktramp) (\<lambda>tramp.
     mbind (mappages pt TRAMPOLINE PGSIZE tramp (PTE_R OR PTE_X)) (\<lambda>r.
     if r < 0 then
       mbind (uvmfree pt 0) (\<lambda>_.
       ret 0)
     else
     mbind (get_proc p) (\<lambda>q.
     mbind (mappages pt TRAPFRAME PGSIZE (p_trapframe q) (PTE_R OR PTE_W)) (\<lambda>r.
     if r < 0 then
       mbind (uvmunmap pt TRAMPOLINE 1 False) (\<lambda>_.
       mbind (uvmfree pt 0) (\<lambda>_.
       ret 0))
     else ret pt)))))"

definition proc_freepagetable :: "u64 \<Rightarrow> u64 \<Rightarrow> unit K" where
  "proc_freepagetable pt sz =
     mbind (uvmunmap pt TRAMPOLINE 1 False) (\<lambda>_.
     mbind (uvmunmap pt TRAPFRAME 1 False) (\<lambda>_.
     uvmfree pt sz))"

definition cleared_proc :: "proc \<Rightarrow> proc" where
  "cleared_proc q = q\<lparr>p_pagetable := 0, p_sz := 0, p_pid := 0, p_parent := None,
     p_name := (p_name q)[0 := 0], p_chan := None, p_killed := False, p_xstate := 0, p_state := UNUSED\<rparr>"

definition freeproc :: "nat \<Rightarrow> unit K" where
  "freeproc p =
     mbind (get_proc p) (\<lambda>q.
     mbind (if p_trapframe q \<noteq> 0 then kfree (p_trapframe q) else ret ()) (\<lambda>_.
     mbind (upd_proc p (\<lambda>q. q\<lparr>p_trapframe := 0\<rparr>)) (\<lambda>_.
     mbind (if p_pagetable q \<noteq> 0 then proc_freepagetable (p_pagetable q) (p_sz q) else ret ()) (\<lambda>_.
     upd_proc p cleared_proc))))"

text \<open>The search of \<open>allocproc\<close>: the slot it finds is left locked.\<close>

fun find_unused :: "nat list \<Rightarrow> nat option K" where
  "find_unused [] = ret None"
| "find_unused (p # ps) =
     mbind (acquire (L_proc p)) (\<lambda>_.
     mbind (get_proc p) (\<lambda>q.
     if p_state q = UNUSED then ret (Some p) else
     mbind (release (L_proc p)) (\<lambda>_.
     find_unused ps)))"

definition alloc_fail :: "nat \<Rightarrow> nat option K" where
  "alloc_fail p =
     mbind (freeproc p) (\<lambda>_.
     mbind (release (L_proc p)) (\<lambda>_.
     ret None))"

definition allocproc :: "nat option K" where
  "allocproc =
     mbind (find_unused [0..<NPROC]) (\<lambda>found.
     case found of None \<Rightarrow> ret None | Some p \<Rightarrow>
     mbind allocpid (\<lambda>pid.
     mbind (upd_proc p (\<lambda>q. q\<lparr>p_pid := pid\<rparr>)) (\<lambda>_.
     mbind (upd_proc p (\<lambda>q. q\<lparr>p_state := USED\<rparr>)) (\<lambda>_.
     mbind kalloc (\<lambda>tf.
     mbind (upd_proc p (\<lambda>q. q\<lparr>p_trapframe := tf\<rparr>)) (\<lambda>_.
     if tf = 0 then alloc_fail p else
     mbind (proc_pagetable p) (\<lambda>pt.
     mbind (upd_proc p (\<lambda>q. q\<lparr>p_pagetable := pt\<rparr>)) (\<lambda>_.
     if pt = 0 then alloc_fail p else
     mbind (gets (\<lambda>s. sym_forkret (ksym s))) (\<lambda>fr.
     mbind (upd_proc p (\<lambda>q. q\<lparr>p_context := \<lparr>ctx_ra = fr, ctx_sp = p_kstack q + PGSIZE, ctx_s = replicate 12 0\<rparr>\<rparr>)) (\<lambda>_.
     ret (Some p)))))))))))"

section \<open>The first process\<close>

definition initcode :: "byte list" where
  "initcode = [
     0x17, 0x05, 0x00, 0x00, 0x13, 0x05, 0x45, 0x02,
     0x97, 0x05, 0x00, 0x00, 0x93, 0x85, 0x35, 0x02,
     0x93, 0x08, 0x70, 0x00, 0x73, 0x00, 0x00, 0x00,
     0x93, 0x08, 0x20, 0x00, 0x73, 0x00, 0x00, 0x00,
     0xef, 0xf0, 0x9f, 0xff, 0x2f, 0x69, 0x6e, 0x69,
     0x74, 0x00, 0x00, 0x24, 0x00, 0x00, 0x00, 0x00,
     0x00, 0x00, 0x00, 0x00]"

text \<open>\<open>safestrcpy\<close> into a 16-byte name array.\<close>

definition set_name :: "byte list \<Rightarrow> byte list \<Rightarrow> byte list" where
  "set_name src name = put_bytes 0 (safestrcpy_l (pad 15 src)) name"

definition userinit :: "unit K" where
  "userinit =
     mbind allocproc (\<lambda>found.
     case found of None \<Rightarrow> undef ''allocproc returned null'' | Some p \<Rightarrow>
     mbind (modify (\<lambda>s. s\<lparr>initproc := p\<rparr>)) (\<lambda>_.
     mbind (get_proc p) (\<lambda>q.
     mbind (uvmfirst (p_pagetable q) initcode) (\<lambda>_.
     mbind (upd_proc p (\<lambda>q. q\<lparr>p_sz := PGSIZE\<rparr>)) (\<lambda>_.
     mbind (upd_tf (p_trapframe q) (\<lambda>t. t\<lparr>tf_epc := 0, tf_sp := PGSIZE\<rparr>)) (\<lambda>_.
     mbind (upd_proc p (\<lambda>q. q\<lparr>p_name := set_name (bytes_of ''initcode'') (p_name q)\<rparr>)) (\<lambda>_.
     mbind (namei [slash]) (\<lambda>ip.
     mbind (upd_proc p (\<lambda>q. q\<lparr>p_cwd := ip\<rparr>)) (\<lambda>_.
     mbind (upd_proc p (\<lambda>q. q\<lparr>p_state := RUNNABLE\<rparr>)) (\<lambda>_.
     release (L_proc p)))))))))))"

section \<open>Growing, forking\<close>

definition growproc :: "int \<Rightarrow> int K" where
  "growproc n =
     mbind me (\<lambda>p.
     mbind (get_proc p) (\<lambda>q.
     if n > 0 then
       mbind (uvmalloc (p_pagetable q) (p_sz q) (p_sz q + word_of_int n) PTE_W) (\<lambda>sz.
       if sz = 0 then ret (-1) else
       mbind (upd_proc p (\<lambda>q. q\<lparr>p_sz := sz\<rparr>)) (\<lambda>_.
       ret 0))
     else if n < 0 then
       mbind (uvmdealloc (p_pagetable q) (p_sz q) (p_sz q + word_of_int n)) (\<lambda>sz.
       mbind (upd_proc p (\<lambda>q. q\<lparr>p_sz := sz\<rparr>)) (\<lambda>_.
       ret 0))
     else ret 0))"

definition fork_file :: "nat \<Rightarrow> nat \<Rightarrow> nat \<Rightarrow> unit K" where
  "fork_file p np i =
     mbind (get_proc p) (\<lambda>q.
     case p_ofile q ! i of
       None \<Rightarrow> ret ()
     | Some f \<Rightarrow>
         mbind (filedup f) (\<lambda>g.
         upd_proc np (\<lambda>q. q\<lparr>p_ofile := (p_ofile q)[i := Some g]\<rparr>)))"

definition fork :: "int K" where
  "fork =
     mbind me (\<lambda>p.
     mbind allocproc (\<lambda>found.
     case found of None \<Rightarrow> ret (-1) | Some np \<Rightarrow>
     mbind (get_proc p) (\<lambda>q.
     mbind (get_proc np) (\<lambda>nq.
     mbind (uvmcopy (p_pagetable q) (p_pagetable nq) (p_sz q)) (\<lambda>r.
     if r < 0 then
       mbind (freeproc np) (\<lambda>_.
       mbind (release (L_proc np)) (\<lambda>_.
       ret (-1)))
     else
     mbind (upd_proc np (\<lambda>x. x\<lparr>p_sz := p_sz q\<rparr>)) (\<lambda>_.
     mbind (gets (\<lambda>s. tframes s (p_trapframe q))) (\<lambda>tf.
     mbind (upd_tf (p_trapframe nq) (\<lambda>_. tf)) (\<lambda>_.
     mbind (upd_tf (p_trapframe nq) (\<lambda>t. t\<lparr>tf_a0 := 0\<rparr>)) (\<lambda>_.
     mbind (for_each [0..<NOFILE] (fork_file p np)) (\<lambda>_.
     mbind (case p_cwd q of None \<Rightarrow> undef ''idup of a null pointer'' | Some i \<Rightarrow> idup i) (\<lambda>cwd.
     mbind (upd_proc np (\<lambda>x. x\<lparr>p_cwd := Some cwd\<rparr>)) (\<lambda>_.
     mbind (upd_proc np (\<lambda>x. x\<lparr>p_name := set_name (p_name q) (p_name x)\<rparr>)) (\<lambda>_.
     mbind (get_proc np) (\<lambda>nq.
     mbind (release (L_proc np)) (\<lambda>_.
     mbind (acquire L_wait) (\<lambda>_.
     mbind (upd_proc np (\<lambda>x. x\<lparr>p_parent := Some p\<rparr>)) (\<lambda>_.
     mbind (release L_wait) (\<lambda>_.
     mbind (acquire (L_proc np)) (\<lambda>_.
     mbind (upd_proc np (\<lambda>x. x\<lparr>p_state := RUNNABLE\<rparr>)) (\<lambda>_.
     mbind (release (L_proc np)) (\<lambda>_.
     ret (p_pid nq))))))))))))))))))))))"

section \<open>Exit and wait\<close>

definition reparent :: "nat \<Rightarrow> unit K" where
  "reparent p =
     for_each [0..<NPROC] (\<lambda>pp.
       mbind (get_proc pp) (\<lambda>q.
       if p_parent q = Some p then
         mbind (gets initproc) (\<lambda>i.
         mbind (upd_proc pp (\<lambda>q. q\<lparr>p_parent := Some i\<rparr>)) (\<lambda>_.
         wakeup (C_proc i)))
       else ret ()))"

text \<open>\<open>wakeup\<close> on a null channel, which \<open>exit\<close> reaches for a process without a parent.\<close>

definition wakeup_null :: "unit K" where
  "wakeup_null = for_each [0..<NPROC] (\<lambda>p.
     mbind myproc (\<lambda>m.
     if m = Some p then ret () else
     mbind (acquire (L_proc p)) (\<lambda>_.
     mbind (get_proc p) (\<lambda>q.
     mbind (if p_state q = SLEEPING \<and> p_chan q = None
            then upd_proc p (\<lambda>q. q\<lparr>p_state := RUNNABLE\<rparr>) else ret ()) (\<lambda>_.
     release (L_proc p))))))"

definition close_fd :: "nat \<Rightarrow> nat \<Rightarrow> unit K" where
  "close_fd p fd =
     mbind (get_proc p) (\<lambda>q.
     case p_ofile q ! fd of
       None \<Rightarrow> ret ()
     | Some f \<Rightarrow>
         mbind (fileclose f) (\<lambda>_.
         upd_proc p (\<lambda>q. q\<lparr>p_ofile := (p_ofile q)[fd := None]\<rparr>)))"

definition exit :: "int \<Rightarrow> unit K" where
  "exit status =
     mbind me (\<lambda>p.
     mbind (gets initproc) (\<lambda>i.
     if p = i then panic ''init exiting'' else
     mbind (for_each [0..<NOFILE] (close_fd p)) (\<lambda>_.
     mbind begin_op (\<lambda>_.
     mbind (get_proc p) (\<lambda>q.
     mbind (case p_cwd q of None \<Rightarrow> undef ''iput of a null pointer'' | Some ip \<Rightarrow> iput ip) (\<lambda>_.
     mbind end_op (\<lambda>_.
     mbind (upd_proc p (\<lambda>q. q\<lparr>p_cwd := None\<rparr>)) (\<lambda>_.
     mbind (acquire L_wait) (\<lambda>_.
     mbind (reparent p) (\<lambda>_.
     mbind (get_proc p) (\<lambda>q.
     mbind (case p_parent q of None \<Rightarrow> wakeup_null | Some pp \<Rightarrow> wakeup (C_proc pp)) (\<lambda>_.
     mbind (acquire (L_proc p)) (\<lambda>_.
     mbind (upd_proc p (\<lambda>q. q\<lparr>p_xstate := status\<rparr>)) (\<lambda>_.
     mbind (upd_proc p (\<lambda>q. q\<lparr>p_state := ZOMBIE\<rparr>)) (\<lambda>_.
     mbind (release L_wait) (\<lambda>_.
     mbind sched (\<lambda>_.
     panic ''zombie exit'')))))))))))))))))"

text \<open>The scan of \<open>wait\<close> over the process table: \<open>Some r\<close> when it returns \<open>r\<close> from inside the loop,
  and otherwise whether there are children.\<close>

fun wait_scan :: "nat \<Rightarrow> u64 \<Rightarrow> bool \<Rightarrow> nat list \<Rightarrow> (int option \<times> bool) K" where
  "wait_scan p addr havekids [] = ret (None, havekids)"
| "wait_scan p addr havekids (pp # pps) =
     mbind (get_proc pp) (\<lambda>q.
     if p_parent q = Some p then
       mbind (acquire (L_proc pp)) (\<lambda>_.
       mbind (get_proc pp) (\<lambda>q.
       if p_state q = ZOMBIE then
         mbind (if addr \<noteq> 0 then
                  mbind (get_proc p) (\<lambda>me. copyout (p_pagetable me) addr (le32 (word_of_int (p_xstate q))))
                else ret 0) (\<lambda>r.
         if r < 0 then
           mbind (release (L_proc pp)) (\<lambda>_.
           mbind (release L_wait) (\<lambda>_.
           ret (Some (-1), True)))
         else
           mbind (freeproc pp) (\<lambda>_.
           mbind (release (L_proc pp)) (\<lambda>_.
           mbind (release L_wait) (\<lambda>_.
           ret (Some (p_pid q), True)))))
       else
         mbind (release (L_proc pp)) (\<lambda>_.
         wait_scan p addr True pps)))
     else wait_scan p addr havekids pps)"

definition wait :: "u64 \<Rightarrow> int K" where
  "wait addr =
     mbind me (\<lambda>p.
     mbind (acquire L_wait) (\<lambda>_.
     mbind (wait_scan p addr False [0..<NPROC]) (\<lambda>r.
     case fst r of
       Some x \<Rightarrow> ret x
     | None \<Rightarrow>
         mbind (if snd r then killed p else ret True) (\<lambda>stop.
         if stop then
           mbind (release L_wait) (\<lambda>_.
           ret (-1))
         else
           mbind (sleep (C_proc p) L_wait) (\<lambda>_.
           ret 0)))))"

section \<open>The scheduler\<close>

text \<open>
  The inner loop of \<open>scheduler\<close> from a given slot on. It ends in \<^const>\<open>Switch\<close> when it runs a process;
  \<open>scheduler_back\<close> is what happens when that process gives the processor back, before the scan goes on.
\<close>

fun scheduler_scan :: "nat list \<Rightarrow> unit K" where
  "scheduler_scan [] = ret ()"
| "scheduler_scan (p # ps) =
     mbind (acquire (L_proc p)) (\<lambda>_.
     mbind (get_proc p) (\<lambda>q.
     if p_state q = RUNNABLE then
       mbind (upd_proc p (\<lambda>q. q\<lparr>p_state := RUNNING\<rparr>)) (\<lambda>_.
       mbind (modify (\<lambda>s. s\<lparr>curproc := Some p\<rparr>)) (\<lambda>_.
       swtch))
     else
       mbind (release (L_proc p)) (\<lambda>_.
       scheduler_scan ps)))"

definition scheduler_back :: "nat \<Rightarrow> unit K" where
  "scheduler_back p =
     mbind (modify (\<lambda>s. s\<lparr>curproc := None\<rparr>)) (\<lambda>_.
     mbind (release (L_proc p)) (\<lambda>_.
     scheduler_scan [Suc p..<NPROC]))"

definition scheduler :: "unit K" where
  "scheduler =
     mbind (modify (\<lambda>s. s\<lparr>curproc := None\<rparr>)) (\<lambda>_.
     scheduler_scan [0..<NPROC])"

section \<open>Process statistics\<close>

text \<open>\<open>struct proc_stat\<close> of \<open>procstat.h\<close>: \<open>pid\<close>, \<open>state\<close>, \<open>ticks\<close>, \<open>memory\<close> and 16 bytes of name.\<close>

fun state_code :: "procstate \<Rightarrow> u32" where
  "state_code UNUSED = 0"
| "state_code USED = 1"
| "state_code SLEEPING = 2"
| "state_code RUNNABLE = 3"
| "state_code RUNNING = 4"
| "state_code ZOMBIE = 5"

definition put_stat :: "nat \<Rightarrow> proc \<Rightarrow> u32 \<Rightarrow> byte list \<Rightarrow> byte list" where
  "put_stat n q tk bs = put_bytes (32 * n + 16) (safestrcpy_l (pad 15 (p_name q)))
     (put32 (32 * n + 12) (ucast (p_sz q)) (put32 (32 * n + 8) tk
     (put32 (32 * n + 4) (state_code (p_state q)) (put32 (32 * n) (word_of_int (p_pid q)) bs))))"

fun getprocs_loop :: "nat \<Rightarrow> nat list \<Rightarrow> nat \<Rightarrow> byte list \<Rightarrow> (nat \<times> byte list) K" where
  "getprocs_loop mx [] n bs = ret (n, bs)"
| "getprocs_loop mx (p # ps) n bs =
     (if n < mx then
        mbind (acquire (L_proc p)) (\<lambda>_.
        mbind (get_proc p) (\<lambda>q.
        mbind (gets ticks) (\<lambda>tk.
        mbind (release (L_proc p)) (\<lambda>_.
        if p_state q \<noteq> UNUSED then getprocs_loop mx ps (n + 1) (put_stat n q tk bs)
        else getprocs_loop mx ps n bs))))
      else ret (n, bs))"

text \<open>\<open>junk\<close> is what the array \<open>local_stats\<close> holds before it is filled in.\<close>

definition getprocs :: "byte list \<Rightarrow> u64 \<Rightarrow> int \<Rightarrow> int K" where
  "getprocs junk ps mx =
     (if mx \<le> 0 \<or> mx > int NPROC then ret (-1) else
      mbind (getprocs_loop (nat mx) [0..<NPROC] 0 junk) (\<lambda>res.
      mbind my_pagetable (\<lambda>pt.
      mbind (copyout pt ps (take (fst res * 32) (snd res))) (\<lambda>r.
      if r < 0 then ret (-1) else ret (int (fst res))))))"

section \<open>Every runnable process gets its turn\<close>

text \<open>A scan runs the first runnable process of the slots it is given, or returns when there is none.\<close>

lemma scheduler_scan_first:
  assumes "no_proc_locks s" and "\<forall>p \<in> set ps. p < length (procs s)"
  shows "scheduler_scan ps s =
    (case find (\<lambda>p. p_state (procs s ! p) = RUNNABLE) ps of
       None \<Rightarrow> Ok () s
     | Some p \<Rightarrow> Switch (s\<lparr>held := insert (L_proc p) (held s), curproc := Some p,
         procs := (procs s)[p := (procs s ! p)\<lparr>p_state := RUNNING\<rparr>]\<rparr>))"
  using assms
proof (induction ps)
  case (Cons p ps)
  then have "L_proc p \<notin> held s" "p < length (procs s)" by (auto simp: no_proc_locks_def)
  then show ?case using Cons by (simp add: get_proc_def upd_proc_def tbl_upd_def swtch_def)
qed simp

text \<open>
  What a process may have done when it gives the processor back: anything, but the hart again holds
  only the lock of that process. A pass of the scheduler over the table, with the slots it ran in order,
  where \<open>I\<close> holds of every state in which a process gives the processor back.
\<close>

definition gave_back :: "nat \<Rightarrow> kstate \<Rightarrow> bool" where
  "gave_back p s \<longleftrightarrow> held s = {L_proc p} \<and> length (procs s) = NPROC"

inductive sched_pass :: "(nat \<Rightarrow> kstate \<Rightarrow> bool) \<Rightarrow> (kstate, unit) outcome \<Rightarrow> nat list \<Rightarrow> bool" for I where
  scanned: "sched_pass I (Ok () t) []"
| ran: "curproc s = Some p \<Longrightarrow> gave_back p t \<Longrightarrow> I p t \<Longrightarrow> sched_pass I (scheduler_back p t) ps \<Longrightarrow>
    sched_pass I (Switch s) (p # ps)"

inductive_cases sched_pass_Ok: "sched_pass I (Ok () t) ps"
inductive_cases sched_pass_Switch: "sched_pass I (Switch s) ps"

lemma find_upt_least: "find P [i..<n] = Some p \<Longrightarrow> i \<le> p \<and> p < n \<and> P p \<and> (\<forall>j. i \<le> j \<and> j < p \<longrightarrow> \<not> P j)"
proof -
  assume "find P [i..<n] = Some p"
  then obtain k where k: "k < n - i" "P (i + k)" "p = i + k" "\<forall>j < k. \<not> P (i + j)"
    by (auto simp: find_Some_iff)
  have "\<not> P j" if "i \<le> j" "j < p" for j using k(3,4) that spec[OF k(4), of "j - i"] by simp
  then show ?thesis using k by auto
qed

lemma scheduler_back_scan:
  assumes "gave_back p t"
  shows "scheduler_back p t = scheduler_scan [Suc p..<NPROC] (t\<lparr>curproc := None, held := {}\<rparr>)"
  using assms by (simp add: scheduler_back_def gave_back_def)

lemma scan_pass:
  assumes "sched_pass I r ps" and "r = scheduler_scan [i..<NPROC] s" and "no_proc_locks s" and "length (procs s) = NPROC"
    and "i \<le> q" and "q < NPROC" and "p_state (procs s ! q) = RUNNABLE"
    and I: "\<And>p t. I p t \<Longrightarrow> p \<noteq> q \<Longrightarrow> p_state (procs t ! q) = RUNNABLE"
  shows "q \<in> set ps"
  using assms(1-7)
proof (induction arbitrary: i s)
  case (scanned t)
  have "find (\<lambda>p. p_state (procs s ! p) = RUNNABLE) [i..<NPROC] \<noteq> None"
    using scanned by (auto simp: find_None_iff)
  then show ?case using scanned scheduler_scan_first[of s "[i..<NPROC]"] by auto
next
  case (ran u p t ps)
  have sc: "scheduler_scan [i..<NPROC] s = (case find (\<lambda>p. p_state (procs s ! p) = RUNNABLE) [i..<NPROC] of
       None \<Rightarrow> Ok () s
     | Some p \<Rightarrow> Switch (s\<lparr>held := insert (L_proc p) (held s), curproc := Some p,
         procs := (procs s)[p := (procs s ! p)\<lparr>p_state := RUNNING\<rparr>]\<rparr>))"
    using ran by (intro scheduler_scan_first) simp_all
  then have f: "find (\<lambda>p. p_state (procs s ! p) = RUNNABLE) [i..<NPROC] = Some p"
    using ran.hyps(1) ran.prems(1) by (auto split: option.splits)
  have p: "p \<le> q" using find_upt_least[OF f] ran.prems by (meson not_le)
  show ?case
  proof (cases "p = q")
    case False
    let ?t = "t\<lparr>curproc := None, held := {}\<rparr>"
    have "q \<in> set ps"
    proof (rule ran.IH)
      show "scheduler_back p t = scheduler_scan [Suc p..<NPROC] ?t" using ran.hyps(2) by (rule scheduler_back_scan)
      show "p_state (procs ?t ! q) = RUNNABLE" using I[OF ran.hyps(3) False] by simp
    qed (use p False ran.prems ran.hyps(2) in \<open>simp_all add: no_proc_locks_def gave_back_def\<close>)
    then show ?thesis by simp
  qed simp
qed

lemma scan_cases:
  assumes "no_proc_locks s" and "length (procs s) = NPROC"
  shows "scheduler_scan [i..<NPROC] s = Ok () s \<or>
    (\<exists>u p. scheduler_scan [i..<NPROC] s = Switch u \<and> curproc u = Some p \<and> i \<le> p \<and> p < NPROC)"
proof (cases "find (\<lambda>p. p_state (procs s ! p) = RUNNABLE) [i..<NPROC]")
  case None
  then show ?thesis using scheduler_scan_first[of s "[i..<NPROC]"] assms by simp
next
  case (Some p)
  then show ?thesis using scheduler_scan_first[of s "[i..<NPROC]"] find_upt_least[OF Some] assms by simp
qed

lemma back_cases:
  assumes "gave_back p t"
  shows "(\<exists>u. scheduler_back p t = Ok () u) \<or> (\<exists>u q. scheduler_back p t = Switch u \<and> curproc u = Some q \<and> p < q \<and> q < NPROC)"
  using scan_cases[of "t\<lparr>curproc := None, held := {}\<rparr>" "Suc p"] assms scheduler_back_scan[OF assms]
  by (fastforce simp: no_proc_locks_def gave_back_def)

lemma pass_increasing:
  assumes "sched_pass I r ps" and "\<And>u p. r = Switch u \<Longrightarrow> curproc u = Some p \<Longrightarrow> i \<le> p"
  shows "sorted_wrt (<) ps \<and> (\<forall>p \<in> set ps. i \<le> p)"
  using assms
proof (induction arbitrary: i)
  case (ran s p t ps)
  have "sorted_wrt (<) ps \<and> (\<forall>p' \<in> set ps. Suc p \<le> p')"
    by (rule ran.IH) (use back_cases[OF ran.hyps(2)] in fastforce)
  moreover have "i \<le> p" using ran by blast
  ultimately show ?case by force
qed simp

text \<open>
  C10: the scheduler is fair. However the processes behave while they run, in one pass over the table
  the scheduler runs every process that is runnable when the pass starts and stays so until its turn, and
  it runs no process twice. A pass never stops on the way: whenever a process gives the processor back,
  the scan goes on to the end of the table or to a process in a later slot.
\<close>

theorem scheduler_fair:
  assumes "no_proc_locks s" and "length (procs s) = NPROC" and "q < NPROC" and "p_state (procs s ! q) = RUNNABLE"
    and "sched_pass (\<lambda>p t. p \<noteq> q \<longrightarrow> p_state (procs t ! q) = RUNNABLE) (scheduler s) ps"
  shows "q \<in> set ps \<and> sorted_wrt (<) ps \<and>
    (\<forall>p t. gave_back p t \<longrightarrow> (\<exists>u. scheduler_back p t = Ok () u) \<or>
       (\<exists>u p'. scheduler_back p t = Switch u \<and> curproc u = Some p' \<and> p < p' \<and> p' < NPROC))"
proof -
  let ?s = "s\<lparr>curproc := None\<rparr>"
  have e: "scheduler s = scheduler_scan [0..<NPROC] ?s" by (simp add: scheduler_def)
  have "q \<in> set ps" by (rule scan_pass[OF assms(5) e]) (use assms(1-4) in \<open>simp_all add: no_proc_locks_def\<close>)
  moreover have "sorted_wrt (<) ps" using pass_increasing[OF assms(5), of 0] by simp
  ultimately show ?thesis using back_cases by blast
qed

text \<open>One runnable process, in slot 3, which gives the processor back at once.\<close>

definition one_runnable :: kstate where
  "one_runnable = zero_state\<lparr>procs := (replicate NPROC zero_proc)[3 := zero_proc\<lparr>p_state := RUNNABLE\<rparr>]\<rparr>"

lemma scheduler_fair_witness:
  "\<exists>ps. sched_pass (\<lambda>p t. p \<noteq> 3 \<longrightarrow> p_state (procs t ! 3) = RUNNABLE) (scheduler one_runnable) ps \<and> 3 \<in> set ps"
proof -
  let ?I = "\<lambda>p t. p \<noteq> 3 \<longrightarrow> p_state (procs t ! 3) = RUNNABLE"
  let ?t = "one_runnable\<lparr>held := {L_proc 3}\<rparr>"
  have s: "no_proc_locks one_runnable" "length (procs one_runnable) = NPROC" "p_state (procs one_runnable ! 3) = RUNNABLE"
    and n: "\<And>p. p < NPROC \<Longrightarrow> p \<noteq> 3 \<Longrightarrow> p_state (procs one_runnable ! p) \<noteq> RUNNABLE"
    by (simp_all add: one_runnable_def no_proc_locks_def zero_state_def zero_proc_def NPROC_def)
  have "find (\<lambda>p. p_state (procs one_runnable ! p) = RUNNABLE) [0..<NPROC] = Some 3"
    using s(3) n by (auto simp: find_Some_iff NPROC_def intro!: exI[of _ 3])
  then obtain u where u: "scheduler one_runnable = Switch u" "curproc u = Some 3"
    using s(1,2) scheduler_scan_first[of "one_runnable\<lparr>curproc := None\<rparr>" "[0..<NPROC]"]
    by (simp add: scheduler_def no_proc_locks_def)
  have g: "gave_back 3 ?t" using s(2) by (simp add: gave_back_def)
  have "find (\<lambda>p. p_state (procs one_runnable ! p) = RUNNABLE) [Suc 3..<NPROC] = None"
    using n by (auto simp: find_None_iff)
  then have "\<exists>v. scheduler_back 3 ?t = Ok () v"
    using s(2) scheduler_back_scan[OF g] scheduler_scan_first[of "?t\<lparr>curproc := None, held := {}\<rparr>" "[Suc 3..<NPROC]"]
    by (simp add: no_proc_locks_def)
  then have "sched_pass ?I (scheduler_back 3 ?t) []" using sched_pass.scanned by metis
  then have pass: "sched_pass ?I (scheduler one_runnable) [3]"
    unfolding u(1) by (intro sched_pass.ran[OF u(2) g]) simp_all
  then show ?thesis using scheduler_fair[OF s(1,2) _ s(3) pass] by (intro exI[of _ "[3]"]) (simp add: NPROC_def)
qed

end
