(* ===== verification/Sysarg.thy ===== *)
theory Sysarg
  imports Proc
begin

text \<open>
  System call arguments (first part of \<open>syscall.c\<close>). Arguments are registers of the process's trap
  frame; \<open>argint\<close> keeps the low 32 bits as a signed number. A string argument is fetched as the C
  result and the bytes it stored in the buffer.
\<close>

definition my_tframe :: "trapframe K" where
  "my_tframe = mbind me (\<lambda>p. gets (\<lambda>s. tframes s (p_trapframe (procs s ! p))))"

definition fetchaddr :: "u64 \<Rightarrow> (int \<times> u64) K" where
  "fetchaddr addr =
     mbind me (\<lambda>p.
     mbind (get_proc p) (\<lambda>q.
     if addr \<ge> p_sz q \<or> addr + 8 > p_sz q then ret (-1, 0) else
     mbind (copyin (p_pagetable q) addr 8) (\<lambda>r.
     if fst r \<noteq> 0 then ret (-1, 0) else ret (0, of_le64 (snd r)))))"

definition fetchstr :: "u64 \<Rightarrow> nat \<Rightarrow> (int \<times> byte list) K" where
  "fetchstr addr mx =
     mbind my_pagetable (\<lambda>pt.
     mbind (copyinstr pt addr mx) (\<lambda>r.
     if fst r < 0 then ret (-1, snd r) else ret (int (length (cstr (snd r))), snd r)))"

definition argraw :: "nat \<Rightarrow> u64 K" where
  "argraw n =
     mbind my_tframe (\<lambda>t.
     if n = 0 then ret (tf_a0 t)
     else if n = 1 then ret (tf_a1 t)
     else if n = 2 then ret (tf_a2 t)
     else if n = 3 then ret (tf_a3 t)
     else if n = 4 then ret (tf_a4 t)
     else if n = 5 then ret (tf_a5 t)
     else panic ''argraw'')"

definition argint :: "nat \<Rightarrow> int K" where
  "argint n = mbind (argraw n) (\<lambda>w. ret (sint (ucast w :: u32)))"

definition argaddr :: "nat \<Rightarrow> u64 K" where
  "argaddr n = argraw n"

definition argstr :: "nat \<Rightarrow> nat \<Rightarrow> (int \<times> byte list) K" where
  "argstr n mx = mbind (argaddr n) (\<lambda>addr. fetchstr addr mx)"

text \<open>A C \<open>int\<close> returned as \<open>uint64\<close>.\<close>

definition retint :: "int \<Rightarrow> u64 K" where
  "retint i = ret (word_of_int i)"

end
