(* ===== verification/Exec.thy ===== *)
theory Exec
  imports Proc
begin

text \<open>
  Loading a program (\<open>exec.c\<close>, with the ELF structures of \<open>elf.h\<close>). The label \<open>bad\<close> of \<open>exec\<close> is
  \<open>exec_bad\<close>, called with the values its two tests look at.
\<close>

section \<open>ELF headers\<close>

definition ELF_MAGIC :: u32 where "ELF_MAGIC = 0x464C457F"
definition ELF_PROG_LOAD :: u32 where "ELF_PROG_LOAD = 1"
definition USERSTACK :: u64 where "USERSTACK = 1"

record elfhdr =
  eh_magic :: u32
  eh_entry :: u64
  eh_phoff :: u64
  eh_phnum :: u16

record proghdr =
  ph_type :: u32
  ph_flags :: u32
  ph_off :: u64
  ph_vaddr :: u64
  ph_filesz :: u64
  ph_memsz :: u64

definition get64 :: "nat \<Rightarrow> byte list \<Rightarrow> u64" where
  "get64 off bs = of_le64 (get_bytes off 8 bs)"

definition decode_elfhdr :: "byte list \<Rightarrow> elfhdr" where
  "decode_elfhdr bs = \<lparr>eh_magic = get32 0 bs, eh_entry = get64 24 bs, eh_phoff = get64 32 bs,
     eh_phnum = get16 56 bs\<rparr>"

definition decode_proghdr :: "byte list \<Rightarrow> proghdr" where
  "decode_proghdr bs = \<lparr>ph_type = get32 0 bs, ph_flags = get32 4 bs, ph_off = get64 8 bs,
     ph_vaddr = get64 16 bs, ph_filesz = get64 32 bs, ph_memsz = get64 40 bs\<rparr>"

definition flags2perm :: "u32 \<Rightarrow> u64" where
  "flags2perm flags =
     (if flags AND 1 \<noteq> 0 then PTE_X else 0) OR (if flags AND 2 \<noteq> 0 then PTE_W else 0)"

section \<open>Segments\<close>

text \<open>The loop of \<open>loadseg\<close>; the list holds the values of \<open>i\<close>.\<close>

fun loadseg_loop :: "u64 \<Rightarrow> u64 \<Rightarrow> nat \<Rightarrow> u32 \<Rightarrow> u32 \<Rightarrow> u32 list \<Rightarrow> int K" where
  "loadseg_loop pt va ip offset sz [] = ret 0"
| "loadseg_loop pt va ip offset sz (i # is) =
     mbind (walkaddr pt (va + ucast i)) (\<lambda>pa.
     if pa = 0 then panic ''loadseg: address should exist'' else
     let n = (if sz - i < 4096 then sz - i else 4096) in
     mbind (readi ip (KernAddr pa) (offset + i) n) (\<lambda>r.
     if (word_of_int (fst r) :: u32) \<noteq> n then ret (-1)
     else loadseg_loop pt va ip offset sz is))"

definition loadseg :: "u64 \<Rightarrow> u64 \<Rightarrow> nat \<Rightarrow> u32 \<Rightarrow> u32 \<Rightarrow> int K" where
  "loadseg pt va ip offset sz =
     loadseg_loop pt va ip offset sz (map (\<lambda>k. of_nat (4096 * k)) [0..<(unat sz + 4095) div 4096])"

text \<open>The loop over the program headers, with \<open>k\<close> of them left: whether all were loaded, and \<open>sz\<close>.\<close>

fun load_segments :: "nat \<Rightarrow> u64 \<Rightarrow> nat \<Rightarrow> u32 \<Rightarrow> u64 \<Rightarrow> (bool \<times> u64) K" where
  "load_segments 0 pt ip off sz = ret (True, sz)"
| "load_segments (Suc k) pt ip off sz =
     mbind (readi ip KernVar off 56) (\<lambda>r.
     if fst r \<noteq> 56 then ret (False, sz) else
     let ph = decode_proghdr (snd r) in
     if ph_type ph \<noteq> ELF_PROG_LOAD then load_segments k pt ip (off + 56) sz
     else if ph_memsz ph < ph_filesz ph then ret (False, sz)
     else if ph_vaddr ph + ph_memsz ph < ph_vaddr ph then ret (False, sz)
     else if ph_vaddr ph mod PGSIZE \<noteq> 0 then ret (False, sz)
     else
       mbind (uvmalloc pt sz (ph_vaddr ph + ph_memsz ph) (flags2perm (ph_flags ph))) (\<lambda>sz1.
       if sz1 = 0 then ret (False, sz) else
       mbind (loadseg pt (ph_vaddr ph) ip (ucast (ph_off ph)) (ucast (ph_filesz ph))) (\<lambda>l.
       if l < 0 then ret (False, sz1) else load_segments k pt ip (off + 56) sz1)))"

section \<open>Arguments\<close>

definition align16 :: "u64 \<Rightarrow> u64" where
  "align16 sp = sp - sp mod 16"

text \<open>Pushing the argument strings: \<open>None\<close> for \<open>goto bad\<close>, otherwise the stack pointer and the
  entries of \<open>ustack\<close>. \<open>argv\<close> are the pointers before the null one.\<close>

fun push_args :: "u64 \<Rightarrow> u64 \<Rightarrow> u64 list \<Rightarrow> nat \<Rightarrow> u64 \<Rightarrow> u64 list \<Rightarrow> (u64 \<times> u64 list) option K" where
  "push_args pt stackbase [] argc sp ustack = ret (Some (sp, ustack))"
| "push_args pt stackbase (a # argv) argc sp ustack =
     (if argc \<ge> MAXARG then ret None else
      mbind (gets (\<lambda>s. strlen (mem s) a)) (\<lambda>len.
      case len of None \<Rightarrow> undef ''argument without terminator'' | Some l \<Rightarrow>
      let sp1 = align16 (sp - (of_nat l + 1)) in
      if sp1 < stackbase then ret None else
      mbind (gets (\<lambda>s. read_bytes (mem s) a (l + 1))) (\<lambda>bs.
      mbind (copyout pt sp1 bs) (\<lambda>r.
      if r < 0 then ret None else
      push_args pt stackbase argv (argc + 1) sp1 (ustack @ [sp1])))))"

text \<open>What follows the last slash of the path.\<close>

definition path_last :: "byte list \<Rightarrow> byte list" where
  "path_last path = rev (takeWhile (\<lambda>c. c \<noteq> slash) (rev path))"

section \<open>exec\<close>

definition exec_bad :: "u64 \<Rightarrow> u64 \<Rightarrow> nat option \<Rightarrow> int K" where
  "exec_bad pt sz ip =
     mbind (if pt \<noteq> 0 then proc_freepagetable pt sz else ret ()) (\<lambda>_.
     mbind (case ip of None \<Rightarrow> ret () | Some i \<Rightarrow>
              mbind (iunlockput i) (\<lambda>_. end_op)) (\<lambda>_.
     ret (-1)))"

text \<open>From the committed image on: nothing can fail any more.\<close>

definition exec_commit :: "byte list \<Rightarrow> nat \<Rightarrow> u64 \<Rightarrow> u64 \<Rightarrow> u64 \<Rightarrow> u64 \<Rightarrow> u64 \<Rightarrow> unit K" where
  "exec_commit path p pt sz oldsz eentry sp =
     mbind (get_proc p) (\<lambda>q.
     mbind (upd_tf (p_trapframe q) (\<lambda>t. t\<lparr>tf_a1 := sp\<rparr>)) (\<lambda>_.
     mbind (upd_proc p (\<lambda>q. q\<lparr>p_name := set_name (path_last path) (p_name q)\<rparr>)) (\<lambda>_.
     mbind (upd_proc p (\<lambda>q. q\<lparr>p_pagetable := pt\<rparr>)) (\<lambda>_.
     mbind (upd_proc p (\<lambda>q. q\<lparr>p_sz := sz\<rparr>)) (\<lambda>_.
     mbind (upd_tf (p_trapframe q) (\<lambda>t. t\<lparr>tf_epc := eentry\<rparr>)) (\<lambda>_.
     mbind (upd_tf (p_trapframe q) (\<lambda>t. t\<lparr>tf_sp := sp\<rparr>)) (\<lambda>_.
     proc_freepagetable (p_pagetable q) oldsz)))))))"

text \<open>The stack and the arguments, after the program has been loaded into \<open>pt\<close> up to \<open>sz0\<close>.\<close>

definition exec_stack :: "byte list \<Rightarrow> u64 list \<Rightarrow> nat \<Rightarrow> u64 \<Rightarrow> u64 \<Rightarrow> u64 \<Rightarrow> int K" where
  "exec_stack path argv p pt sz0 eentry =
     mbind (get_proc p) (\<lambda>q.
     let sz = PGROUNDUP sz0 in
     mbind (uvmalloc pt sz (sz + (USERSTACK + 1) * PGSIZE) PTE_W) (\<lambda>sz1.
     if sz1 = 0 then exec_bad pt sz None else
     mbind (uvmclear pt (sz1 - (USERSTACK + 1) * PGSIZE)) (\<lambda>_.
     let stackbase = sz1 - USERSTACK * PGSIZE in
     mbind (push_args pt stackbase argv 0 sz1 []) (\<lambda>pushed.
     case pushed of None \<Rightarrow> exec_bad pt sz1 None | Some (sp0, ustack) \<Rightarrow>
     if length ustack \<ge> MAXARG then undef ''ustack[argc]'' else
     let argc = length ustack; sp = align16 (sp0 - (of_nat argc + 1) * 8) in
     if sp < stackbase then exec_bad pt sz1 None else
     mbind (copyout pt sp (concat (map le64 (ustack @ [0])))) (\<lambda>r.
     if r < 0 then exec_bad pt sz1 None else
     mbind (exec_commit path p pt sz1 (p_sz q) eentry sp) (\<lambda>_.
     ret (int argc)))))))"

definition exec :: "byte list \<Rightarrow> u64 list \<Rightarrow> int K" where
  "exec path argv =
     mbind me (\<lambda>p.
     mbind begin_op (\<lambda>_.
     mbind (namei path) (\<lambda>found.
     case found of
       None \<Rightarrow>
         mbind end_op (\<lambda>_.
         ret (-1))
     | Some ip \<Rightarrow>
         mbind (ilock ip) (\<lambda>_.
         mbind (readi ip KernVar 0 64) (\<lambda>r.
         if fst r \<noteq> 64 then exec_bad 0 0 (Some ip) else
         let elf = decode_elfhdr (snd r) in
         if eh_magic elf \<noteq> ELF_MAGIC then exec_bad 0 0 (Some ip) else
         mbind (proc_pagetable p) (\<lambda>pt.
         if pt = 0 then exec_bad 0 0 (Some ip) else
         mbind (load_segments (unat (eh_phnum elf)) pt ip (ucast (eh_phoff elf)) 0) (\<lambda>l.
         if \<not> fst l then exec_bad pt (snd l) (Some ip) else
         mbind (iunlockput ip) (\<lambda>_.
         mbind end_op (\<lambda>_.
         exec_stack path argv p pt (snd l) (eh_entry elf))))))))))"

end
