(* ===== verification/Sysfile.thy ===== *)
theory Sysfile
  imports Sysarg Exec
begin

text \<open>
  File system calls (\<open>sysfile.c\<close>), among them the added \<open>lseek\<close> and \<open>chmod\<close>. Paths are byte
  sequences up to their terminator; \<open>junk\<close> stands for the bytes an uninitialised local array holds.
\<close>

section \<open>Descriptors\<close>

definition argfd :: "nat \<Rightarrow> (int \<times> nat) option K" where
  "argfd n =
     mbind (argint n) (\<lambda>fd.
     if fd < 0 \<or> fd \<ge> int NOFILE then ret None else
     mbind me (\<lambda>p.
     mbind (get_proc p) (\<lambda>q.
     case p_ofile q ! nat fd of None \<Rightarrow> ret None | Some f \<Rightarrow> ret (Some (fd, f)))))"

definition set_fd :: "nat \<Rightarrow> nat \<Rightarrow> nat option \<Rightarrow> unit K" where
  "set_fd p fd f = upd_proc p (\<lambda>q. q\<lparr>p_ofile := (p_ofile q)[fd := f]\<rparr>)"

definition fdalloc :: "nat \<Rightarrow> int K" where
  "fdalloc f =
     mbind me (\<lambda>p.
     mbind (get_proc p) (\<lambda>q.
     case find (\<lambda>fd. p_ofile q ! fd = None) [0..<NOFILE] of
       None \<Rightarrow> ret (-1)
     | Some fd \<Rightarrow>
         mbind (set_fd p fd (Some f)) (\<lambda>_.
         ret (int fd))))"

definition sys_dup :: "u64 K" where
  "sys_dup =
     mbind (argfd 0) (\<lambda>a.
     case a of None \<Rightarrow> retint (-1) | Some (_, f) \<Rightarrow>
     mbind (fdalloc f) (\<lambda>fd.
     if fd < 0 then retint (-1) else
     mbind (filedup f) (\<lambda>_.
     retint fd)))"

definition sys_read :: "u64 K" where
  "sys_read =
     mbind (argaddr 1) (\<lambda>p.
     mbind (argint 2) (\<lambda>n.
     mbind (argfd 0) (\<lambda>a.
     case a of None \<Rightarrow> retint (-1) | Some (_, f) \<Rightarrow>
     mbind (fileread f p n) retint)))"

definition sys_write :: "u64 K" where
  "sys_write =
     mbind (argaddr 1) (\<lambda>p.
     mbind (argint 2) (\<lambda>n.
     mbind (argfd 0) (\<lambda>a.
     case a of None \<Rightarrow> retint (-1) | Some (_, f) \<Rightarrow>
     mbind (filewrite f p n) retint)))"

definition sys_close :: "u64 K" where
  "sys_close =
     mbind (argfd 0) (\<lambda>a.
     case a of None \<Rightarrow> retint (-1) | Some (fd, f) \<Rightarrow>
     mbind me (\<lambda>p.
     mbind (set_fd p (nat fd) None) (\<lambda>_.
     mbind (fileclose f) (\<lambda>_.
     retint 0))))"

definition sys_fstat :: "byte list \<Rightarrow> u64 K" where
  "sys_fstat junk =
     mbind (argaddr 1) (\<lambda>st.
     mbind (argfd 0) (\<lambda>a.
     case a of None \<Rightarrow> retint (-1) | Some (_, f) \<Rightarrow>
     mbind (filestat junk f st) retint))"

section \<open>Links\<close>

definition fail_op :: "u64 K" where
  "fail_op = mbind end_op (\<lambda>_. retint (-1))"

definition link_bad :: "nat \<Rightarrow> u64 K" where
  "link_bad ip =
     mbind (ilock ip) (\<lambda>_.
     mbind (upd_inode ip (\<lambda>x. x\<lparr>i_nlink := i_nlink x - 1\<rparr>)) (\<lambda>_.
     mbind (iupdate ip) (\<lambda>_.
     mbind (iunlockput ip) (\<lambda>_.
     fail_op))))"

definition sys_link :: "u64 K" where
  "sys_link =
     mbind (argstr 0 MAXPATH) (\<lambda>old.
     if fst old < 0 then retint (-1) else
     mbind (argstr 1 MAXPATH) (\<lambda>new.
     if fst new < 0 then retint (-1) else
     mbind begin_op (\<lambda>_.
     mbind (namei (cstr (snd old))) (\<lambda>found.
     case found of None \<Rightarrow> fail_op | Some ip \<Rightarrow>
     mbind (ilock ip) (\<lambda>_.
     mbind (get_inode ip) (\<lambda>x.
     if i_type x = T_DIR then
       mbind (iunlockput ip) (\<lambda>_.
       fail_op)
     else
     mbind (upd_inode ip (\<lambda>x. x\<lparr>i_nlink := i_nlink x + 1\<rparr>)) (\<lambda>_.
     mbind (iupdate ip) (\<lambda>_.
     mbind (iunlock ip) (\<lambda>_.
     mbind (nameiparent (cstr (snd new))) (\<lambda>par.
     case par of None \<Rightarrow> link_bad ip | Some (dp, name) \<Rightarrow>
     mbind (ilock dp) (\<lambda>_.
     mbind (get_inode dp) (\<lambda>d.
     mbind (get_inode ip) (\<lambda>x.
     mbind (if i_dev d \<noteq> i_dev x then ret (-1) else dirlink dp name (i_inum x)) (\<lambda>r.
     if r < 0 then
       mbind (iunlockput dp) (\<lambda>_.
       link_bad ip)
     else
       mbind (iunlockput dp) (\<lambda>_.
       mbind (iput ip) (\<lambda>_.
       mbind end_op (\<lambda>_.
       retint 0)))))))))))))))))"

fun isdirempty_loop :: "nat \<Rightarrow> u32 list \<Rightarrow> bool K" where
  "isdirempty_loop dp [] = ret True"
| "isdirempty_loop dp (off # offs) =
     mbind (readi dp KernVar off 16) (\<lambda>r.
     if fst r \<noteq> 16 then panic ''isdirempty: readi''
     else if de_inum (decode_dirent (snd r)) \<noteq> 0 then ret False
     else isdirempty_loop dp offs)"

definition isdirempty :: "nat \<Rightarrow> bool K" where
  "isdirempty dp =
     mbind (get_inode dp) (\<lambda>x.
     isdirempty_loop dp (drop 2 (dir_offsets (i_size x))))"

definition unlink_bad :: "nat \<Rightarrow> u64 K" where
  "unlink_bad dp = mbind (iunlockput dp) (\<lambda>_. fail_op)"

definition dot :: "byte list" where "dot = bytes_of ''.''"
definition dotdot :: "byte list" where "dotdot = bytes_of ''..''"

text \<open>From the point where entry \<open>off\<close> of \<open>dp\<close> is to be removed; both inodes are locked.\<close>

definition unlink_entry :: "nat \<Rightarrow> nat \<Rightarrow> u32 \<Rightarrow> u64 K" where
  "unlink_entry dp ip off =
     mbind (writei dp (KernBytes (replicate 16 0)) off 16) (\<lambda>r.
     if r \<noteq> 16 then panic ''unlink: writei'' else
     mbind (get_inode ip) (\<lambda>x.
     mbind (if i_type x = T_DIR then
              mbind (upd_inode dp (\<lambda>d. d\<lparr>i_nlink := i_nlink d - 1\<rparr>)) (\<lambda>_.
              iupdate dp)
            else ret ()) (\<lambda>_.
     mbind (iunlockput dp) (\<lambda>_.
     mbind (upd_inode ip (\<lambda>x. x\<lparr>i_nlink := i_nlink x - 1\<rparr>)) (\<lambda>_.
     mbind (iupdate ip) (\<lambda>_.
     mbind (iunlockput ip) (\<lambda>_.
     mbind end_op (\<lambda>_.
     retint 0))))))))"

definition sys_unlink :: "u64 K" where
  "sys_unlink =
     mbind (argstr 0 MAXPATH) (\<lambda>path.
     if fst path < 0 then retint (-1) else
     mbind begin_op (\<lambda>_.
     mbind (nameiparent (cstr (snd path))) (\<lambda>par.
     case par of None \<Rightarrow> fail_op | Some (dp, name) \<Rightarrow>
     mbind (ilock dp) (\<lambda>_.
     if namecmp name dot = 0 \<or> namecmp name dotdot = 0 then unlink_bad dp else
     mbind (dirlookup dp name) (\<lambda>found.
     case found of None \<Rightarrow> unlink_bad dp | Some (ip, off) \<Rightarrow>
     mbind (ilock ip) (\<lambda>_.
     mbind (get_inode ip) (\<lambda>x.
     if sint (i_nlink x) < 1 then panic ''unlink: nlink < 1'' else
     mbind (if i_type x = T_DIR then isdirempty ip else ret True) (\<lambda>ok.
     if \<not> ok then
       mbind (iunlockput ip) (\<lambda>_.
       unlink_bad dp)
     else unlink_entry dp ip off))))))))"

section \<open>Creating\<close>

definition create_fail :: "nat \<Rightarrow> nat \<Rightarrow> nat option K" where
  "create_fail ip dp =
     mbind (upd_inode ip (\<lambda>x. x\<lparr>i_nlink := 0\<rparr>)) (\<lambda>_.
     mbind (iupdate ip) (\<lambda>_.
     mbind (iunlockput ip) (\<lambda>_.
     mbind (iunlockput dp) (\<lambda>_.
     ret None))))"

text \<open>The second half of \<open>create\<close>: a fresh inode \<open>ip\<close> is entered in \<open>dp\<close>.\<close>

definition create_new :: "nat \<Rightarrow> nat \<Rightarrow> byte list \<Rightarrow> u16 \<Rightarrow> u16 \<Rightarrow> u16 \<Rightarrow> nat option K" where
  "create_new dp ip name type major minor =
     mbind (ilock ip) (\<lambda>_.
     mbind (upd_inode ip (\<lambda>x. x\<lparr>i_major := major, i_minor := minor, i_nlink := 1\<rparr>)) (\<lambda>_.
     mbind (iupdate ip) (\<lambda>_.
     mbind (get_inode ip) (\<lambda>x.
     mbind (get_inode dp) (\<lambda>d.
     mbind (if type = T_DIR then
              mbind (dirlink ip dot (i_inum x)) (\<lambda>r.
              if r < 0 then ret r else dirlink ip dotdot (i_inum d))
            else ret 0) (\<lambda>r.
     if r < 0 then create_fail ip dp else
     mbind (dirlink dp name (i_inum x)) (\<lambda>r.
     if r < 0 then create_fail ip dp else
     mbind (if type = T_DIR then
              mbind (upd_inode dp (\<lambda>d. d\<lparr>i_nlink := i_nlink d + 1\<rparr>)) (\<lambda>_.
              iupdate dp)
            else ret ()) (\<lambda>_.
     mbind (iunlockput dp) (\<lambda>_.
     ret (Some ip))))))))))"

definition create :: "byte list \<Rightarrow> u16 \<Rightarrow> u16 \<Rightarrow> u16 \<Rightarrow> nat option K" where
  "create path type major minor =
     mbind (nameiparent path) (\<lambda>par.
     case par of None \<Rightarrow> ret None | Some (dp, name) \<Rightarrow>
     mbind (ilock dp) (\<lambda>_.
     mbind (dirlookup dp name) (\<lambda>found.
     case found of
       Some (ip, _) \<Rightarrow>
         mbind (iunlockput dp) (\<lambda>_.
         mbind (ilock ip) (\<lambda>_.
         mbind (get_inode ip) (\<lambda>x.
         if type = T_FILE \<and> (i_type x = T_FILE \<or> i_type x = T_DEVICE) then ret (Some ip) else
         mbind (iunlockput ip) (\<lambda>_.
         ret None))))
     | None \<Rightarrow>
         mbind (get_inode dp) (\<lambda>d.
         mbind (ialloc (i_dev d) type) (\<lambda>new.
         case new of
           None \<Rightarrow>
             mbind (iunlockput dp) (\<lambda>_.
             ret None)
         | Some ip \<Rightarrow> create_new dp ip name type major minor)))))"

definition omode_bit :: "int \<Rightarrow> u32 \<Rightarrow> bool" where
  "omode_bit omode b \<longleftrightarrow> (word_of_int omode :: u32) AND b \<noteq> 0"

definition O_WRONLY :: u32 where "O_WRONLY = 1"
definition O_RDWR :: u32 where "O_RDWR = 2"
definition O_CREATE :: u32 where "O_CREATE = 0x200"
definition O_TRUNC :: u32 where "O_TRUNC = 0x400"

text \<open>The inode \<open>sys_open\<close> works on, locked, or \<open>None\<close> when it gives up (before \<open>end_op\<close>).\<close>

definition open_inode :: "byte list \<Rightarrow> int \<Rightarrow> nat option K" where
  "open_inode path omode =
     (if omode_bit omode O_CREATE then create path T_FILE 0 0
      else
        mbind (namei path) (\<lambda>found.
        case found of None \<Rightarrow> ret None | Some ip \<Rightarrow>
        mbind (ilock ip) (\<lambda>_.
        mbind (get_inode ip) (\<lambda>x.
        if i_type x = T_DIR \<and> omode \<noteq> 0 then
          mbind (iunlockput ip) (\<lambda>_.
          ret None)
        else ret (Some ip)))))"

definition open_fill :: "nat \<Rightarrow> nat \<Rightarrow> inode \<Rightarrow> int \<Rightarrow> unit K" where
  "open_fill f ip x omode =
     mbind (if i_type x = T_DEVICE then upd_file f (\<lambda>y. y\<lparr>f_type := FD_DEVICE, f_major := i_major x\<rparr>)
            else upd_file f (\<lambda>y. y\<lparr>f_type := FD_INODE, f_off := 0\<rparr>)) (\<lambda>_.
     upd_file f (\<lambda>y. y\<lparr>f_ip := ip, f_readable := \<not> omode_bit omode O_WRONLY,
       f_writable := omode_bit omode O_WRONLY \<or> omode_bit omode O_RDWR\<rparr>))"

definition sys_open :: "u64 K" where
  "sys_open =
     mbind (argint 1) (\<lambda>omode.
     mbind (argstr 0 MAXPATH) (\<lambda>path.
     if fst path < 0 then retint (-1) else
     mbind begin_op (\<lambda>_.
     mbind (open_inode (cstr (snd path)) omode) (\<lambda>found.
     case found of None \<Rightarrow> fail_op | Some ip \<Rightarrow>
     mbind (get_inode ip) (\<lambda>x.
     if i_type x = T_DEVICE \<and> (sint (i_major x) < 0 \<or> sint (i_major x) \<ge> NDEV) then
       mbind (iunlockput ip) (\<lambda>_.
       fail_op)
     else
     mbind filealloc (\<lambda>fo.
     case fo of
       None \<Rightarrow>
         mbind (iunlockput ip) (\<lambda>_.
         fail_op)
     | Some f \<Rightarrow>
         mbind (fdalloc f) (\<lambda>fd.
         if fd < 0 then
           mbind (fileclose f) (\<lambda>_.
           mbind (iunlockput ip) (\<lambda>_.
           fail_op))
         else
           mbind (open_fill f ip x omode) (\<lambda>_.
           mbind (if omode_bit omode O_TRUNC \<and> i_type x = T_FILE then itrunc ip else ret ()) (\<lambda>_.
           mbind (iunlock ip) (\<lambda>_.
           mbind end_op (\<lambda>_.
           retint fd)))))))))))"

definition make_node :: "nat option \<Rightarrow> u64 K" where
  "make_node found =
     (case found of None \<Rightarrow> fail_op | Some ip \<Rightarrow>
      mbind (iunlockput ip) (\<lambda>_.
      mbind end_op (\<lambda>_.
      retint 0)))"

definition sys_mkdir :: "u64 K" where
  "sys_mkdir =
     mbind begin_op (\<lambda>_.
     mbind (argstr 0 MAXPATH) (\<lambda>path.
     if fst path < 0 then fail_op else
     mbind (create (cstr (snd path)) T_DIR 0 0) make_node))"

definition sys_mknod :: "u64 K" where
  "sys_mknod =
     mbind begin_op (\<lambda>_.
     mbind (argint 1) (\<lambda>major.
     mbind (argint 2) (\<lambda>minor.
     mbind (argstr 0 MAXPATH) (\<lambda>path.
     if fst path < 0 then fail_op else
     mbind (create (cstr (snd path)) T_DEVICE (word_of_int major) (word_of_int minor)) make_node))))"

definition sys_chdir :: "u64 K" where
  "sys_chdir =
     mbind me (\<lambda>p.
     mbind begin_op (\<lambda>_.
     mbind (argstr 0 MAXPATH) (\<lambda>path.
     if fst path < 0 then fail_op else
     mbind (namei (cstr (snd path))) (\<lambda>found.
     case found of None \<Rightarrow> fail_op | Some ip \<Rightarrow>
     mbind (ilock ip) (\<lambda>_.
     mbind (get_inode ip) (\<lambda>x.
     if i_type x \<noteq> T_DIR then
       mbind (iunlockput ip) (\<lambda>_.
       fail_op)
     else
     mbind (iunlock ip) (\<lambda>_.
     mbind (get_proc p) (\<lambda>q.
     mbind (case p_cwd q of None \<Rightarrow> undef ''iput of a null pointer'' | Some c \<Rightarrow> iput c) (\<lambda>_.
     mbind end_op (\<lambda>_.
     mbind (upd_proc p (\<lambda>q. q\<lparr>p_cwd := Some ip\<rparr>)) (\<lambda>_.
     retint 0)))))))))))"

section \<open>exec and pipe\<close>

text \<open>The loop of \<open>sys_exec\<close>, with \<open>k\<close> entries of \<open>argv\<close> unused: whether it reached the null
  pointer, and the pages in \<open>argv\<close>.\<close>

fun fetch_args :: "nat \<Rightarrow> u64 \<Rightarrow> u64 list \<Rightarrow> (bool \<times> u64 list) K" where
  "fetch_args 0 uargv argv = ret (False, argv)"
| "fetch_args (Suc k) uargv argv =
     mbind (fetchaddr (uargv + 8 * of_nat (length argv))) (\<lambda>a.
     if fst a < 0 then ret (False, argv)
     else if snd a = 0 then ret (True, argv)
     else
       mbind kalloc (\<lambda>pg.
       if pg = 0 then ret (False, argv) else
       mbind (fetchstr (snd a) 4096) (\<lambda>r.
       mbind (modify (\<lambda>s. s\<lparr>mem := write_bytes (mem s) pg (snd r)\<rparr>)) (\<lambda>_.
       if fst r < 0 then ret (False, argv @ [pg])
       else fetch_args k uargv (argv @ [pg])))))"

definition sys_exec :: "u64 K" where
  "sys_exec =
     mbind (argaddr 1) (\<lambda>uargv.
     mbind (argstr 0 MAXPATH) (\<lambda>path.
     if fst path < 0 then retint (-1) else
     mbind (fetch_args MAXARG uargv []) (\<lambda>args.
     if \<not> fst args then
       mbind (for_each (snd args) kfree) (\<lambda>_.
       retint (-1))
     else
       mbind (exec (cstr (snd path)) (snd args)) (\<lambda>r.
       mbind (for_each (snd args) kfree) (\<lambda>_.
       retint r)))))"

definition pipe_undo :: "nat \<Rightarrow> nat \<Rightarrow> u64 K" where
  "pipe_undo rfile wfile =
     mbind (fileclose rfile) (\<lambda>_.
     mbind (fileclose wfile) (\<lambda>_.
     retint (-1)))"

definition sys_pipe :: "u64 K" where
  "sys_pipe =
     mbind me (\<lambda>p.
     mbind (argaddr 0) (\<lambda>fdarray.
     mbind pipealloc (\<lambda>pr.
     case pr of None \<Rightarrow> retint (-1) | Some (rfile, wfile) \<Rightarrow>
     mbind (fdalloc rfile) (\<lambda>fd0.
     if fd0 < 0 then pipe_undo rfile wfile else
     mbind (fdalloc wfile) (\<lambda>fd1.
     if fd1 < 0 then
       mbind (set_fd p (nat fd0) None) (\<lambda>_.
       pipe_undo rfile wfile)
     else
     mbind (get_proc p) (\<lambda>q.
     mbind (copyout (p_pagetable q) fdarray (le32 (word_of_int fd0))) (\<lambda>r.
     mbind (if r < 0 then ret r else copyout (p_pagetable q) (fdarray + 4) (le32 (word_of_int fd1))) (\<lambda>r.
     if r < 0 then
       mbind (set_fd p (nat fd0) None) (\<lambda>_.
       mbind (set_fd p (nat fd1) None) (\<lambda>_.
       pipe_undo rfile wfile))
     else retint 0))))))))"

section \<open>lseek and chmod\<close>

definition sys_lseek :: "u64 K" where
  "sys_lseek =
     mbind (argint 1) (\<lambda>offset.
     mbind (argint 2) (\<lambda>whence.
     mbind (argfd 0) (\<lambda>a.
     case a of None \<Rightarrow> retint (-1) | Some (_, f) \<Rightarrow>
     mbind (get_file f) (\<lambda>x.
     if f_type x \<noteq> FD_INODE \<or> \<not> f_writable x \<or> \<not> f_readable x then retint (-1) else
     mbind (get_inode (f_ip x)) (\<lambda>i.
     if whence = 0 \<or> whence = 1 \<or> whence = 2 then
       let off = (if whence = 0 then word_of_int offset
                  else if whence = 1 then f_off x + word_of_int offset
                  else i_size i + word_of_int offset) in
       mbind (upd_file f (\<lambda>y. y\<lparr>f_off := off\<rparr>)) (\<lambda>_.
       ret (ucast off))
     else retint (-1))))))"

definition chmod_type :: "u16 \<Rightarrow> int \<Rightarrow> u16" where
  "chmod_type ty mode = (ty AND NOT 0x1FF) OR (word_of_int mode AND 0x1FF)"

text \<open>The string in the path buffer after \<open>argstr\<close>, which need not have filled it.\<close>

definition path_buffer :: "byte list \<Rightarrow> byte list \<Rightarrow> byte list" where
  "path_buffer stored junk = put_bytes 0 stored junk"

definition sys_chmod :: "byte list \<Rightarrow> u64 K" where
  "sys_chmod junk =
     mbind (argstr 0 MAXPATH) (\<lambda>path.
     if fst path = 0 then retint (-1) else
     let buf = path_buffer (snd path) junk in
     mbind (argint 1) (\<lambda>mode.
     mbind begin_op (\<lambda>_.
     if 0 \<notin> set buf then undef ''path without terminator'' else
     mbind (namei (cstr buf)) (\<lambda>found.
     case found of None \<Rightarrow> fail_op | Some ip \<Rightarrow>
     mbind (ilock ip) (\<lambda>_.
     mbind (upd_inode ip (\<lambda>x. x\<lparr>i_type := chmod_type (i_type x) mode\<rparr>)) (\<lambda>_.
     mbind (iupdate ip) (\<lambda>_.
     mbind (iunlock ip) (\<lambda>_.
     mbind end_op (\<lambda>_.
     retint 0)))))))))"

end
