(* ===== verification/Sysproc.thy ===== *)
theory Sysproc
  imports Sysarg
begin

text \<open>
  Process system calls (\<open>sysproc.c\<close>), among them the added \<open>getprocs\<close> and \<open>exit_qemu\<close>. The loop of
  \<open>sys_sleep\<close> tests its condition again when the process is woken, so one pass is modelled.
\<close>

definition sys_exit :: "u64 K" where
  "sys_exit =
     mbind (argint 0) (\<lambda>n.
     mbind (exit n) (\<lambda>_.
     retint 0))"

definition sys_getpid :: "u64 K" where
  "sys_getpid = mbind me (\<lambda>p. mbind (get_proc p) (\<lambda>q. retint (p_pid q)))"

definition sys_fork :: "u64 K" where
  "sys_fork = mbind fork retint"

definition sys_wait :: "u64 K" where
  "sys_wait = mbind (argaddr 0) (\<lambda>p. mbind (wait p) retint)"

definition sys_sbrk :: "u64 K" where
  "sys_sbrk =
     mbind (argint 0) (\<lambda>n.
     mbind me (\<lambda>p.
     mbind (get_proc p) (\<lambda>q.
     mbind (growproc n) (\<lambda>r.
     if r < 0 then retint (-1) else ret (p_sz q)))))"

text \<open>The test \<open>ticks - ticks0 < n\<close>, in unsigned arithmetic.\<close>

definition sleeping_yet :: "u32 \<Rightarrow> u32 \<Rightarrow> int \<Rightarrow> bool" where
  "sleeping_yet now ticks0 n \<longleftrightarrow> now - ticks0 < word_of_int n"

definition sleep_pass :: "u32 \<Rightarrow> int \<Rightarrow> u64 K" where
  "sleep_pass ticks0 n =
     mbind (gets ticks) (\<lambda>now.
     if sleeping_yet now ticks0 n then
       mbind me (\<lambda>p.
       mbind (killed p) (\<lambda>k.
       if k then
         mbind (release L_ticks) (\<lambda>_.
         retint (-1))
       else
         mbind (sleep C_ticks L_ticks) (\<lambda>_.
         retint 0)))
     else
       mbind (release L_ticks) (\<lambda>_.
       retint 0))"

definition sys_sleep :: "u64 K" where
  "sys_sleep =
     mbind (argint 0) (\<lambda>n.
     mbind (acquire L_ticks) (\<lambda>_.
     mbind (gets ticks) (\<lambda>ticks0.
     sleep_pass ticks0 (max n 0))))"

definition sys_kill :: "u64 K" where
  "sys_kill = mbind (argint 0) (\<lambda>pid. mbind (kill pid) retint)"

definition sys_uptime :: "u64 K" where
  "sys_uptime =
     mbind (acquire L_ticks) (\<lambda>_.
     mbind (gets ticks) (\<lambda>xticks.
     mbind (release L_ticks) (\<lambda>_.
     ret (ucast xticks))))"

text \<open>
  The store of \<open>sys_exit_qemu\<close> goes through the kernel page table, as every access does once paging
  is on. Without a valid and writable entry it raises a store page fault, for which \<open>kerneltrap\<close>
  panics.
\<close>

definition kernel_store :: "u64 \<Rightarrow> unit K \<Rightarrow> unit K" where
  "kernel_store va effect =
     mbind (gets kpgtbl) (\<lambda>pt.
     mbind (walk pt va False) (\<lambda>pte.
     mbind (getmem pte) (\<lambda>e.
     if pte = 0 \<or> e AND PTE_V = 0 \<or> e AND PTE_W = 0 then panic ''kerneltrap'' else effect)))"

definition sys_exit_qemu :: "u64 K" where
  "sys_exit_qemu =
     mbind (kernel_store 0x100000 (modify (\<lambda>s. s\<lparr>testdev := 0x5555\<rparr>))) (\<lambda>_.
     retint 0)"

text \<open>\<open>junk\<close> holds the uninitialised byte \<open>test\<close> and, after it, the array \<open>local_stats\<close> of
  \<open>getprocs\<close>.\<close>

definition sys_getprocs :: "byte list \<Rightarrow> u64 K" where
  "sys_getprocs junk =
     mbind (argaddr 0) (\<lambda>addr.
     mbind (argint 1) (\<lambda>mx.
     if mx \<le> 0 \<or> mx > int NPROC then retint (-1) else
     mbind my_pagetable (\<lambda>pt.
     mbind (copyout pt addr (take 1 junk)) (\<lambda>r.
     if r < 0 then retint (-1) else
     mbind (getprocs (drop 1 junk) addr mx) retint))))"

end
