(* ===== verification/Syscall.thy ===== *)
theory Syscall
  imports Sysfile Sysproc
begin

text \<open>
  The system call dispatcher (\<open>syscall.c\<close>) with the table indexed by the numbers of \<open>syscall.h\<close>.
  \<open>junk\<close> stands for the bytes that the handlers' uninitialised local variables hold.
\<close>

definition syscalls :: "byte list \<Rightarrow> int \<Rightarrow> u64 K option" where
  "syscalls junk num =
     (if num = 1 then Some sys_fork
      else if num = 2 then Some sys_exit
      else if num = 3 then Some sys_wait
      else if num = 4 then Some sys_pipe
      else if num = 5 then Some sys_read
      else if num = 6 then Some sys_kill
      else if num = 7 then Some sys_exec
      else if num = 8 then Some (sys_fstat (take 32 junk))
      else if num = 9 then Some sys_chdir
      else if num = 10 then Some sys_dup
      else if num = 11 then Some sys_getpid
      else if num = 12 then Some sys_sbrk
      else if num = 13 then Some sys_sleep
      else if num = 14 then Some sys_uptime
      else if num = 15 then Some sys_open
      else if num = 16 then Some sys_write
      else if num = 17 then Some sys_mknod
      else if num = 18 then Some sys_unlink
      else if num = 19 then Some sys_link
      else if num = 20 then Some sys_mkdir
      else if num = 21 then Some sys_close
      else if num = 22 then Some sys_lseek
      else if num = 23 then Some (sys_getprocs (take 2049 junk))
      else if num = 24 then Some sys_exit_qemu
      else if num = 25 then Some (sys_chmod (take MAXPATH junk))
      else None)"

definition syscall :: "byte list \<Rightarrow> unit K" where
  "syscall junk =
     mbind me (\<lambda>p.
     mbind my_tframe (\<lambda>t.
     let num = sint (ucast (tf_a7 t) :: u32) in
     case syscalls junk num of
       Some f \<Rightarrow>
         mbind f (\<lambda>r.
         mbind (get_proc p) (\<lambda>q.
         upd_tf (p_trapframe q) (\<lambda>t. t\<lparr>tf_a0 := r\<rparr>)))
     | None \<Rightarrow>
         mbind (get_proc p) (\<lambda>q.
         mbind (printf (bytes_of ''%d %s: unknown sys call %d\<newline>'')
                  [VInt (word_of_int (p_pid q)), VStr (Some (p_name q)), VInt (word_of_int num)]) (\<lambda>_.
         upd_tf (p_trapframe q) (\<lambda>t. t\<lparr>tf_a0 := -1\<rparr>)))))"

end
