(* ===== verification/Trap.thy ===== *)
theory Trap
  imports Syscall
begin

text \<open>
  Traps and interrupts (\<open>trap.c\<close>, the interrupt controller interface of \<open>plic.c\<close>, and \<open>forkret\<close> of
  \<open>proc.c\<close>). Control registers are fields of the state. The disk model completes every request
  within the call that makes it, so its interrupt has no effect here; \<open>Virtio.thy\<close> models the driver.
\<close>

section \<open>Control registers\<close>

definition SSTATUS_SPP :: u64 where "SSTATUS_SPP = push_bit 8 1"
definition SSTATUS_SPIE :: u64 where "SSTATUS_SPIE = push_bit 5 1"
definition SSTATUS_SIE :: u64 where "SSTATUS_SIE = push_bit 1 1"

definition upd_csr :: "(csrs \<Rightarrow> csrs) \<Rightarrow> unit K" where
  "upd_csr f = modify (\<lambda>s. s\<lparr>csr := f (csr s)\<rparr>)"

definition intr_on :: "unit K" where
  "intr_on = upd_csr (\<lambda>c. c\<lparr>r_sstatus := r_sstatus c OR SSTATUS_SIE\<rparr>)"

definition intr_off :: "unit K" where
  "intr_off = upd_csr (\<lambda>c. c\<lparr>r_sstatus := r_sstatus c AND NOT SSTATUS_SIE\<rparr>)"

definition intr_get :: "bool K" where
  "intr_get = gets (\<lambda>s. r_sstatus (csr s) AND SSTATUS_SIE \<noteq> 0)"

definition MAKE_SATP :: "u64 \<Rightarrow> u64" where
  "MAKE_SATP pt = push_bit 60 8 OR drop_bit 12 pt"

definition cpuid :: "int K" where
  "cpuid = gets (\<lambda>s. sint (ucast (r_tp (csr s)) :: u32))"

section \<open>The interrupt controller\<close>

definition plic_claim :: "int K" where
  "plic_claim =
     mbind (gets (\<lambda>s. plic_pending (plic s))) (\<lambda>pend.
     case pend of
       [] \<Rightarrow> ret 0
     | irq # rest \<Rightarrow>
         mbind (modify (\<lambda>s. s\<lparr>plic := \<lparr>plic_pending = rest, plic_claimed = insert irq (plic_claimed (plic s))\<rparr>\<rparr>)) (\<lambda>_.
         ret (uint irq)))"

definition plic_complete :: "int \<Rightarrow> unit K" where
  "plic_complete irq =
     modify (\<lambda>s. s\<lparr>plic := (plic s)\<lparr>plic_claimed := plic_claimed (plic s) - {word_of_int irq}\<rparr>\<rparr>)"

section \<open>Interrupts\<close>

definition UART0_IRQ :: int where "UART0_IRQ = 10"
definition VIRTIO0_IRQ :: int where "VIRTIO0_IRQ = 1"

definition trapinithart :: "unit K" where
  "trapinithart = mbind (gets (\<lambda>s. sym_kernelvec (ksym s))) (\<lambda>v. upd_csr (\<lambda>c. c\<lparr>r_stvec := v\<rparr>))"

definition clockintr :: "unit K" where
  "clockintr =
     mbind cpuid (\<lambda>id.
     mbind (if id = 0 then
              mbind (acquire L_ticks) (\<lambda>_.
              mbind (modify (\<lambda>s. s\<lparr>ticks := ticks s + 1\<rparr>)) (\<lambda>_.
              mbind (wakeup C_ticks) (\<lambda>_.
              release L_ticks)))
            else ret ()) (\<lambda>_.
     upd_csr (\<lambda>c. c\<lparr>r_stimecmp := r_time c + 1000000\<rparr>)))"

definition devintr :: "int K" where
  "devintr =
     mbind (gets (\<lambda>s. r_scause (csr s))) (\<lambda>scause.
     if scause = 0x8000000000000009 then
       mbind plic_claim (\<lambda>irq.
       mbind (if irq = UART0_IRQ then uartintr
              else if irq = VIRTIO0_IRQ then ret ()
              else if irq \<noteq> 0 then
                mbind (printf (bytes_of ''unexpected interrupt irq=%d\<newline>'') [VInt (word_of_int irq)]) (\<lambda>_.
                ret ())
              else ret ()) (\<lambda>_.
       mbind (if irq \<noteq> 0 then plic_complete irq else ret ()) (\<lambda>_.
       ret 1)))
     else if scause = 0x8000000000000005 then
       mbind clockintr (\<lambda>_.
       ret 2)
     else ret 0)"

section \<open>Traps\<close>

text \<open>\<open>usertrapret\<close> ends by jumping to \<open>userret\<close>; the result is the \<open>satp\<close> value it passes.\<close>

definition usertrapret :: "u64 K" where
  "usertrapret =
     mbind me (\<lambda>p.
     mbind intr_off (\<lambda>_.
     mbind (gets ksym) (\<lambda>k.
     mbind (gets ktramp) (\<lambda>tramp.
     mbind (upd_csr (\<lambda>c. c\<lparr>r_stvec := TRAMPOLINE + (sym_uservec k - tramp)\<rparr>)) (\<lambda>_.
     mbind (get_proc p) (\<lambda>q.
     mbind (gets csr) (\<lambda>c.
     mbind (upd_tf (p_trapframe q) (\<lambda>t. t\<lparr>kernel_satp := r_satp c, kernel_sp := p_kstack q + PGSIZE,
       kernel_trap := sym_usertrap k, kernel_hartid := r_tp c\<rparr>)) (\<lambda>_.
     mbind (upd_csr (\<lambda>c. c\<lparr>r_sstatus := (r_sstatus c AND NOT SSTATUS_SPP) OR SSTATUS_SPIE\<rparr>)) (\<lambda>_.
     mbind (gets (\<lambda>s. tf_epc (tframes s (p_trapframe q)))) (\<lambda>epc.
     mbind (upd_csr (\<lambda>c. c\<lparr>r_sepc := epc\<rparr>)) (\<lambda>_.
     ret (MAKE_SATP (p_pagetable q)))))))))))))"

definition forkret :: "u64 K" where
  "forkret =
     mbind me (\<lambda>p.
     mbind (release (L_proc p)) (\<lambda>_.
     mbind (gets forkret_first) (\<lambda>first.
     mbind (if first then
              mbind (fsinit ROOTDEV) (\<lambda>_.
              modify (\<lambda>s. s\<lparr>forkret_first := False\<rparr>))
            else ret ()) (\<lambda>_.
     usertrapret))))"

definition exit_if_killed :: "nat \<Rightarrow> unit K" where
  "exit_if_killed p = mbind (killed p) (\<lambda>k. if k then exit (-1) else ret ())"

text \<open>The three ways \<open>usertrap\<close> deals with the cause of the trap; the result is \<open>which_dev\<close>.\<close>

definition usertrap_cause :: "byte list \<Rightarrow> nat \<Rightarrow> int K" where
  "usertrap_cause junk p =
     mbind (gets csr) (\<lambda>c.
     mbind (get_proc p) (\<lambda>q.
     if r_scause c = 8 then
       mbind (exit_if_killed p) (\<lambda>_.
       mbind (upd_tf (p_trapframe q) (\<lambda>t. t\<lparr>tf_epc := tf_epc t + 4\<rparr>)) (\<lambda>_.
       mbind intr_on (\<lambda>_.
       mbind (syscall junk) (\<lambda>_.
       ret 0))))
     else
       mbind devintr (\<lambda>which_dev.
       if which_dev \<noteq> 0 then ret which_dev else
       mbind (printf (bytes_of ''usertrap(): unexpected scause 0x%lx pid=%d\<newline>'')
                [VLong (r_scause c), VInt (word_of_int (p_pid q))]) (\<lambda>_.
       mbind (printf (bytes_of ''            sepc=0x%lx stval=0x%lx\<newline>'') [VLong (r_sepc c), VLong (r_stval c)]) (\<lambda>_.
       mbind (setkilled p) (\<lambda>_.
       ret 0))))))"

definition usertrap :: "byte list \<Rightarrow> u64 K" where
  "usertrap junk =
     mbind (gets csr) (\<lambda>c.
     if r_sstatus c AND SSTATUS_SPP \<noteq> 0 then panic ''usertrap: not from user mode'' else
     mbind trapinithart (\<lambda>_.
     mbind me (\<lambda>p.
     mbind (get_proc p) (\<lambda>q.
     mbind (upd_tf (p_trapframe q) (\<lambda>t. t\<lparr>tf_epc := r_sepc c\<rparr>)) (\<lambda>_.
     mbind (usertrap_cause junk p) (\<lambda>which_dev.
     mbind (exit_if_killed p) (\<lambda>_.
     mbind (if which_dev = 2 then yield else ret ()) (\<lambda>_.
     usertrapret))))))))"

definition kerneltrap :: "unit K" where
  "kerneltrap =
     mbind (gets csr) (\<lambda>c.
     if r_sstatus c AND SSTATUS_SPP = 0 then panic ''kerneltrap: not from supervisor mode'' else
     mbind intr_get (\<lambda>i.
     if i then panic ''kerneltrap: interrupts enabled'' else
     mbind devintr (\<lambda>which_dev.
     if which_dev = 0 then
       mbind (printf (bytes_of ''scause=0x%lx sepc=0x%lx stval=0x%lx\<newline>'')
                [VLong (r_scause c), VLong (r_sepc c), VLong (r_stval c)]) (\<lambda>_.
       panic ''kerneltrap'')
     else
     mbind myproc (\<lambda>m.
     mbind (if which_dev = 2 \<and> m \<noteq> None then yield else ret ()) (\<lambda>_.
     upd_csr (\<lambda>c'. c'\<lparr>r_sepc := r_sepc c, r_sstatus := r_sstatus c\<rparr>))))))"

end
