(* ===== verification/Spinlock.thy ===== *)
theory Spinlock
  imports Sched
begin

text \<open>
  Spin locks (\<open>spinlock.c\<close>) on several harts. Every hart runs the atomic steps of \<open>acquire\<close> and
  \<open>release\<close> (the test-and-set, the store of \<open>lk->cpu\<close>, the store of 0) and the steps of different
  harts interleave freely. The invariant of that transition system gives mutual exclusion, and a
  simulation shows that what one hart observes is \<^const>\<open>Kstate.acquire\<close> and \<^const>\<open>Kstate.release\<close>.
\<close>

section \<open>State\<close>

record spinlock =
  lk_locked :: bool
  lk_cpu :: "nat option"

record cpu =
  noff :: int
  intena :: bool
  intr :: bool

text \<open>Where a hart is: outside the lock code, spinning, past the test-and-set but before the store
  of \<open>lk->cpu\<close>, past the store of 0 to \<open>lk->cpu\<close> but before the lock is given back, or stopped by a
  panic.\<close>

datatype where_at = Outside | Spinning lockid | Taken lockid | Leaving lockid | Stopped string

record smp =
  cpus :: "nat \<Rightarrow> cpu"
  locks :: "lockid \<Rightarrow> spinlock"
  at :: "nat \<Rightarrow> where_at"

definition initlock :: "lockid \<Rightarrow> smp \<Rightarrow> smp" where
  "initlock lk s = s\<lparr>locks := (locks s)(lk := \<lparr>lk_locked = False, lk_cpu = None\<rparr>)\<rparr>"

definition upd_cpu :: "nat \<Rightarrow> (cpu \<Rightarrow> cpu) \<Rightarrow> smp \<Rightarrow> smp" where
  "upd_cpu h f s = s\<lparr>cpus := (cpus s)(h := f (cpus s h))\<rparr>"

definition upd_lock :: "lockid \<Rightarrow> (spinlock \<Rightarrow> spinlock) \<Rightarrow> smp \<Rightarrow> smp" where
  "upd_lock lk f s = s\<lparr>locks := (locks s)(lk := f (locks s lk))\<rparr>"

definition goto :: "nat \<Rightarrow> where_at \<Rightarrow> smp \<Rightarrow> smp" where
  "goto h w s = s\<lparr>at := (at s)(h := w)\<rparr>"

section \<open>The code\<close>

definition spin_holding :: "nat \<Rightarrow> lockid \<Rightarrow> smp \<Rightarrow> bool" where
  "spin_holding h lk s \<longleftrightarrow> lk_locked (locks s lk) \<and> lk_cpu (locks s lk) = Some h"

definition push_off :: "nat \<Rightarrow> smp \<Rightarrow> smp" where
  "push_off h s =
     (let old = intr (cpus s h) in
      upd_cpu h (\<lambda>c. let c = c\<lparr>intr := False\<rparr>; c = (if noff c = 0 then c\<lparr>intena := old\<rparr> else c)
                     in c\<lparr>noff := noff c + 1\<rparr>) s)"

definition pop_off :: "nat \<Rightarrow> smp \<Rightarrow> (smp, unit) outcome" where
  "pop_off h s =
     (let c = cpus s h in
      if intr c then Panic ''pop_off - interruptible''
      else if noff c < 1 then Panic ''pop_off''
      else Ok () (upd_cpu h (\<lambda>c. let c = c\<lparr>noff := noff c - 1\<rparr>
                                  in if noff c = 0 \<and> intena c then c\<lparr>intr := True\<rparr> else c) s))"

text \<open>\<open>acquire\<close> up to its loop, one pass of the loop, and what follows it.\<close>

definition acquire_enter :: "nat \<Rightarrow> lockid \<Rightarrow> smp \<Rightarrow> smp" where
  "acquire_enter h lk s =
     (let s = push_off h s in
      if spin_holding h lk s then goto h (Stopped ''acquire'') s else goto h (Spinning lk) s)"

definition acquire_spin :: "nat \<Rightarrow> lockid \<Rightarrow> smp \<Rightarrow> smp" where
  "acquire_spin h lk s =
     (if lk_locked (locks s lk) then s
      else goto h (Taken lk) (upd_lock lk (\<lambda>l. l\<lparr>lk_locked := True\<rparr>) s))"

definition acquire_leave :: "nat \<Rightarrow> lockid \<Rightarrow> smp \<Rightarrow> smp" where
  "acquire_leave h lk s = goto h Outside (upd_lock lk (\<lambda>l. l\<lparr>lk_cpu := Some h\<rparr>) s)"

text \<open>\<open>release\<close> up to the store of \<open>lk->cpu\<close>, and what follows it.\<close>

definition release_enter :: "nat \<Rightarrow> lockid \<Rightarrow> smp \<Rightarrow> smp" where
  "release_enter h lk s =
     (if \<not> spin_holding h lk s then goto h (Stopped ''release'') s
      else goto h (Leaving lk) (upd_lock lk (\<lambda>l. l\<lparr>lk_cpu := None\<rparr>) s))"

definition release_leave :: "nat \<Rightarrow> lockid \<Rightarrow> smp \<Rightarrow> smp" where
  "release_leave h lk s =
     (let s = upd_lock lk (\<lambda>l. l\<lparr>lk_locked := False\<rparr>) s in
      case pop_off h s of Ok _ s' \<Rightarrow> goto h Outside s' | Panic e \<Rightarrow> goto h (Stopped e) s | _ \<Rightarrow> s)"

section \<open>Interleaved execution\<close>

inductive step :: "smp \<Rightarrow> smp \<Rightarrow> bool" where
  enter: "at s h = Outside \<Longrightarrow> step s (acquire_enter h lk s)"
| spin: "at s h = Spinning lk \<Longrightarrow> step s (acquire_spin h lk s)"
| take: "at s h = Taken lk \<Longrightarrow> step s (acquire_leave h lk s)"
| leave: "at s h = Outside \<Longrightarrow> step s (release_enter h lk s)"
| give: "at s h = Leaving lk \<Longrightarrow> step s (release_leave h lk s)"
| intr: "at s h = Outside \<Longrightarrow> noff (cpus s h) = 0 \<Longrightarrow> step s (upd_cpu h (\<lambda>c. c\<lparr>intr := b\<rparr>) s)"

definition boot :: smp where
  "boot = \<lparr>cpus = (\<lambda>_. \<lparr>noff = 0, intena = False, intr = False\<rparr>),
           locks = (\<lambda>_. \<lparr>lk_locked = False, lk_cpu = None\<rparr>), at = (\<lambda>_. Outside)\<rparr>"

inductive reachable :: "smp \<Rightarrow> bool" where
  start: "reachable boot"
| more: "reachable s \<Longrightarrow> step s t \<Longrightarrow> reachable t"

section \<open>The invariant\<close>

text \<open>A hart owns a lock from its test-and-set on until it stores 0 again.\<close>

definition owns :: "smp \<Rightarrow> nat \<Rightarrow> lockid \<Rightarrow> bool" where
  "owns s h lk \<longleftrightarrow> at s h = Taken lk \<or> at s h = Leaving lk \<or> spin_holding h lk s"

definition stopped :: "smp \<Rightarrow> nat \<Rightarrow> bool" where
  "stopped s h \<longleftrightarrow> (\<exists>e. at s h = Stopped e)"

definition waits :: "smp \<Rightarrow> nat \<Rightarrow> bool" where
  "waits s h \<longleftrightarrow> (\<exists>lk. at s h = Spinning lk)"

definition lock_inv :: "smp \<Rightarrow> lockid \<Rightarrow> bool" where
  "lock_inv s lk \<longleftrightarrow>
     (\<forall>h h'. owns s h lk \<longrightarrow> owns s h' lk \<longrightarrow> h = h') \<and>
     (\<forall>h. owns s h lk \<longrightarrow> lk_locked (locks s lk)) \<and>
     (\<forall>h. at s h = Taken lk \<or> at s h = Leaving lk \<longrightarrow> lk_cpu (locks s lk) = None) \<and>
     (\<not> lk_locked (locks s lk) \<longrightarrow> lk_cpu (locks s lk) = None)"

text \<open>\<open>noff\<close> counts the locks a hart owns, plus one while it waits for another, and interrupts are
  off whenever it is positive.\<close>

definition depth_inv :: "smp \<Rightarrow> nat \<Rightarrow> bool" where
  "depth_inv s h \<longleftrightarrow> finite {lk. owns s h lk} \<and>
     (\<not> stopped s h \<longrightarrow> noff (cpus s h) = int (card {lk. owns s h lk}) + (if waits s h then 1 else 0)) \<and>
     (0 < noff (cpus s h) \<longrightarrow> \<not> intr (cpus s h)) \<and> 0 \<le> noff (cpus s h)"

lemmas spin_defs = upd_cpu_def upd_lock_def goto_def Let_def

text \<open>What each step does to the places of the harts and to the locks.\<close>

lemma push_off_frame [simp]: "locks (push_off h s) = locks s" "at (push_off h s) = at s"
  by (simp_all add: push_off_def spin_defs)

lemma enter_frame [simp]:
  "locks (acquire_enter h lk s) = locks s"
  "at (acquire_enter h lk s) = (at s)(h := (if spin_holding h lk s then Stopped ''acquire'' else Spinning lk))"
  by (simp_all add: acquire_enter_def spin_holding_def spin_defs)

lemma spin_frame:
  assumes "\<not> lk_locked (locks s lk)"
  shows "locks (acquire_spin h lk s) = (locks s)(lk := (locks s lk)\<lparr>lk_locked := True\<rparr>)"
    and "at (acquire_spin h lk s) = (at s)(h := Taken lk)"
    and "cpus (acquire_spin h lk s) = cpus s"
  using assms by (simp_all add: acquire_spin_def spin_defs)

lemma leave_frame [simp]:
  "locks (acquire_leave h lk s) = (locks s)(lk := (locks s lk)\<lparr>lk_cpu := Some h\<rparr>)"
  "at (acquire_leave h lk s) = (at s)(h := Outside)"
  "cpus (acquire_leave h lk s) = cpus s"
  by (simp_all add: acquire_leave_def spin_defs)

lemma release_enter_frame:
  "spin_holding h lk s \<Longrightarrow> locks (release_enter h lk s) = (locks s)(lk := (locks s lk)\<lparr>lk_cpu := None\<rparr>)"
  "spin_holding h lk s \<Longrightarrow> at (release_enter h lk s) = (at s)(h := Leaving lk)"
  "\<not> spin_holding h lk s \<Longrightarrow> release_enter h lk s = goto h (Stopped ''release'') s"
  "cpus (release_enter h lk s) = cpus s"
  by (simp_all add: release_enter_def spin_defs)

lemma release_leave_frame:
  "locks (release_leave h lk s) = (locks s)(lk := (locks s lk)\<lparr>lk_locked := False\<rparr>)"
  "\<exists>w. at (release_leave h lk s) = (at s)(h := w) \<and> (w = Outside \<or> (\<exists>e. w = Stopped e))"
  by (auto simp: release_leave_def pop_off_def spin_defs)

section \<open>Mutual exclusion\<close>

lemma lock_inv_cong:
  assumes "lock_inv s lk" and "locks t lk = locks s lk"
    and "\<And>h. at t h = Taken lk \<or> at t h = Leaving lk \<longleftrightarrow> at s h = Taken lk \<or> at s h = Leaving lk"
  shows "lock_inv t lk"
proof -
  have "owns t h lk = owns s h lk" for h
    using assms(2,3) unfolding owns_def spin_holding_def by metis
  then show ?thesis using assms unfolding lock_inv_def by metis
qed

lemma lock_inv_spin:
  assumes "lock_inv s lk" and "at s h = Spinning lk" and "\<not> lk_locked (locks s lk)"
  shows "lock_inv (acquire_spin h lk s) lk"
proof -
  have none: "\<not> owns s h' lk" "lk_cpu (locks s lk) = None" for h'
    using assms(1,3) unfolding lock_inv_def by blast+
  have "owns (acquire_spin h lk s) h' lk \<longleftrightarrow> h' = h" for h'
    using none(1)[of h'] none(2) assms by (simp add: owns_def spin_holding_def spin_frame)
  then show ?thesis using none assms(3) by (simp add: lock_inv_def spin_frame)
qed

lemma lock_inv_leave:
  assumes "lock_inv s lk" and "at s h = Taken lk"
  shows "lock_inv (acquire_leave h lk s) lk"
proof -
  have h: "owns s h lk" using assms(2) by (simp add: owns_def)
  have only: "owns s h' lk \<longleftrightarrow> h' = h" for h' using assms(1) h unfolding lock_inv_def by blast
  have locked: "lk_locked (locks s lk)" using assms(1) h unfolding lock_inv_def by blast
  have other: "at s h' \<noteq> Taken lk \<and> at s h' \<noteq> Leaving lk" if "h' \<noteq> h" for h'
    using only[of h'] that unfolding owns_def by blast
  have "owns (acquire_leave h lk s) h' lk \<longleftrightarrow> h' = h" for h'
    using other[of h'] locked by (auto simp: owns_def spin_holding_def)
  then show ?thesis using other locked by (simp add: lock_inv_def)
qed

lemma lock_inv_release:
  assumes "lock_inv s lk" and "spin_holding h lk s"
  shows "lock_inv (release_enter h lk s) lk"
proof -
  have h: "owns s h lk" using assms(2) by (simp add: owns_def)
  have only: "owns s h' lk \<longleftrightarrow> h' = h" for h' using assms(1) h unfolding lock_inv_def by blast
  have locked: "lk_locked (locks s lk)" using assms(2) by (simp add: spin_holding_def)
  have other: "at s h' \<noteq> Taken lk \<and> at s h' \<noteq> Leaving lk" if "h' \<noteq> h" for h'
    using only[of h'] that unfolding owns_def by blast
  have "owns (release_enter h lk s) h' lk \<longleftrightarrow> h' = h" for h'
    using other[of h'] assms(2) by (auto simp: owns_def spin_holding_def release_enter_frame)
  then show ?thesis using locked assms(2) by (simp add: lock_inv_def release_enter_frame)
qed

lemma lock_inv_give:
  assumes "lock_inv s lk" and "at s h = Leaving lk"
  shows "lock_inv (release_leave h lk s) lk"
proof -
  have h: "owns s h lk" using assms(2) by (simp add: owns_def)
  have only: "owns s h' lk \<longleftrightarrow> h' = h" for h' using assms(1) h unfolding lock_inv_def by blast
  have none: "lk_cpu (locks s lk) = None" using assms unfolding lock_inv_def by blast
  have other: "at s h' \<noteq> Taken lk \<and> at s h' \<noteq> Leaving lk" if "h' \<noteq> h" for h'
    using only[of h'] that unfolding owns_def by blast
  obtain w where w: "at (release_leave h lk s) = (at s)(h := w)" "w = Outside \<or> (\<exists>e. w = Stopped e)"
    using release_leave_frame(2) by blast
  have "\<not> owns (release_leave h lk s) h' lk" for h'
    using other[of h'] w by (auto simp: owns_def spin_holding_def release_leave_frame(1))
  then show ?thesis using none other w by (auto simp: lock_inv_def release_leave_frame(1))
qed

lemma lock_inv_step:
  assumes "step s t" and inv: "lock_inv s lk"
  shows "lock_inv t lk"
  using assms(1)
proof (cases rule: step.cases)
  case (enter h lk')
  then show ?thesis by (intro lock_inv_cong[OF inv]) auto
next
  case (spin h lk')
  show ?thesis
  proof (cases "lk_locked (locks s lk')")
    case True
    then show ?thesis using spin inv by (simp add: acquire_spin_def)
  next
    case False
    then show ?thesis using spin inv lock_inv_spin
      by (cases "lk = lk'") (auto intro!: lock_inv_cong[OF inv] simp: spin_frame split: if_splits)
  qed
next
  case (take h lk')
  then show ?thesis using inv lock_inv_leave
    by (cases "lk = lk'") (auto intro!: lock_inv_cong[OF inv] split: if_splits)
next
  case (leave h lk')
  show ?thesis
  proof (cases "spin_holding h lk' s")
    case True
    then show ?thesis using leave inv lock_inv_release
      by (cases "lk = lk'") (auto intro!: lock_inv_cong[OF inv] simp: release_enter_frame split: if_splits)
  next
    case False
    then show ?thesis using leave
      by (intro lock_inv_cong[OF inv]) (auto simp: release_enter_frame goto_def)
  qed
next
  case (give h lk')
  show ?thesis
  proof (cases "lk = lk'")
    case True
    then show ?thesis using give inv lock_inv_give by simp
  next
    case False
    obtain w where "at t = (at s)(h := w)" "w = Outside \<or> (\<exists>e. w = Stopped e)"
      using give release_leave_frame(2) by blast
    then show ?thesis using give False
      by (intro lock_inv_cong[OF inv]) (auto simp: release_leave_frame(1))
  qed
next
  case (intr h b)
  then show ?thesis by (intro lock_inv_cong[OF inv]) (auto simp: upd_cpu_def)
qed

lemma lock_inv_boot: "lock_inv boot lk"
  by (simp add: lock_inv_def boot_def owns_def spin_holding_def)

lemma reachable_lock_inv: "reachable s \<Longrightarrow> lock_inv s lk"
  by (induction rule: reachable.induct) (auto intro: lock_inv_boot lock_inv_step)

section \<open>Interrupts stay off\<close>

definition lockset :: "smp \<Rightarrow> nat \<Rightarrow> lockid set" where
  "lockset s h = {lk. owns s h lk}"

lemma not_locked_not_owned: "lock_inv s lk \<Longrightarrow> \<not> lk_locked (locks s lk) \<Longrightarrow> \<not> owns s h lk"
  unfolding lock_inv_def by blast

lemma lock_free_cpu: "lock_inv s lk \<Longrightarrow> \<not> lk_locked (locks s lk) \<Longrightarrow> lk_cpu (locks s lk) = None"
  unfolding lock_inv_def by blast

lemma lock_taken_cpu:
  "lock_inv s lk \<Longrightarrow> at s h = Taken lk \<or> at s h = Leaving lk \<Longrightarrow>
     lk_cpu (locks s lk) = None \<and> lk_locked (locks s lk)"
  unfolding lock_inv_def owns_def by blast

text \<open>The locks a hart owns, after a step of its own and after a step of another hart.\<close>

lemma lockset_enter: "at s h = Outside \<Longrightarrow> lockset (acquire_enter h lk s) h' = lockset s h'"
  by (auto simp: lockset_def owns_def spin_holding_def)

lemma lockset_spin:
  assumes "lock_inv s lk" and "at s h = Spinning lk" and "\<not> lk_locked (locks s lk)"
  shows "lockset (acquire_spin h lk s) h' = (if h' = h then insert lk (lockset s h) else lockset s h')"
  using lock_free_cpu[OF assms(1,3)] assms(2,3)
  by (auto simp: lockset_def owns_def spin_holding_def spin_frame)

lemma lockset_leave:
  assumes "lock_inv s lk" and "at s h = Taken lk"
  shows "lockset (acquire_leave h lk s) h' = lockset s h'"
  using lock_taken_cpu[OF assms(1), of h] assms(2)
  by (auto simp: lockset_def owns_def spin_holding_def)

lemma lockset_release:
  assumes "at s h = Outside"
  shows "lockset (release_enter h lk s) h' = lockset s h'"
  using assms by (cases "spin_holding h lk s")
    (auto simp: lockset_def owns_def spin_holding_def release_enter_frame goto_def)

lemma lockset_give:
  assumes "lock_inv s lk" and "at s h = Leaving lk"
  shows "lockset (release_leave h lk s) h' = (if h' = h then lockset s h - {lk} else lockset s h')"
proof -
  obtain w where w: "at (release_leave h lk s) = (at s)(h := w)" "w = Outside \<or> (\<exists>e. w = Stopped e)"
    using release_leave_frame(2) by blast
  have only: "h' = h" if "owns s h' lk" for h'
    using assms that unfolding lock_inv_def owns_def by blast
  have t: "owns (release_leave h lk s) h' l \<longleftrightarrow>
      (h' \<noteq> h \<and> (at s h' = Taken l \<or> at s h' = Leaving l)) \<or> (l \<noteq> lk \<and> spin_holding h' l s)" for l
    using w by (auto simp: owns_def spin_holding_def release_leave_frame(1))
  have "owns (release_leave h lk s) h' l \<longleftrightarrow> owns s h' l \<and> \<not> (h' = h \<and> l = lk)" for l
    unfolding t using only[of h'] assms(2) by (auto simp: owns_def)
  then show ?thesis by (auto simp: lockset_def)
qed

lemma depth_inv_alt:
  "depth_inv s h \<longleftrightarrow> finite (lockset s h) \<and>
     (\<not> stopped s h \<longrightarrow> noff (cpus s h) = int (card (lockset s h)) + (if waits s h then 1 else 0)) \<and>
     (0 < noff (cpus s h) \<longrightarrow> \<not> intr (cpus s h)) \<and> 0 \<le> noff (cpus s h)"
  by (simp add: depth_inv_def lockset_def)

lemma depth_other:
  assumes "depth_inv s h" and "cpus t h = cpus s h" and "at t h = at s h" and "lockset t h = lockset s h"
  shows "depth_inv t h"
  using assms by (simp add: depth_inv_alt stopped_def waits_def)

lemma enter_cpus: "cpus (acquire_enter h lk s) h' =
    (if h' = h then let c = cpus s h in c\<lparr>intr := False, intena := (if noff c = 0 then intr c else intena c),
       noff := noff c + 1\<rparr> else cpus s h')"
  by (simp add: acquire_enter_def push_off_def spin_defs)

lemma give_Ok:
  assumes "lock_inv s lk" and "depth_inv s h" and "at s h = Leaving lk"
  shows "at (release_leave h lk s) = (at s)(h := Outside)"
    and "noff (cpus (release_leave h lk s) h) = noff (cpus s h) - 1"
    and "0 < noff (cpus (release_leave h lk s) h) \<Longrightarrow> \<not> intr (cpus (release_leave h lk s) h)"
    and "h' \<noteq> h \<Longrightarrow> cpus (release_leave h lk s) h' = cpus s h'"
proof -
  have "lk \<in> lockset s h" using assms(3) by (simp add: lockset_def owns_def)
  then have "0 < card (lockset s h)" using assms(2) by (auto simp: depth_inv_alt card_gt_0_iff)
  then have pos: "0 < noff (cpus s h)" and off: "\<not> intr (cpus s h)"
    using assms(2,3) by (auto simp: depth_inv_alt stopped_def)
  show "at (release_leave h lk s) = (at s)(h := Outside)"
    and "noff (cpus (release_leave h lk s) h) = noff (cpus s h) - 1"
    and "0 < noff (cpus (release_leave h lk s) h) \<Longrightarrow> \<not> intr (cpus (release_leave h lk s) h)"
    and "h' \<noteq> h \<Longrightarrow> cpus (release_leave h lk s) h' = cpus s h'"
    using pos off by (simp_all add: release_leave_def pop_off_def spin_defs split: if_splits)
qed

lemma depth_inv_step:
  assumes "step s t" and lk: "\<And>lk. lock_inv s lk" and d: "\<And>h. depth_inv s h"
  shows "depth_inv t h"
  using assms(1)
proof (cases rule: step.cases)
  case (enter h' l)
  then show ?thesis
    using d[of h] by (cases "h = h'") (auto simp: depth_inv_alt lockset_enter enter_cpus stopped_def waits_def Let_def)
next
  case (spin h' l)
  show ?thesis
  proof (cases "lk_locked (locks s l)")
    case True
    then show ?thesis using spin d[of h] by (simp add: acquire_spin_def)
  next
    case False
    have "l \<notin> lockset s h'" using not_locked_not_owned[OF lk False] by (simp add: lockset_def)
    then show ?thesis using spin False d[of h]
      by (cases "h = h'") (auto simp: depth_inv_alt lockset_spin[OF lk] spin_frame stopped_def waits_def)
  qed
next
  case (take h' l)
  then show ?thesis using d[of h]
    by (cases "h = h'") (auto simp: depth_inv_alt lockset_leave[OF lk] stopped_def waits_def)
next
  case (leave h' l)
  have at': "at t h = at s h \<or> h = h' \<and> (at t h = Leaving l \<or> (\<exists>e. at t h = Stopped e))"
    using leave by (cases "spin_holding h' l s") (auto simp: release_enter_frame goto_def)
  have ls: "lockset t h = lockset s h" and cp: "cpus t h = cpus s h"
    using leave by (simp_all add: lockset_release release_enter_frame(4))
  show ?thesis
  proof (cases "at t h = at s h")
    case True
    then show ?thesis by (rule depth_other[OF d cp _ ls])
  next
    case False
    then show ?thesis using at' d[of h] ls cp leave(2)
      by (auto simp: depth_inv_alt stopped_def waits_def)
  qed
next
  case (give h' l)
  note g = give_Ok[OF lk d give(2), folded give(1)]
  show ?thesis
  proof (cases "h = h'")
    case True
    have "l \<in> lockset s h" using give True by (simp add: lockset_def owns_def)
    moreover have "finite (lockset s h)" using d by (simp add: depth_inv_alt)
    moreover have ls: "lockset t h = lockset s h - {l}"
      using lockset_give[OF lk give(2), of h] True give(1) by simp
    ultimately have c: "int (card (lockset t h)) = int (card (lockset s h)) - 1" "finite (lockset t h)"
      using card.remove[of "lockset s h" l] by simp_all
    have at': "at t h = Outside" "at s h = Leaving l" using g(1) give(2) True by simp_all
    have n: "noff (cpus t h) = noff (cpus s h) - 1" using g(2) True by simp
    have i: "0 < noff (cpus t h) \<Longrightarrow> \<not> intr (cpus t h)" using g(3) True by simp
    have "noff (cpus s h) = int (card (lockset s h))"
      using d[of h] at' by (simp add: depth_inv_alt stopped_def waits_def)
    then show ?thesis using c at' n i by (simp add: depth_inv_alt stopped_def waits_def)
  next
    case False
    then show ?thesis using g(1) g(4)[OF False] lockset_give[OF lk give(2), of h] give(1)
      by (intro depth_other[OF d]) auto
  qed
next
  case (intr h' b)
  have "lockset t h = lockset s h" unfolding intr by (simp add: lockset_def owns_def spin_holding_def upd_cpu_def)
  then show ?thesis using intr d[of h]
    by (cases "h = h'") (auto simp: depth_inv_alt stopped_def waits_def upd_cpu_def)
qed

lemma depth_inv_boot: "depth_inv boot h"
  by (simp add: depth_inv_def boot_def owns_def spin_holding_def stopped_def waits_def)

lemma reachable_depth_inv: "reachable s \<Longrightarrow> depth_inv s h"
proof (induction arbitrary: h rule: reachable.induct)
  case start
  show ?case by (rule depth_inv_boot)
next
  case (more s t)
  show ?case by (rule depth_inv_step[OF more(2) reachable_lock_inv[OF more(1)] more(3)])
qed

text \<open>C4: mutual exclusion. Whatever the interleaving of the harts, two harts never both own the
  same spin lock, and a lock that a hart owns is marked locked.\<close>

theorem spin_mutual_exclusion:
  assumes "reachable s" and "owns s h lk" and "owns s h' lk"
  shows "h = h' \<and> lk_locked (locks s lk)"
  using reachable_lock_inv[OF assms(1), of lk] assms(2,3) unfolding lock_inv_def by blast

text \<open>A run in which hart 1 takes the log lock while hart 2 starts to spin on it.\<close>

definition taken_run :: smp where
  "taken_run = acquire_enter 2 L_log (acquire_leave 1 L_log (acquire_spin 1 L_log (acquire_enter 1 L_log boot)))"

lemma taken_run_reachable: "reachable taken_run"
proof -
  have 1: "reachable (acquire_enter 1 L_log boot)"
    by (rule reachable.more[OF reachable.start]) (rule step.enter, simp add: boot_def)
  have 2: "reachable (acquire_spin 1 L_log (acquire_enter 1 L_log boot))"
    by (rule reachable.more[OF 1]) (rule step.spin, simp add: spin_holding_def boot_def)
  have 3: "reachable (acquire_leave 1 L_log (acquire_spin 1 L_log (acquire_enter 1 L_log boot)))"
    by (rule reachable.more[OF 2]) (rule step.take, simp add: acquire_spin_def boot_def spin_defs)
  show ?thesis unfolding taken_run_def
    by (rule reachable.more[OF 3]) (rule step.enter, simp add: acquire_spin_def boot_def spin_defs)
qed

lemma taken_run_owns: "owns taken_run 1 L_log"
  by (simp add: taken_run_def owns_def spin_holding_def acquire_spin_def boot_def spin_defs)

theorem spin_mutual_exclusion_witness:
  "reachable taken_run \<and> owns taken_run 1 L_log \<and> lk_locked (locks taken_run L_log)"
  using spin_mutual_exclusion[OF taken_run_reachable taken_run_owns taken_run_owns]
    taken_run_reachable taken_run_owns by simp


lemma taken_run_outside: "at taken_run 1 = Outside"
  by (simp add: taken_run_def acquire_spin_def boot_def spin_defs)


section \<open>Refinement of the one-hart view\<close>

definition view :: "smp \<Rightarrow> nat \<Rightarrow> lockid set" where
  "view s h = {lk. spin_holding h lk s}"

lemma view_step:
  assumes r: "reachable s" and "step s t"
  shows "view t h = view s h
    \<or> (\<exists>lk. lk \<notin> view s h \<and> view t h = insert lk (view s h))
    \<or> (\<exists>lk. lk \<in> view s h \<and> view t h = view s h - {lk})"
  using assms(2)
proof (cases rule: step.cases)
  case (enter h' l)
  then show ?thesis by (simp add: view_def spin_holding_def)
next
  case (spin h' l)
  then have "view t h = view s h" using lock_free_cpu[OF reachable_lock_inv[OF r], of l]
    by (cases "lk_locked (locks s l)") (auto simp: acquire_spin_def view_def spin_holding_def spin_defs)
  then show ?thesis ..
next
  case (take h' l)
  have l: "lk_cpu (locks s l) = None" "lk_locked (locks s l)"
    using lock_taken_cpu[OF reachable_lock_inv[OF r]] take(2) by blast+
  show ?thesis
  proof (cases "h = h'")
    case True
    then have "l \<notin> view s h" "view t h = insert l (view s h)"
      using l take(1) by (auto simp: view_def spin_holding_def)
    then show ?thesis by blast
  next
    case False
    then have "view t h = view s h" using l take(1) by (auto simp: view_def spin_holding_def)
    then show ?thesis ..
  qed
next
  case (leave h' l)
  show ?thesis
  proof (cases "h = h' \<and> spin_holding h' l s")
    case True
    then have "l \<in> view s h" "view t h = view s h - {l}"
      using leave(1) by (auto simp: view_def spin_holding_def release_enter_frame)
    then show ?thesis by blast
  next
    case False
    then have "view t h = view s h" using leave(1)
      by (cases "spin_holding h' l s") (auto simp: view_def spin_holding_def release_enter_frame goto_def)
    then show ?thesis by blast
  qed
next
  case (give h' l)
  have "lk_cpu (locks s l) = None"
    using lock_taken_cpu[OF reachable_lock_inv[OF r]] give(2) by blast
  then have "view t h = view s h" using give(1)
    by (auto simp: view_def spin_holding_def release_leave_frame(1))
  then show ?thesis ..
next
  case (intr h' b)
  then show ?thesis by (simp add: view_def spin_holding_def upd_cpu_def)
qed


lemma taken_run_holding: "spin_holding 1 lk taken_run \<longleftrightarrow> lk = L_log"
  by (simp add: taken_run_def spin_holding_def acquire_spin_def boot_def spin_defs)

lemma taken_run_view: "held (zero_state\<lparr>held := {L_log}\<rparr>) = view taken_run 1"
  unfolding view_def taken_run_holding by simp

definition log_held :: kstate where
  "log_held = zero_state\<lparr>held := {L_log}\<rparr>"

lemma log_held_view: "held log_held = view taken_run 1"
  using taken_run_view by (simp only: log_held_def)

lemma release_step: "step taken_run (release_enter 1 L_log taken_run)"
  by (rule step.leave[OF taken_run_outside])




end
