(* ===== verification/Trans.thy ===== *)
theory Trans
  imports Log
begin

text \<open>
  Inside a transaction: between \<open>begin_op\<close> and \<open>end_op\<close> a process changes blocks only in the buffer
  cache, records them with \<open>log_write\<close>, and nothing reaches the disk. This theory gives the rules by
  which the file-system code is verified: what \<open>bread\<close>, a change of the data, \<open>log_write\<close> and
  \<open>brelse\<close> do to the content of the blocks as the cache shows it.
\<close>

section \<open>The cache and the log around a transaction\<close>

text \<open>
  \<open>B\<close> is the set of blocks whose buffer the process holds locked. A block is referenced once for being
  recorded in the log and once for being held; so the number of buffers in use is known.
\<close>

definition cache_at :: "nat \<Rightarrow> u32 set \<Rightarrow> kstate \<Rightarrow> bool" where
  "cache_at p B s \<longleftrightarrow> bc_ready p s \<and> log_ok (klog s) \<and> finite B \<and> B \<inter> log_area (klog s) = {}
     \<and> (\<forall>bn. rc s bn = (if bn \<in> log_homes (klog s) then 1 else 0) + (if bn \<in> B then 1 else 0))
     \<and> (\<forall>bn. lkd s bn \<longleftrightarrow> bn \<in> B)
     \<and> nfree s + card (log_homes (klog s) \<union> B) = NBUF"

text \<open>A transaction is open, and the log has room for \<open>k\<close> more blocks.\<close>

definition room :: "nat \<Rightarrow> kstate \<Rightarrow> bool" where
  "room k s \<longleftrightarrow> \<not> l_committing (klog s) \<and> 1 \<le> l_outstanding (klog s) \<and> log_n (klog s) + k \<le> LOGSIZE \<and> int (log_n (klog s) + k) \<le> l_size (klog s) - 1"

text \<open>What a transaction leaves alone: everything but the cache, the list of logged blocks and the
  scheduling states of processes; the disk above all.\<close>

definition tx_frame :: "kstate \<Rightarrow> kstate \<Rightarrow> bool" where
  "tx_frame s t \<longleftrightarrow> bc_frame s (t\<lparr>klog := klog s\<rparr>) \<and> klog t = (klog s)\<lparr>l_lh := l_lh (klog t)\<rparr> \<and>
     disk t = disk s \<and> dwrites t = dwrites s"

lemma bc_frame_klog_cong: "bc_frame s t \<Longrightarrow> bc_frame (s\<lparr>klog := y\<rparr>) (t\<lparr>klog := y\<rparr>)"
  using bc_frame_klog[where s = s and x = "klog s" and t = t and y = y and u = "t\<lparr>klog := y\<rparr>"] by simp

lemma tx_frame_refl [simp]: "tx_frame s s"
  by (simp add: tx_frame_def)

lemma tx_frame_trans:
  assumes "tx_frame s t" and "tx_frame t u"
  shows "tx_frame s u"
proof -
  have "klog u = (klog s)\<lparr>l_lh := l_lh (klog u)\<rparr>"
  proof -
    obtain y where "klog u = (klog t)\<lparr>l_lh := y\<rparr>" using assms(2) unfolding tx_frame_def by blast
    moreover obtain x where "klog t = (klog s)\<lparr>l_lh := x\<rparr>" using assms(1) unfolding tx_frame_def by blast
    ultimately show ?thesis by simp
  qed
  moreover have "bc_frame (t\<lparr>klog := klog s\<rparr>) (u\<lparr>klog := klog s\<rparr>)"
    using bc_frame_klog_cong[where y = "klog s"] assms(2) unfolding tx_frame_def by force
  then have "bc_frame s (u\<lparr>klog := klog s\<rparr>)" using assms(1) bc_frame_trans unfolding tx_frame_def by blast
  ultimately show ?thesis using assms by (simp add: tx_frame_def)
qed

lemma tx_frameD:
  assumes "tx_frame s t"
  shows "held t = held s" "curproc t = curproc s" "sb t = sb s" "inodes t = inodes s" "files t = files s"
    "mem t = mem s" "pipes t = pipes s" "uart_out t = uart_out s" "length (procs t) = length (procs s)"
    "disk t = disk s" "dwrites t = dwrites s" "l_start (klog t) = l_start (klog s)" "l_size (klog t) = l_size (klog s)"
    "log_area (klog t) = log_area (klog s)"
proof -
  have f: "bc_frame s (t\<lparr>klog := klog s\<rparr>)" and k: "klog t = (klog s)\<lparr>l_lh := l_lh (klog t)\<rparr>"
    using assms by (simp_all add: tx_frame_def)
  show "held t = held s" "curproc t = curproc s" "sb t = sb s" "inodes t = inodes s" "files t = files s"
    "mem t = mem s" "pipes t = pipes s" "uart_out t = uart_out s" "length (procs t) = length (procs s)"
    using bc_frameD[OF f] by simp_all
  show "disk t = disk s" "dwrites t = dwrites s" using assms by (simp_all add: tx_frame_def)
  show "l_start (klog t) = l_start (klog s)" "l_size (klog t) = l_size (klog s)" by (subst k, simp)+
  then show "log_area (klog t) = log_area (klog s)" by (simp add: log_area_def log_blk_def log_cap_def)
qed

lemma bc_frame_tx: "bc_frame s t \<Longrightarrow> disk t = disk s \<Longrightarrow> dwrites t = dwrites s \<Longrightarrow> tx_frame s t"
proof -
  assume f: "bc_frame s t" and d: "disk t = disk s" "dwrites t = dwrites s"
  have "t\<lparr>klog := klog s\<rparr> = t" unfolding bc_frameD(3)[OF f, symmetric] by simp
  then have "bc_frame s (t\<lparr>klog := klog s\<rparr>)" using f by (simp only:)
  then show ?thesis using d bc_frameD(3)[OF f] by (simp add: tx_frame_def)
qed

lemma card_log_homes: "log_ok l \<Longrightarrow> card (log_homes l) = log_n l"
  using distinct_card[of "map (log_home l) [0..<log_n l]"]
  by (simp add: log_ok_def log_homes_def lessThan_atLeast0)

lemma finite_log_homes [simp]: "finite (log_homes l)"
  by (simp add: log_homes_def)

lemma room_mono: "room k s \<Longrightarrow> j \<le> k \<Longrightarrow> room j s"
  by (auto simp: room_def)

section \<open>Rules for the operations on blocks\<close>

lemma tx_bread:
  assumes tx: "cache_at p B s" and bn: "bn \<notin> B" "bn \<notin> log_area (klog s)"
    and av: "bn \<in> log_homes (klog s) \<or> card (log_homes (klog s) \<union> B) < NBUF"
  shows "\<exists>b t. bread ROOTDEV bn s = Ok b t \<and> cache_at p (insert bn B) t \<and> tx_frame s t \<and> owns p t bn b \<and>
    view t = view s \<and> klog t = klog s \<and> (\<forall>m c. m \<noteq> bn \<longrightarrow> owns p s m c \<longrightarrow> owns p t m c)"
proof -
  let ?H = "log_homes (klog s)"
  have r: "rc s bn = (if bn \<in> ?H then 1 else 0)" "\<not> lkd s bn" and rdy: "bc_ready p s"
    and n: "nfree s + card (?H \<union> B) = NBUF" and fin: "finite (?H \<union> B)" using tx bn by (auto simp: cache_at_def)
  have "0 < rc s bn \<or> 0 < nfree s" using r av n by auto
  moreover have "rc s bn < 2 ^ 32 - 1" using r by simp
  ultimately obtain b t where t: "bread ROOTDEV bn s = Ok b t" "bc_ready p t" "bc_frame s t" "owns p t bn b"
      "bc_obs t = a_bread bn (bc_obs s)" "\<forall>m c. m \<noteq> bn \<longrightarrow> owns p s m c \<longrightarrow> owns p t m c"
    using bread_refines[OF rdy r(2)] by blast
  have o: "view t = view s" "disk t = disk s" "dwrites t = dwrites s" "rc t = (rc s)(bn := Suc (rc s bn))"
      "lkd t = (lkd s)(bn := True)" "nfree t = nfree s - (if rc s bn = 0 then 1 else 0)"
    using arg_cong[OF t(5), of c_view] arg_cong[OF t(5), of c_disk] arg_cong[OF t(5), of c_writes]
      arg_cong[OF t(5), of c_refs] arg_cong[OF t(5), of c_locked] arg_cong[OF t(5), of c_free]
    by (simp_all add: a_bread_def)
  have k: "klog t = klog s" using bc_frameD(3)[OF t(3)] .
  have "nfree t + card (?H \<union> insert bn B) = NBUF"
    using n fin r o(6) av bn by (auto simp: insert_absorb card_insert_if)
  then have "cache_at p (insert bn B) t" using tx t(2) o k bn by (auto simp: cache_at_def)
  then show ?thesis using t o k bc_frame_tx[OF t(3)] by blast
qed

lemma tx_put:
  assumes tx: "cache_at p B s" and own: "owns p s bn b" and d: "length d = BSIZE"
  shows "\<exists>t. set_data b d s = Ok () t \<and> cache_at p B t \<and> tx_frame s t \<and> view t = (view s)(bn := d) \<and> klog t = klog s \<and>
    (\<forall>m c. owns p s m c \<longrightarrow> owns p t m c)"
proof -
  obtain t where t: "set_data b d s = Ok () t" "bc_ready p t" "bc_frame s t" "bc_obs t = a_put bn d (bc_obs s)"
      "\<forall>m c. owns p s m c \<longrightarrow> owns p t m c"
    using set_data_refines[OF _ own d] tx unfolding cache_at_def by blast
  have o: "view t = (view s)(bn := d)" "disk t = disk s" "dwrites t = dwrites s" "rc t = rc s" "lkd t = lkd s" "nfree t = nfree s"
    using arg_cong[OF t(4), of c_view] arg_cong[OF t(4), of c_disk] arg_cong[OF t(4), of c_writes]
      arg_cong[OF t(4), of c_refs] arg_cong[OF t(4), of c_locked] arg_cong[OF t(4), of c_free]
    by (simp_all add: a_put_def)
  have k: "klog t = klog s" using bc_frameD(3)[OF t(3)] .
  have "cache_at p B t" using tx t(2) o k by (simp add: cache_at_def)
  then show ?thesis using t o k bc_frame_tx[OF t(3)] by blast
qed

lemma tx_get: "cache_at p B s \<Longrightarrow> owns p s bn b \<Longrightarrow> buf_data b s = Ok (view s bn) s"
  by (simp add: cache_at_def bc_ready_def buf_data_def owns_is_buf)

text \<open>Releasing a block that is recorded in the log or unchanged.\<close>

lemma tx_brelse:
  assumes tx: "cache_at p B s" and own: "owns p s bn b" and bn: "bn \<in> B"
    and clean: "bn \<in> log_homes (klog s) \<or> view s bn = disk s bn"
  shows "\<exists>t. brelse b s = Ok () t \<and> cache_at p (B - {bn}) t \<and> tx_frame s t \<and> view t = view s \<and> klog t = klog s \<and>
    (\<forall>m c. m \<noteq> bn \<longrightarrow> owns p s m c \<longrightarrow> owns p t m c)"
proof -
  let ?H = "log_homes (klog s)"
  have r: "rc s bn = (if bn \<in> ?H then 1 else 0) + 1" and rdy: "bc_ready p s"
    and n: "nfree s + card (?H \<union> B) = NBUF" and fin: "finite (?H \<union> B)" using tx bn by (auto simp: cache_at_def)
  obtain t where t: "brelse b s = Ok () t" "bc_ready p t" "bc_frame s t" "bc_obs t = a_brelse bn (bc_obs s)"
      "\<forall>m c. m \<noteq> bn \<longrightarrow> owns p s m c \<longrightarrow> owns p t m c"
    using brelse_refines[OF rdy own] clean r by auto
  have o: "view t = view s" "disk t = disk s" "dwrites t = dwrites s" "rc t = (rc s)(bn := rc s bn - 1)"
      "lkd t = (lkd s)(bn := False)" "nfree t = nfree s + (if rc s bn = 1 then 1 else 0)"
    using arg_cong[OF t(4), of c_view] arg_cong[OF t(4), of c_disk] arg_cong[OF t(4), of c_writes]
      arg_cong[OF t(4), of c_refs] arg_cong[OF t(4), of c_locked] arg_cong[OF t(4), of c_free]
    by (simp_all add: a_brelse_def)
  have k: "klog t = klog s" using bc_frameD(3)[OF t(3)] .
  have "nfree t + card (?H \<union> (B - {bn})) = NBUF"
  proof (cases "bn \<in> ?H")
    case True
    then have "?H \<union> (B - {bn}) = ?H \<union> B" by blast
    then show ?thesis using True n o(6) r by simp
  next
    case False
    then have "?H \<union> B = insert bn (?H \<union> (B - {bn}))" using bn by blast
    then show ?thesis using False n o(6) r fin by simp
  qed
  then have "cache_at p (B - {bn}) t" using tx t(2) o k r by (auto simp: cache_at_def)
  then show ?thesis using t o k bc_frame_tx[OF t(3)] by blast
qed

section \<open>Recording a block\<close>

lemma find_upt_Some: "find P [0..<n] = Some i \<Longrightarrow> i < n \<and> P i"
  by (auto simp: find_Some_iff)

lemma log_slot_absorbed:
  assumes "bn \<in> log_homes l"
  shows "log_slot (l_lh l) bn < log_n l" and "log_home l (log_slot (l_lh l) bn) = bn"
proof -
  obtain j where j: "j < log_n l" "log_home l j = bn" using assms by (auto simp: log_homes_def)
  then have "find (\<lambda>i. lh_block (l_lh l) ! i = bn) [0..<nat (lh_n (l_lh l))] \<noteq> None"
    by (auto simp: find_None_iff log_n_def log_home_def)
  then obtain i where i: "find (\<lambda>i. lh_block (l_lh l) ! i = bn) [0..<nat (lh_n (l_lh l))] = Some i" by blast
  from find_upt_Some[OF i] i show "log_slot (l_lh l) bn < log_n l" "log_home l (log_slot (l_lh l) bn) = bn"
    by (auto simp: log_slot_def log_n_def log_home_def)
qed

lemma log_slot_new: "bn \<notin> log_homes l \<Longrightarrow> log_slot (l_lh l) bn = log_n l"
  by (auto simp: log_slot_def log_n_def log_home_def log_homes_def find_None_iff image_iff split: option.split dest: find_upt_Some)

text \<open>Recording one more block at the end of the list.\<close>

definition log_add :: "u32 \<Rightarrow> log \<Rightarrow> log" where
  "log_add bn l = l\<lparr>l_lh := (l_lh l)\<lparr>lh_block := (lh_block (l_lh l))[log_n l := bn], lh_n := lh_n (l_lh l) + 1\<rparr>\<rparr>"

lemma log_add_props:
  assumes ok: "log_ok l" and n: "log_n l < log_cap l" and bn: "bn \<notin> log_homes l" "bn \<notin> log_area l"
  shows "log_n (log_add bn l) = Suc (log_n l)" and "log_homes (log_add bn l) = insert bn (log_homes l)"
    and "log_ok (log_add bn l)"
proof -
  let ?l = "log_add bn l"
  have len: "length (lh_block (l_lh l)) = LOGSIZE" and nn: "0 \<le> lh_n (l_lh l)" using ok by (simp_all add: log_ok_def)
  show n': "log_n ?l = Suc (log_n l)" using nn by (simp add: log_n_def log_add_def nat_add_distrib)
  have h: "log_home ?l i = (if i = log_n l then bn else log_home l i)" if "i < Suc (log_n l)" for i
    using that n len log_cap_le[of l] by (simp add: log_home_def log_add_def nth_list_update)
  have m: "map (log_home ?l) [0..<Suc (log_n l)] = map (log_home l) [0..<log_n l] @ [bn]"
    using h by simp
  have "log_homes ?l = set (map (log_home ?l) [0..<Suc (log_n l)])"
    unfolding log_homes_def n' by (simp only: list.set_map set_upt lessThan_atLeast0)
  then show hs: "log_homes ?l = insert bn (log_homes l)"
    unfolding m by (auto simp: log_homes_def)
  have a: "log_area ?l = log_area l" "log_cap ?l = log_cap l" by (simp_all add: log_add_def log_area_def log_blk_def log_cap_def)
  have out: "log_home ?l i \<notin> log_area l" if "i < Suc (log_n l)" for i
    using that bn(2) ok h[OF that] by (auto simp: log_ok_def less_Suc_eq)
  have "distinct (map (log_home ?l) [0..<Suc (log_n l)])"
    unfolding m using ok bn(1) by (auto simp: log_ok_def log_homes_def)
  moreover have "lh_n (l_lh ?l) \<le> int (log_cap l)" "0 \<le> lh_n (l_lh ?l)" "l_dev ?l = ROOTDEV" "length (lh_block (l_lh ?l)) = LOGSIZE"
    using n nn ok by (auto simp: log_add_def log_n_def log_ok_def)
  ultimately show "log_ok ?l" using out by (simp only: log_ok_def n' a) blast
qed

lemma log_write_absorbed:
  assumes tx: "cache_at p B s" and own: "owns p s bn b" and room: "room (Suc k) s" and bn: "bn \<in> log_homes (klog s)"
  shows "log_write b s = Ok () s"
proof -
  let ?l = "klog s"
  have ok: "log_ok ?l" and h: "held s = {}" and inv: "bc_inv s"
    using tx by (auto simp: cache_at_def bc_ready_def in_proc_def)
  have out: "1 \<le> l_outstanding ?l" using room by (simp add: room_def)
  note sl = log_slot_absorbed[OF bn]
  have len: "length (lh_block (l_lh ?l)) = LOGSIZE" and nn: "int (log_n ?l) = lh_n (l_lh ?l)"
    using ok by (simp_all add: log_ok_def log_n_def)
  have lt: "log_slot (l_lh ?l) bn < LOGSIZE" using sl(1) log_ok_n[OF ok] by simp
  have same: "(lh_block (l_lh ?l))[log_slot (l_lh ?l) bn := bn] = lh_block (l_lh ?l)"
    using sl(2) by (metis list_update_id log_home_def)
  have b: "b_blockno (bufs s ! b) = bn" using owns_is_buf(9)[OF inv own] .
  have lim: "lh_n (l_lh ?l) < int LOGSIZE" "lh_n (l_lh ?l) < l_size ?l - 1"
    using room nn by (auto simp: room_def)
  have ne: "log_slot (l_lh ?l) bn \<noteq> nat (lh_n (l_lh ?l))" using sl(1) by (simp add: log_n_def)
  show ?thesis using h lim out b lt len ne same
    by (simp add: log_write_def lh_set_def upd_lh_def upd_log_def)
qed

lemma log_write_new:
  assumes tx: "cache_at p B s" and own: "owns p s bn b" and room: "room (Suc k) s" and bn: "bn \<notin> log_homes (klog s)"
  shows "log_write b s = Ok () (s\<lparr>bufs := (bufs s)[b := (bufs s ! b)\<lparr>b_refcnt := b_refcnt (bufs s ! b) + 1\<rparr>],
    klog := log_add bn (klog s)\<rparr>)"
proof -
  let ?l = "klog s"
  have ok: "log_ok ?l" and h: "held s = {}" and inv: "bc_inv s"
    using tx by (auto simp: cache_at_def bc_ready_def in_proc_def)
  have out: "1 \<le> l_outstanding ?l" using room by (simp add: room_def)
  note sl = log_slot_new[OF bn]
  have len: "length (lh_block (l_lh ?l)) = LOGSIZE" and nn: "int (log_n ?l) = lh_n (l_lh ?l)"
    using ok by (simp_all add: log_ok_def log_n_def)
  have b: "b_blockno (bufs s ! b) = bn" "b < length (bufs s)" using owns_is_buf[OF inv own] by simp_all
  have lim: "lh_n (l_lh ?l) < int LOGSIZE" "lh_n (l_lh ?l) < l_size ?l - 1" "log_n ?l < LOGSIZE"
    using room nn by (auto simp: room_def)
  have eq: "log_slot (l_lh ?l) bn = nat (lh_n (l_lh ?l))" using sl by (simp add: log_n_def)
  show ?thesis using h lim out b len eq sl
    by (simp add: log_write_def lh_set_def upd_lh_def upd_log_def bpin_def upd_buf_def tbl_upd_def log_add_def)
qed

lemma tx_log_write:
  assumes tx: "cache_at p B s" and own: "owns p s bn b" and room: "room (Suc k) s" and bn: "bn \<in> B"
  shows "\<exists>t. log_write b s = Ok () t \<and> cache_at p B t \<and> tx_frame s t \<and> view t = view s \<and> room k t \<and>
    log_homes (klog t) = insert bn (log_homes (klog s)) \<and> (\<forall>m c. owns p s m c \<longrightarrow> owns p t m c)"
proof (cases "bn \<in> log_homes (klog s)")
  case True
  have "room k s" using room by (rule room_mono) simp
  moreover have "log_homes (klog s) = insert bn (log_homes (klog s))" using True by blast
  ultimately show ?thesis using log_write_absorbed[OF tx own room True] tx by (intro exI[of _ s]) simp
next
  case False
  let ?u = "s\<lparr>bufs := (bufs s)[b := (bufs s ! b)\<lparr>b_refcnt := b_refcnt (bufs s ! b) + 1\<rparr>]\<rparr>"
  let ?t = "?u\<lparr>klog := log_add bn (klog s)\<rparr>"
  have rdy: "bc_ready p s" and ok: "log_ok (klog s)" and area: "bn \<notin> log_area (klog s)" and rc: "rc s bn = 1"
    using tx bn False by (auto simp: cache_at_def)
  have inv: "bc_inv s" using rdy by (simp add: bc_ready_def)
  note o = owns_is_buf[OF inv own]
  have r: "unat (b_refcnt (bufs s ! b) + 1) = 2 \<and> 0 < b_refcnt (bufs s ! b) + 1"
    using unat_incr[of "b_refcnt (bufs s ! b)"] o(6) rc by simp
  have x: "(bufs s ! b)\<lparr>b_data := b_data (bufs s ! b), b_refcnt := b_refcnt (bufs s ! b) + 1\<rparr> = (bufs s ! b)\<lparr>b_refcnt := b_refcnt (bufs s ! b) + 1\<rparr>"
    by simp
  have "length (b_data (bufs s ! b)) = BSIZE" using o(4) by (simp add: buf_ok_def)
  note u = owned_upd[OF rdy own this conjunct2[OF r], unfolded x]
  have obs: "view ?u = view s" "rc ?u = (rc s)(bn := 2)" "lkd ?u = lkd s" "nfree ?u = nfree s"
    using arg_cong[OF u(2), of c_view] arg_cong[OF u(2), of c_refs] arg_cong[OF u(2), of c_locked] arg_cong[OF u(2), of c_free] o(5) r
    by (simp_all add: fun_eq_iff)
  have n: "log_n (klog s) < log_cap (klog s)" using room by (auto simp: room_def log_cap_def)
  note la = log_add_props[OF ok n False area]
  have flds: "l_committing (log_add bn l) = l_committing l" "l_outstanding (log_add bn l) = l_outstanding l"
      "l_size (log_add bn l) = l_size l" "log_area (log_add bn l) = log_area l" for l
    by (simp_all add: log_add_def log_area_def log_blk_def log_cap_def)
  have "log_homes (klog s) \<union> B = insert bn (log_homes (klog s)) \<union> B" using bn by blast
  then have "cache_at p B ?t" using tx u(1) obs la flds bn False unfolding cache_at_def by (simp add: insert_absorb)
  moreover have "tx_frame s ?t" by (simp add: tx_frame_def bc_frame_def log_add_def)
  moreover have "room k ?t" using room la(1) flds by (simp add: room_def)
  moreover have "\<forall>m c. owns p s m c \<longrightarrow> owns p ?t m c" using u(3) by simp
  moreover have "view ?t = view s" using obs(1) by simp
  ultimately show ?thesis using log_write_new[OF tx own room False] la(2) by (intro exI[of _ ?t]) simp
qed

section \<open>Reading and updating a block\<close>

lemma unheld_clean:
  "cache_at p B s \<Longrightarrow> bn \<notin> B \<Longrightarrow> bn \<in> log_homes (klog s) \<or> view s bn = disk s bn"
  using unreferenced[of s bn] by (auto simp: cache_at_def bc_ready_def)

definition can_hold :: "u32 set \<Rightarrow> u32 \<Rightarrow> kstate \<Rightarrow> bool" where
  "can_hold B bn s \<longleftrightarrow> bn \<notin> B \<and> bn \<notin> log_area (klog s) \<and>
     (bn \<in> log_homes (klog s) \<or> card (log_homes (klog s) \<union> B) < NBUF)"

lemma can_hold_room:
  assumes "cache_at p B s" and "room (Suc (card B)) s" and "bn \<notin> B" and "bn \<notin> log_area (klog s)"
  shows "can_hold B bn s"
proof -
  have "card (log_homes (klog s) \<union> B) \<le> log_n (klog s) + card B"
    using assms(1) card_Un_le[of "log_homes (klog s)" B] by (simp add: cache_at_def card_log_homes)
  also have "\<dots> < NBUF" using assms(2) by (simp add: room_def LOGSIZE_def NBUF_def)
  finally show ?thesis using assms by (simp add: can_hold_def)
qed

text \<open>Opening a block for reading, and closing it unchanged or with new data.\<close>

lemma tx_open:
  assumes tx: "cache_at p B s" and ch: "can_hold B bn s"
  shows "\<exists>b t. bread ROOTDEV bn s = Ok b t \<and> buf_data b t = Ok (view s bn) t \<and>
    cache_at p (insert bn B) t \<and> owns p t bn b \<and> tx_frame s t \<and> view t = view s \<and> klog t = klog s \<and>
    (bn \<in> log_homes (klog t) \<or> view t bn = disk t bn) \<and> (\<forall>m c. m \<noteq> bn \<longrightarrow> owns p s m c \<longrightarrow> owns p t m c)"
proof -
  have bn: "bn \<notin> B" using ch by (simp add: can_hold_def)
  obtain b t where t: "bread ROOTDEV bn s = Ok b t" "cache_at p (insert bn B) t" "tx_frame s t" "owns p t bn b"
      "view t = view s" "klog t = klog s" "\<forall>m c. m \<noteq> bn \<longrightarrow> owns p s m c \<longrightarrow> owns p t m c"
    using tx_bread[OF tx] ch unfolding can_hold_def by blast
  have "bn \<in> log_homes (klog t) \<or> view t bn = disk t bn"
    using unheld_clean[OF tx bn] t(3,5,6) by (simp add: tx_frameD)
  then show ?thesis using t tx_get[OF t(2,4)] by (intro exI[of _ b] exI[of _ t]) simp
qed

lemma tx_close:
  assumes tx: "cache_at p (insert bn B) s" and own: "owns p s bn b" and bn: "bn \<notin> B"
    and clean: "bn \<in> log_homes (klog s) \<or> view s bn = disk s bn"
  shows "\<exists>t. brelse b s = Ok () t \<and> cache_at p B t \<and> tx_frame s t \<and> view t = view s \<and>
    klog t = klog s \<and> (\<forall>m c. m \<noteq> bn \<longrightarrow> owns p s m c \<longrightarrow> owns p t m c)"
proof -
  obtain t where "brelse b s = Ok () t" "cache_at p (insert bn B - {bn}) t" "tx_frame s t" "view t = view s"
      "klog t = klog s" "\<forall>m c. m \<noteq> bn \<longrightarrow> owns p s m c \<longrightarrow> owns p t m c"
    using tx_brelse[OF tx own _ clean] by blast
  moreover have "insert bn B - {bn} = B" using bn by blast
  ultimately show ?thesis by (intro exI[of _ t]) simp
qed

lemma tx_close_update:
  assumes tx: "cache_at p (insert bn B) s" and own: "owns p s bn b" and bn: "bn \<notin> B"
    and room: "room (Suc k) s" and len: "length d = BSIZE"
  shows "\<exists>u v t. set_data b d s = Ok () u \<and> log_write b u = Ok () v \<and> brelse b v = Ok () t \<and>
    cache_at p B t \<and> tx_frame s t \<and> view t = (view s)(bn := d) \<and> room k t \<and>
    log_homes (klog t) = insert bn (log_homes (klog s)) \<and> (\<forall>m c. m \<noteq> bn \<longrightarrow> owns p s m c \<longrightarrow> owns p t m c)"
proof -
  obtain u where u: "set_data b d s = Ok () u" "cache_at p (insert bn B) u" "tx_frame s u"
      "view u = (view s)(bn := d)" "klog u = klog s" "\<forall>m c. owns p s m c \<longrightarrow> owns p u m c"
    using tx_put[OF tx own len] by blast
  have ou: "owns p u bn b" and ru: "room (Suc k) u" using u(5,6) own room by (simp_all add: room_def)
  obtain v where v: "log_write b u = Ok () v" "cache_at p (insert bn B) v" "tx_frame u v" "view v = view u" "room k v"
      "log_homes (klog v) = insert bn (log_homes (klog u))" "\<forall>m c. owns p u m c \<longrightarrow> owns p v m c"
    using tx_log_write[OF u(2) ou ru] by blast
  obtain w where w: "brelse b v = Ok () w" "cache_at p B w" "tx_frame v w" "view w = view v"
      "klog w = klog v" "\<forall>m c. m \<noteq> bn \<longrightarrow> owns p v m c \<longrightarrow> owns p w m c"
    using tx_close[OF v(2) _ bn, of b] v(6,7) ou by blast
  have "tx_frame s w" using u(3) v(3) w(3) tx_frame_trans by blast
  moreover have "room k w" using v(5) w(5) by (simp add: room_def)
  ultimately show ?thesis using u v w by (intro exI[of _ u] exI[of _ v] exI[of _ w]) simp
qed

lemma tx_read:
  assumes tx: "cache_at p B s" and ch: "can_hold B bn s"
  shows "\<exists>b u t. bread ROOTDEV bn s = Ok b u \<and> buf_data b u = Ok (view s bn) u \<and> brelse b u = Ok () t \<and>
    cache_at p B t \<and> tx_frame s t \<and> view t = view s \<and> klog t = klog s \<and>
    (\<forall>m c. m \<noteq> bn \<longrightarrow> owns p s m c \<longrightarrow> owns p t m c)"
proof -
  have bn: "bn \<notin> B" using ch by (simp add: can_hold_def)
  obtain b t where t: "bread ROOTDEV bn s = Ok b t \<and> buf_data b t = Ok (view s bn) t"
      "cache_at p (insert bn B) t" "owns p t bn b" "tx_frame s t" "view t = view s" "klog t = klog s"
      "bn \<in> log_homes (klog t) \<or> view t bn = disk t bn" "\<forall>m c. m \<noteq> bn \<longrightarrow> owns p s m c \<longrightarrow> owns p t m c"
    using tx_open[OF tx ch] by blast
  obtain u where "brelse b t = Ok () u" "cache_at p B u" "tx_frame t u" "view u = view t"
      "klog u = klog t" "\<forall>m c. m \<noteq> bn \<longrightarrow> owns p t m c \<longrightarrow> owns p u m c"
    using tx_close[OF t(2,3) bn t(7)] by blast
  then show ?thesis using t tx_frame_trans[OF t(4)] by (intro exI[of _ b] exI[of _ t] exI[of _ u]) simp
qed

lemma tx_update:
  assumes tx: "cache_at p B s" and ch: "can_hold B bn s" and room: "room (Suc k) s"
    and len: "length d = BSIZE"
  shows "\<exists>b u v w t. bread ROOTDEV bn s = Ok b u \<and> buf_data b u = Ok (view s bn) u \<and>
    set_data b d u = Ok () v \<and> log_write b v = Ok () w \<and> brelse b w = Ok () t \<and>
    cache_at p B t \<and> tx_frame s t \<and> view t = (view s)(bn := d) \<and> room k t \<and>
    log_homes (klog t) = insert bn (log_homes (klog s)) \<and> (\<forall>m c. m \<noteq> bn \<longrightarrow> owns p s m c \<longrightarrow> owns p t m c)"
proof -
  have bn: "bn \<notin> B" using ch by (simp add: can_hold_def)
  obtain b t where t: "bread ROOTDEV bn s = Ok b t \<and> buf_data b t = Ok (view s bn) t"
      "cache_at p (insert bn B) t" "owns p t bn b" "tx_frame s t" "view t = view s" "klog t = klog s"
      "\<forall>m c. m \<noteq> bn \<longrightarrow> owns p s m c \<longrightarrow> owns p t m c"
    using tx_open[OF tx ch] by blast
  have "room (Suc k) t" using room t(6) by (simp add: room_def)
  then obtain u v w where "set_data b d t = Ok () v" "log_write b v = Ok () w" "brelse b w = Ok () u"
      "cache_at p B u" "tx_frame t u" "view u = (view t)(bn := d)" "room k u"
      "log_homes (klog u) = insert bn (log_homes (klog t))" "\<forall>m c. m \<noteq> bn \<longrightarrow> owns p t m c \<longrightarrow> owns p u m c"
    using tx_close_update[OF t(2,3) bn _ len] by blast
  then show ?thesis using t tx_frame_trans[OF t(4)]
    by (intro exI[of _ b] exI[of _ t] exI[of _ v] exI[of _ w] exI[of _ u]) simp
qed

text \<open>An update as the last action of an operation.\<close>

lemma mbind_ret_unit: "mbind m (\<lambda>_. ret ()) = m"
proof
  fix s show "mbind m (\<lambda>_. ret ()) s = m s" by (cases "m s") auto
qed

text \<open>A cache that has just been initialised, with an empty log.\<close>

lemma cache_fresh:
  assumes "in_proc p s" and "\<forall>bn. length (disk s bn) = BSIZE" and "log_ok (klog s)" and "log_n (klog s) = 0"
    and "bufs s = replicate NBUF empty_buf" and "lru s = rev [0..<NBUF]"
  shows "cache_at p {} s" and "view s = disk s"
proof -
  have "s\<lparr>bufs := replicate NBUF empty_buf, lru := rev [0..<NBUF]\<rparr> = s" using assms(5,6)[symmetric] by simp
  then have b: "binit s = Ok () s" using binit_Ok[of s] by simp
  obtain t where t: "binit s = Ok () t" "bc_inv t"
    "bc_obs t = \<lparr>c_view = disk s, c_disk = disk s, c_writes = dwrites s, c_refs = (\<lambda>_. 0), c_locked = (\<lambda>_. False), c_free = NBUF\<rparr>"
    using binit_fresh[of s] assms(2) by blast
  then have "t = s" using b by simp
  then have o: "view s = disk s" "rc s = (\<lambda>_. 0)" "lkd s = (\<lambda>_. False)" "nfree s = NBUF" "bc_inv s"
    using t(2) arg_cong[OF t(3), of c_view] arg_cong[OF t(3), of c_refs] arg_cong[OF t(3), of c_locked] arg_cong[OF t(3), of c_free]
    by simp_all
  show "view s = disk s" by (rule o)
  show "cache_at p {} s" using o assms by (simp add: cache_at_def bc_ready_def log_homes_def)
qed

end
