(* ===== verification/Blocks.thy ===== *)
theory Blocks
  imports Fs Trans
begin

text \<open>
  Block allocation (\<open>balloc\<close>, \<open>bfree\<close>, \<open>bzero\<close> of \<open>fs.c\<close>): the free map on disk as a set of used
  block numbers, and what the operations do to it inside a transaction.
\<close>

section \<open>Bits of a bitmap block\<close>

lemma bit_used_bit: "bit_used d i \<longleftrightarrow> bit (d ! (i div 8)) (i mod 8)"
  by (simp add: bit_used_def bit_iff_and_push_bit_not_eq_0)

lemma div8_mod8: "i div 8 = j div 8 \<Longrightarrow> i mod 8 = j mod 8 \<Longrightarrow> i = (j :: nat)"
  by (metis div_mult_mod_eq)

lemma bit_used_set_used:
  assumes "i div 8 < length d"
  shows "bit_used (set_used i d) j \<longleftrightarrow> j = i \<or> bit_used d j"
proof (cases "j div 8 = i div 8")
  case True
  then show ?thesis using assms div8_mod8[of j i]
    by (auto simp: bit_used_bit set_used_def bit_or_iff bit_exp_iff possible_bit_word)
next
  case False
  then show ?thesis by (auto simp: bit_used_bit set_used_def)
qed

lemma bit_used_set_free:
  assumes "i div 8 < length d"
  shows "bit_used (set_free i d) j \<longleftrightarrow> j \<noteq> i \<and> bit_used d j"
proof (cases "j div 8 = i div 8")
  case True
  have "bit (NOT (push_bit (i mod 8) 1) :: byte) k \<longleftrightarrow> k < 8 \<and> k \<noteq> i mod 8" for k
    by (auto simp: bit_not_iff bit_exp_iff possible_bit_word)
  then show ?thesis using True assms div8_mod8[of j i]
    by (auto simp: bit_used_bit set_free_def bit_and_iff)
next
  case False
  then show ?thesis by (auto simp: bit_used_bit set_free_def)
qed

lemma length_set_used [simp]: "length (set_used i d) = length d" "length (set_free i d) = length d"
  by (simp_all add: set_used_def set_free_def)

section \<open>The free map\<close>

text \<open>Block \<open>n\<close> is marked in the bitmap.\<close>

definition map_block :: "superblock \<Rightarrow> nat \<Rightarrow> u32" where
  "map_block x k = of_nat k + sb_bmapstart x"

definition used :: "superblock \<Rightarrow> (u32 \<Rightarrow> byte list) \<Rightarrow> nat \<Rightarrow> bool" where
  "used x v n \<longleftrightarrow> bit_used (v (map_block x (n div 8192))) (n mod 8192)"

text \<open>The layout of a file system that \<open>mkfs\<close> makes: the blocks of the bitmap lie outside the log and,
  as the log itself, are marked used.\<close>

definition fs_size :: "superblock \<Rightarrow> nat" where
  "fs_size x = unat (sb_size x)"

definition map_area :: "superblock \<Rightarrow> u32 set" where
  "map_area x = map_block x ` {..<(fs_size x + 8191) div 8192}"

definition fs_layout :: "superblock \<Rightarrow> log \<Rightarrow> (u32 \<Rightarrow> byte list) \<Rightarrow> bool" where
  "fs_layout x l v \<longleftrightarrow> map_area x \<inter> log_area l = {} \<and>
     (\<forall>b \<in> map_area x \<union> log_area l. unat b < fs_size x \<longrightarrow> used x v (unat b))"

lemma unat_BPB: "unat BPB = 8192"
  by (simp add: BPB_def)

lemma fs_size_lt: "fs_size x < 2 ^ 32"
  unfolding fs_size_def using unsigned_less[of "sb_size x"] by simp

lemma BBLOCK_map_block:
  assumes "n < 2 ^ 32"
  shows "BBLOCK (of_nat n) x = map_block x (n div 8192)" and "unat ((of_nat n :: u32) mod BPB) = n mod 8192"
proof -
  have u: "unat (of_nat n :: u32) = n" using assms by (simp add: unsigned_of_nat take_bit_nat_eq_self)
  have "unat (of_nat n div BPB :: u32) = n div 8192" using u by (simp add: unat_div unat_BPB)
  from arg_cong[OF this, of "of_nat :: nat \<Rightarrow> u32"] have "(of_nat n div BPB :: u32) = of_nat (n div 8192)" by simp
  then show "BBLOCK (of_nat n) x = map_block x (n div 8192)" by (simp add: BBLOCK_def map_block_def)
  show "unat ((of_nat n :: u32) mod BPB) = n mod 8192" using u by (simp add: unat_mod unat_BPB)
qed

lemma map_block_inj: "k < 2 ^ 32 \<Longrightarrow> j < 2 ^ 32 \<Longrightarrow> map_block x k = map_block x j \<longleftrightarrow> k = j"
proof -
  assume "k < 2 ^ 32" "j < 2 ^ 32"
  then have "(of_nat k :: u32) = of_nat j \<longleftrightarrow> k = j"
    by (auto simp: word_unat_eq_iff unsigned_of_nat take_bit_nat_eq_self)
  then show ?thesis by (simp add: map_block_def)
qed

lemma chunk_index: "n < sz \<Longrightarrow> n div 8192 < (sz + 8191) div (8192 :: nat)"
  by linarith

lemma map_areaI: "n < fs_size x \<Longrightarrow> map_block x (n div 8192) \<in> map_area x"
  by (simp add: map_area_def chunk_index)

text \<open>Changing one bit of the map, and changing a block outside it.\<close>

lemma used_update:
  assumes n: "n < fs_size x" and m: "m < fs_size x" and len: "length (v (map_block x (n div 8192))) = BSIZE"
  shows "used x (v(map_block x (n div 8192) := set_used (n mod 8192) (v (map_block x (n div 8192))))) m \<longleftrightarrow> m = n \<or> used x v m"
    and "used x (v(map_block x (n div 8192) := set_free (n mod 8192) (v (map_block x (n div 8192))))) m \<longleftrightarrow> m \<noteq> n \<and> used x v m"
proof -
  have i: "n mod 8192 div 8 < length (v (map_block x (n div 8192)))" using len by (simp add: BSIZE_def)
  have eq: "m div 8192 = n div 8192 \<and> m mod 8192 = n mod 8192 \<longleftrightarrow> m = n" by (metis div_mult_mod_eq)
  have "map_block x (m div 8192) = map_block x (n div 8192) \<longleftrightarrow> m div 8192 = n div 8192"
    using n m fs_size_lt[of x] by (intro map_block_inj) linarith+
  then show "used x (v(map_block x (n div 8192) := set_used (n mod 8192) (v (map_block x (n div 8192))))) m \<longleftrightarrow> m = n \<or> used x v m"
    "used x (v(map_block x (n div 8192) := set_free (n mod 8192) (v (map_block x (n div 8192))))) m \<longleftrightarrow> m \<noteq> n \<and> used x v m"
    using eq bit_used_set_used[OF i] bit_used_set_free[OF i] by (auto simp: used_def)
qed

lemma used_other: "b \<notin> map_area x \<Longrightarrow> n < fs_size x \<Longrightarrow> used x (v(b := d)) n = used x v n"
  using map_areaI[of n x] by (auto simp: used_def)

section \<open>Allocating a block\<close>

lemma bzero_Ok:
  assumes tx: "cache_at p B s" and ch: "can_hold B bn s" and room: "room (Suc k) s"
  shows "\<exists>t. bzero ROOTDEV bn s = Ok () t \<and> cache_at p B t \<and> tx_frame s t \<and> view t = (view s)(bn := replicate BSIZE 0) \<and>
    room k t \<and> log_homes (klog t) = insert bn (log_homes (klog s)) \<and> (\<forall>m c. m \<noteq> bn \<longrightarrow> owns p s m c \<longrightarrow> owns p t m c)"
proof -
  obtain b u v w t where t: "bread ROOTDEV bn s = Ok b u" "set_data b (replicate BSIZE 0) u = Ok () v" "log_write b v = Ok () w"
      "brelse b w = Ok () t" and rest: "cache_at p B t" "tx_frame s t" "view t = (view s)(bn := replicate BSIZE 0)" "room k t"
      "log_homes (klog t) = insert bn (log_homes (klog s))" "\<forall>m c. m \<noteq> bn \<longrightarrow> owns p s m c \<longrightarrow> owns p t m c"
    using tx_update[OF tx ch room, of "replicate BSIZE 0"] by auto
  have "bzero ROOTDEV bn s = Ok () t" using t by (simp add: bzero_def)
  then show ?thesis using rest by blast
qed

text \<open>The part of the map that one pass of the outer loop looks at.\<close>

lemma used_chunk: "bi < 8192 \<Longrightarrow> used x v (8192 * i + bi) \<longleftrightarrow> bit_used (v (map_block x i)) bi"
  by (simp add: used_def)

definition chunk_bits :: "superblock \<Rightarrow> nat \<Rightarrow> nat" where
  "chunk_bits x i = min 8192 (fs_size x - i * 8192)"

lemma chunk_find:
  "find (\<lambda>bi. \<not> bit_used (v (map_block x i)) bi) [0..<chunk_bits x i] = Some bi \<Longrightarrow>
     8192 * i + bi < fs_size x \<and> \<not> used x v (8192 * i + bi) \<and> bi < 8192 \<and> (\<forall>m. 8192 * i \<le> m \<and> m < 8192 * i + bi \<longrightarrow> used x v m)"
  "find (\<lambda>bi. \<not> bit_used (v (map_block x i)) bi) [0..<chunk_bits x i] = None \<Longrightarrow>
     \<forall>m. 8192 * i \<le> m \<and> m < min (8192 * Suc i) (fs_size x) \<longrightarrow> used x v m"
proof -
  assume f: "find (\<lambda>bi. \<not> bit_used (v (map_block x i)) bi) [0..<chunk_bits x i] = Some bi"
  then have bi: "bi < chunk_bits x i" "\<not> bit_used (v (map_block x i)) bi" "\<forall>j<bi. bit_used (v (map_block x i)) j"
    by (auto simp: find_Some_iff)
  have "used x v m" if "8192 * i \<le> m" "m < 8192 * i + bi" for m
  proof -
    have "m - 8192 * i < 8192" "m - 8192 * i < bi" using that bi(1) unfolding chunk_bits_def by linarith+
    then show ?thesis using used_chunk[of "m - 8192 * i" x v i] that(1) bi(3) by simp
  qed
  then show "8192 * i + bi < fs_size x \<and> \<not> used x v (8192 * i + bi) \<and> bi < 8192 \<and> (\<forall>m. 8192 * i \<le> m \<and> m < 8192 * i + bi \<longrightarrow> used x v m)"
    using bi used_chunk[of bi x v i] by (auto simp: chunk_bits_def)
next
  assume f: "find (\<lambda>bi. \<not> bit_used (v (map_block x i)) bi) [0..<chunk_bits x i] = None"
  then have b: "\<forall>j<chunk_bits x i. bit_used (v (map_block x i)) j" by (auto simp: find_None_iff)
  show "\<forall>m. 8192 * i \<le> m \<and> m < min (8192 * Suc i) (fs_size x) \<longrightarrow> used x v m"
  proof (intro allI impI)
    fix m assume "8192 * i \<le> m \<and> m < min (8192 * Suc i) (fs_size x)"
    then show "used x v m" using used_chunk[of "m - 8192 * i" x v i] b by (auto simp: chunk_bits_def)
  qed
qed

text \<open>The setting of an allocation while the blocks \<open>B\<close> are held.\<close>

definition alloc_ready :: "nat \<Rightarrow> u32 set \<Rightarrow> kstate \<Rightarrow> bool" where
  "alloc_ready p B s \<longleftrightarrow> cache_at p B s \<and> fs_layout (sb s) (klog s) (view s) \<and> B \<inter> map_area (sb s) = {} \<and>
     (\<forall>b \<in> B. unat b < fs_size (sb s) \<longrightarrow> used (sb s) (view s) (unat b))"

definition alloc_map :: "superblock \<Rightarrow> nat \<Rightarrow> (u32 \<Rightarrow> byte list) \<Rightarrow> u32 \<Rightarrow> byte list" where
  "alloc_map x n v = v(map_block x (n div 8192) := set_used (n mod 8192) (v (map_block x (n div 8192))), of_nat n := replicate BSIZE 0)"

lemma alloc_found:
  assumes rdy: "alloc_ready p B s" and room: "room (Suc (Suc k)) s" and B: "card B \<le> k"
    and n: "n < fs_size (sb s)" "\<not> used (sb s) (view s) n" and i: "i = n div 8192"
    and find: "find (\<lambda>bi. \<not> bit_used (view s (map_block (sb s) i)) bi) [0..<chunk_bits (sb s) i] = Some (n mod 8192)"
  shows "\<exists>t. balloc_loop ROOTDEV (fs_size (sb s)) (i * 8192 # rest) s = Ok (of_nat n) t \<and>
    cache_at p B t \<and> tx_frame s t \<and> room k t \<and> view t = alloc_map (sb s) n (view s) \<and>
    log_homes (klog t) = {map_block (sb s) i, of_nat n} \<union> log_homes (klog s) \<and> (\<forall>m c. m \<in> B \<longrightarrow> owns p s m c \<longrightarrow> owns p t m c)"
proof -
  let ?x = "sb s" let ?mb = "map_block ?x i"
  have tx: "cache_at p B s" and lay: "fs_layout ?x (klog s) (view s)" using rdy by (simp_all add: alloc_ready_def)
  have lt: "n < 2 ^ 32" using n(1) fs_size_lt[of ?x] by simp
  have un: "unat (of_nat n :: u32) = n" using lt by (simp add: unsigned_of_nat take_bit_nat_eq_self)
  have mb: "?mb \<in> map_area ?x" using map_areaI[OF n(1)] i by simp
  have mB: "?mb \<notin> B" "?mb \<notin> log_area (klog s)" using mb rdy lay by (auto simp: alloc_ready_def fs_layout_def)
  have nB: "of_nat n \<notin> B" "of_nat n \<notin> log_area (klog s)"
    using n un rdy lay unfolding alloc_ready_def fs_layout_def by (metis UnI2)+
  have len: "length (set_used (n mod 8192) (view s ?mb)) = BSIZE" using tx by (simp add: cache_at_def bc_ready_def)
  have "room (Suc (card B)) s" using room_mono[OF room] B by simp
  then have ch: "can_hold B ?mb s" using can_hold_room[OF tx] mB by blast
  obtain b u v w t where t: "bread ROOTDEV ?mb s = Ok b u" "buf_data b u = Ok (view s ?mb) u"
      "set_data b (set_used (n mod 8192) (view s ?mb)) u = Ok () v" "log_write b v = Ok () w" "brelse b w = Ok () t"
      "cache_at p B t" "tx_frame s t" "view t = (view s)(?mb := set_used (n mod 8192) (view s ?mb))" "room (Suc k) t"
      "log_homes (klog t) = insert ?mb (log_homes (klog s))" "\<forall>m c. m \<noteq> ?mb \<longrightarrow> owns p s m c \<longrightarrow> owns p t m c"
    using tx_update[OF tx ch room len] by blast
  have "room (Suc (card B)) t" using room_mono[OF t(9)] B by simp
  then have "can_hold B (of_nat n) t" using can_hold_room[OF t(6)] nB tx_frameD(14)[OF t(7)] by blast
  then obtain t' where t': "bzero ROOTDEV (of_nat n) t = Ok () t'" "cache_at p B t'" "tx_frame t t'"
      "view t' = (view t)(of_nat n := replicate BSIZE 0)" "room k t'" "log_homes (klog t') = insert (of_nat n) (log_homes (klog t))"
      "\<forall>m c. m \<noteq> of_nat n \<longrightarrow> owns p t m c \<longrightarrow> owns p t' m c"
    using bzero_Ok[OF t(6) _ t(9)] by blast
  have d: "i * 8192 + n mod 8192 = n" unfolding i by simp
  have "BBLOCK (of_nat (i * 8192)) ?x = ?mb" using BBLOCK_map_block(1)[of "i * 8192"] lt i by simp
  then have run: "balloc_loop ROOTDEV (fs_size ?x) (i * 8192 # rest) s = Ok (of_nat n) t'"
    using find t(1-5) t'(1) unfolding chunk_bits_def by (simp add: unat_BPB d del: of_nat_mult)
  have "view t' = alloc_map ?x n (view s)" using t(8) t'(4) i by (simp add: alloc_map_def)
  moreover have "log_homes (klog t') = {?mb, of_nat n} \<union> log_homes (klog s)" using t(10) t'(6) by auto
  moreover have "\<forall>m c. m \<in> B \<longrightarrow> owns p s m c \<longrightarrow> owns p t' m c" using t(11) t'(7) mB(1) nB(1) by metis
  ultimately show ?thesis using run t'(2,5) tx_frame_trans[OF t(7) t'(3)] by blast
qed

lemma alloc_pass:
  assumes rdy: "alloc_ready p B s" and room: "room (Suc (card B)) s" and i: "i < (fs_size (sb s) + 8191) div 8192"
    and find: "find (\<lambda>bi. \<not> bit_used (view s (map_block (sb s) i)) bi) [0..<chunk_bits (sb s) i] = None"
  shows "\<exists>t. balloc_loop ROOTDEV (fs_size (sb s)) (i * 8192 # rest) s = balloc_loop ROOTDEV (fs_size (sb s)) rest t \<and>
    cache_at p B t \<and> tx_frame s t \<and> klog t = klog s \<and> view t = view s \<and> (\<forall>m c. m \<in> B \<longrightarrow> owns p s m c \<longrightarrow> owns p t m c)"
proof -
  let ?x = "sb s" let ?mb = "map_block ?x i"
  have tx: "cache_at p B s" and lay: "fs_layout ?x (klog s) (view s)" using rdy by (simp_all add: alloc_ready_def)
  have lt: "i * 8192 < 2 ^ 32" using i fs_size_lt[of ?x] by linarith
  have mb: "?mb \<in> map_area ?x" using i by (simp add: map_area_def)
  have mB: "?mb \<notin> B" "?mb \<notin> log_area (klog s)" using mb rdy lay by (auto simp: alloc_ready_def fs_layout_def)
  then have ch: "can_hold B ?mb s" using can_hold_room[OF tx room] by blast
  obtain b u t where t: "bread ROOTDEV ?mb s = Ok b u" "buf_data b u = Ok (view s ?mb) u" "brelse b u = Ok () t"
      "cache_at p B t" "tx_frame s t" "view t = view s" "klog t = klog s" "\<forall>m c. m \<noteq> ?mb \<longrightarrow> owns p s m c \<longrightarrow> owns p t m c"
    using tx_read[OF tx ch] by blast
  have "BBLOCK (of_nat (i * 8192)) ?x = ?mb" using BBLOCK_map_block(1)[OF lt] by simp
  then have "balloc_loop ROOTDEV (fs_size ?x) (i * 8192 # rest) s = balloc_loop ROOTDEV (fs_size ?x) rest t"
    using find t(1-3) unfolding chunk_bits_def by (simp add: unat_BPB del: of_nat_mult)
  moreover have "\<forall>m c. m \<in> B \<longrightarrow> owns p s m c \<longrightarrow> owns p t m c" using t(8) mB(1) by metis
  ultimately show ?thesis using t(4-7) by (intro exI[of _ t]) (simp only: simp_thms)
qed

lemma alloc_ready_frame:
  assumes "alloc_ready p B s" and "cache_at p B t" and "tx_frame s t" and "klog t = klog s" and "view t = view s"
  shows "alloc_ready p B t"
  using assms tx_frameD(3)[OF assms(3)] by (simp add: alloc_ready_def)

text \<open>What an allocation of block \<open>n\<close> leaves.\<close>

definition allocated :: "nat \<Rightarrow> u32 set \<Rightarrow> nat \<Rightarrow> nat \<Rightarrow> kstate \<Rightarrow> kstate \<Rightarrow> bool" where
  "allocated p B k n s t \<longleftrightarrow> cache_at p B t \<and> tx_frame s t \<and> room k t \<and> view t = alloc_map (sb s) n (view s) \<and>
     log_homes (klog t) = {map_block (sb s) (n div 8192), of_nat n} \<union> log_homes (klog s) \<and>
     (\<forall>m c. m \<in> B \<longrightarrow> owns p s m c \<longrightarrow> owns p t m c)"

lemma allocated_frame:
  assumes "cache_at p B t" "tx_frame s t" "klog t = klog s" "view t = view s" "\<forall>m c. m \<in> B \<longrightarrow> owns p s m c \<longrightarrow> owns p t m c"
    and "allocated p B k n t u"
  shows "allocated p B k n s u"
  using assms tx_frame_trans[OF assms(2)] tx_frameD(3)[OF assms(2)] by (simp add: allocated_def)

lemma balloc_loop_Ok:
  assumes "alloc_ready p B s" and "room (Suc (Suc k)) s" and "card B \<le> k"
    and "n < fs_size (sb s)" and "\<not> used (sb s) (view s) n" and "\<forall>m<n. used (sb s) (view s) m" and "i \<le> n div 8192"
  shows "\<exists>t. balloc_loop ROOTDEV (fs_size (sb s)) (map (\<lambda>k. k * 8192) [i..<(fs_size (sb s) + 8191) div 8192]) s = Ok (of_nat n) t \<and>
    allocated p B k n s t"
  using assms
proof (induction "n div 8192 - i" arbitrary: i s)
  case 0
  let ?x = "sb s"
  have i: "i = n div 8192" using 0 by simp
  have lt: "i < (fs_size ?x + 8191) div 8192" using chunk_index[OF 0(5)] i by simp
  have "find (\<lambda>bi. \<not> bit_used (view s (map_block ?x i)) bi) [0..<chunk_bits ?x i] = Some (n mod 8192)"
  proof -
    have "n mod 8192 < chunk_bits ?x i" using 0(5) mult_div_mod_eq[of 8192 n] mod_less_divisor[of 8192 n] unfolding chunk_bits_def i by linarith
    moreover have "\<not> bit_used (view s (map_block ?x i)) (n mod 8192)" using 0(6) i by (simp add: used_def)
    moreover have "bit_used (view s (map_block ?x i)) j" if "j < n mod 8192" for j
    proof -
      have j: "j < 8192" using that mod_less_divisor[of 8192 n] by linarith
      have "8192 * i + j < n" using that mult_div_mod_eq[of 8192 n] unfolding i by linarith
      then show ?thesis using 0(7) used_chunk[OF j, of ?x "view s" i] by simp
    qed
    ultimately show ?thesis by (intro find_Some_iff[THEN iffD2]) (auto intro!: exI[of _ "n mod 8192"])
  qed
  from alloc_found[OF 0(2-6) i this] show ?case
    using lt i by (simp only: upt_conv_Cons list.map allocated_def)
next
  case (Suc d)
  let ?x = "sb s"
  have i: "i < n div 8192" using Suc(2) by linarith
  have lt: "i < (fs_size ?x + 8191) div 8192" using chunk_index[OF Suc(6)] i by simp
  have "find (\<lambda>bi. \<not> bit_used (view s (map_block ?x i)) bi) [0..<chunk_bits ?x i] = None"
  proof (rule ccontr)
    assume "find (\<lambda>bi. \<not> bit_used (view s (map_block ?x i)) bi) [0..<chunk_bits ?x i] \<noteq> None"
    then obtain bi where f: "find (\<lambda>bi. \<not> bit_used (view s (map_block ?x i)) bi) [0..<chunk_bits ?x i] = Some bi" by blast
    have "8192 * i + bi < n" using chunk_find(1)[where v = "view s", OF f] i by linarith
    then show False using chunk_find(1)[where v = "view s", OF f] Suc(8) by blast
  qed
  moreover have "room (Suc (card B)) s" using room_mono[OF Suc(4)] Suc(5) by simp
  ultimately obtain t where t: "balloc_loop ROOTDEV (fs_size ?x) (i * 8192 # map (\<lambda>k. k * 8192) [Suc i..<(fs_size ?x + 8191) div 8192]) s
        = balloc_loop ROOTDEV (fs_size ?x) (map (\<lambda>k. k * 8192) [Suc i..<(fs_size ?x + 8191) div 8192]) t"
      "cache_at p B t" "tx_frame s t" "klog t = klog s" "view t = view s" "\<forall>m c. m \<in> B \<longrightarrow> owns p s m c \<longrightarrow> owns p t m c"
    using alloc_pass[OF Suc(3) _ lt] by blast
  have sb: "sb t = ?x" using tx_frameD(3)[OF t(3)] .
  have "room (Suc (Suc k)) t" using Suc(4) t(4) by (simp add: room_def)
  moreover have "d = n div 8192 - Suc i" using Suc(2) by linarith
  ultimately obtain u where u: "balloc_loop ROOTDEV (fs_size ?x) (map (\<lambda>k. k * 8192) [Suc i..<(fs_size ?x + 8191) div 8192]) t = Ok (of_nat n) u"
      "allocated p B k n t u"
    using Suc(1)[of "Suc i" t, unfolded sb t(5)] Suc(2,5-8) i alloc_ready_frame[OF Suc(3) t(2-5)] by auto
  show ?case using t(1) u(1) allocated_frame[OF t(2-6) u(2)] lt by (simp only: upt_conv_Cons list.map) blast
qed

lemma balloc_unfold: "balloc dev s = balloc_loop dev (fs_size (sb s)) (map (\<lambda>k. k * 8192) [0..<(fs_size (sb s) + 8191) div 8192]) s"
  by (simp add: balloc_def fs_size_def unat_BPB add.commute)

lemma balloc_Ok:
  assumes "alloc_ready p B s" and "room (Suc (Suc k)) s" and "card B \<le> k"
    and "n < fs_size (sb s)" and "\<not> used (sb s) (view s) n" and "\<forall>m<n. used (sb s) (view s) m"
  shows "\<exists>t. balloc ROOTDEV s = Ok (of_nat n) t \<and> allocated p B k n s t"
  using balloc_loop_Ok[OF assms, of 0] by (simp add: balloc_unfold)

text \<open>No free block: the message is printed and 0 returned.\<close>

lemma balloc_loop_full:
  assumes "alloc_ready p B s" and "room (Suc (card B)) s" and "\<forall>m < fs_size (sb s). used (sb s) (view s) m"
    and "i \<le> (fs_size (sb s) + 8191) div 8192"
  shows "\<exists>t. balloc_loop ROOTDEV (fs_size (sb s)) (map (\<lambda>k. k * 8192) [i..<(fs_size (sb s) + 8191) div 8192]) s
      = Ok 0 (t\<lparr>uart_out := uart_out s @ map of_char ''balloc: out of blocks\<newline>''\<rparr>) \<and>
    cache_at p B t \<and> tx_frame s t \<and> klog t = klog s \<and> view t = view s \<and> (\<forall>m c. m \<in> B \<longrightarrow> owns p s m c \<longrightarrow> owns p t m c)"
  using assms
proof (induction "(fs_size (sb s) + 8191) div 8192 - i" arbitrary: i s)
  case 0
  then have "cache_at p B s" by (simp add: alloc_ready_def)
  with 0 show ?case by (intro exI[of _ s]) (simp add: kprint_def)
next
  case (Suc d)
  let ?x = "sb s"
  have lt: "i < (fs_size ?x + 8191) div 8192" using Suc(2) by linarith
  have "find (\<lambda>bi. \<not> bit_used (view s (map_block ?x i)) bi) [0..<chunk_bits ?x i] = None"
  proof (rule ccontr)
    assume "find (\<lambda>bi. \<not> bit_used (view s (map_block ?x i)) bi) [0..<chunk_bits ?x i] \<noteq> None"
    then obtain bi where f: "find (\<lambda>bi. \<not> bit_used (view s (map_block ?x i)) bi) [0..<chunk_bits ?x i] = Some bi" by blast
    then show False using chunk_find(1)[where v = "view s", OF f] Suc(5) by blast
  qed
  then obtain t where t: "balloc_loop ROOTDEV (fs_size ?x) (i * 8192 # map (\<lambda>k. k * 8192) [Suc i..<(fs_size ?x + 8191) div 8192]) s
        = balloc_loop ROOTDEV (fs_size ?x) (map (\<lambda>k. k * 8192) [Suc i..<(fs_size ?x + 8191) div 8192]) t"
      "cache_at p B t" "tx_frame s t" "klog t = klog s" "view t = view s" "\<forall>m c. m \<in> B \<longrightarrow> owns p s m c \<longrightarrow> owns p t m c"
    using alloc_pass[OF Suc(3,4) lt] by blast
  have sb: "sb t = ?x" and out: "uart_out t = uart_out s" using tx_frameD[OF t(3)] by simp_all
  have "room (Suc (card B)) t" using Suc(4) t(4) by (simp add: room_def)
  moreover have "d = (fs_size ?x + 8191) div 8192 - Suc i" "Suc i \<le> (fs_size ?x + 8191) div 8192" using Suc(2) by linarith+
  ultimately obtain u where u: "balloc_loop ROOTDEV (fs_size ?x) (map (\<lambda>k. k * 8192) [Suc i..<(fs_size ?x + 8191) div 8192]) t
        = Ok 0 (u\<lparr>uart_out := uart_out s @ map of_char ''balloc: out of blocks\<newline>''\<rparr>)"
      "cache_at p B u" "tx_frame t u" "klog u = klog t" "view u = view s" "\<forall>m c. m \<in> B \<longrightarrow> owns p t m c \<longrightarrow> owns p u m c"
    using Suc(1)[of t "Suc i", unfolded sb t(5) out] Suc(5) alloc_ready_frame[OF Suc(3) t(2-5)] by blast
  have "\<forall>m c. m \<in> B \<longrightarrow> owns p s m c \<longrightarrow> owns p u m c" using t(6) u(6) by metis
  then show ?case using t(1,4) u(1,2,4,5) tx_frame_trans[OF t(3) u(3)] lt
    by (intro exI[of _ u]) (simp only: upt_conv_Cons list.map simp_thms)
qed

lemma balloc_full:
  assumes "alloc_ready p B s" and "room (Suc (card B)) s" and "\<forall>m < fs_size (sb s). used (sb s) (view s) m"
  shows "\<exists>t. balloc ROOTDEV s = Ok 0 (t\<lparr>uart_out := uart_out s @ map of_char ''balloc: out of blocks\<newline>''\<rparr>) \<and>
    cache_at p B t \<and> tx_frame s t \<and> klog t = klog s \<and> view t = view s \<and> (\<forall>m c. m \<in> B \<longrightarrow> owns p s m c \<longrightarrow> owns p t m c)"
  using balloc_loop_full[OF assms, of 0] by (simp add: balloc_unfold)

section \<open>Freeing a block\<close>

lemma bfree_Ok:
  assumes rdy: "alloc_ready p B s" and room: "room (Suc k) s" and B: "card B \<le> k"
    and n: "n < fs_size (sb s)" "used (sb s) (view s) n"
  shows "\<exists>t. bfree ROOTDEV (of_nat n) s = Ok () t \<and> cache_at p B t \<and> tx_frame s t \<and> room k t \<and>
    view t = (view s)(map_block (sb s) (n div 8192) := set_free (n mod 8192) (view s (map_block (sb s) (n div 8192)))) \<and>
    log_homes (klog t) = insert (map_block (sb s) (n div 8192)) (log_homes (klog s)) \<and>
    (\<forall>m c. m \<in> B \<longrightarrow> owns p s m c \<longrightarrow> owns p t m c)"
proof -
  let ?x = "sb s" let ?mb = "map_block ?x (n div 8192)"
  have tx: "cache_at p B s" and lay: "fs_layout ?x (klog s) (view s)" using rdy by (simp_all add: alloc_ready_def)
  have lt: "n < 2 ^ 32" using n(1) fs_size_lt[of ?x] by simp
  have mb: "?mb \<notin> B" "?mb \<notin> log_area (klog s)" using map_areaI[OF n(1)] rdy lay by (auto simp: alloc_ready_def fs_layout_def)
  have "room (Suc (card B)) s" using room_mono[OF room] B by simp
  then have ch: "can_hold B ?mb s" using can_hold_room[OF tx] mb by blast
  have len: "length (set_free (n mod 8192) (view s ?mb)) = BSIZE" using tx by (simp add: cache_at_def bc_ready_def)
  obtain b u v w t where t: "bread ROOTDEV ?mb s = Ok b u" "buf_data b u = Ok (view s ?mb) u"
      "set_data b (set_free (n mod 8192) (view s ?mb)) u = Ok () v" "log_write b v = Ok () w" "brelse b w = Ok () t"
      "cache_at p B t" "tx_frame s t" "view t = (view s)(?mb := set_free (n mod 8192) (view s ?mb))" "room k t"
      "log_homes (klog t) = insert ?mb (log_homes (klog s))" "\<forall>m c. m \<noteq> ?mb \<longrightarrow> owns p s m c \<longrightarrow> owns p t m c"
    using tx_update[OF tx ch room len] by blast
  have "bfree ROOTDEV (of_nat n) s = Ok () t"
    using t(1-5) n(2) by (simp add: bfree_def BBLOCK_map_block[OF lt] used_def)
  moreover have "\<forall>m c. m \<in> B \<longrightarrow> owns p s m c \<longrightarrow> owns p t m c" using t(11) mb(1) by metis
  ultimately show ?thesis using t(6-10) by blast
qed

lemma bfree_free:
  assumes rdy: "alloc_ready p B s" and room: "room (Suc (card B)) s" and n: "n < fs_size (sb s)" "\<not> used (sb s) (view s) n"
  shows "bfree ROOTDEV (of_nat n) s = Panic ''freeing free block''"
proof -
  let ?x = "sb s" let ?mb = "map_block ?x (n div 8192)"
  have tx: "cache_at p B s" and lay: "fs_layout ?x (klog s) (view s)" using rdy by (simp_all add: alloc_ready_def)
  have lt: "n < 2 ^ 32" using n(1) fs_size_lt[of ?x] by simp
  have mb: "?mb \<notin> B" "?mb \<notin> log_area (klog s)" using map_areaI[OF n(1)] rdy lay by (auto simp: alloc_ready_def fs_layout_def)
  then have ch: "can_hold B ?mb s" using can_hold_room[OF tx room] by blast
  obtain b t where "bread ROOTDEV ?mb s = Ok b t" "buf_data b t = Ok (view s ?mb) t" using tx_open[OF tx ch] by blast
  then show ?thesis using n(2) by (simp add: bfree_def BBLOCK_map_block[OF lt] used_def)
qed

section \<open>The free map after an allocation or a release\<close>

lemma of_nat_free:
  assumes "fs_layout x l v" and "n < fs_size x" and "\<not> used x v n"
  shows "of_nat n \<notin> map_area x" and "unat (of_nat n :: u32) = n"
proof -
  have "n < 2 ^ 32" using assms(2) fs_size_lt[of x] by simp
  then show u: "unat (of_nat n :: u32) = n" by (simp add: unsigned_of_nat take_bit_nat_eq_self)
  show "of_nat n \<notin> map_area x" using assms u unfolding fs_layout_def by (metis UnI1)
qed

lemma used_alloc_map:
  assumes lay: "fs_layout x l v" and n: "n < fs_size x" "\<not> used x v n" and m: "m < fs_size x"
    and len: "length (v (map_block x (n div 8192))) = BSIZE"
  shows "used x (alloc_map x n v) m \<longleftrightarrow> m = n \<or> used x v m"
  using used_other[OF of_nat_free(1)[OF lay n] m] used_update(1)[OF n(1) m, of v, OF len] by (simp add: alloc_map_def)

lemma alloc_ready_allocated:
  assumes rdy: "alloc_ready p B s" and n: "n < fs_size (sb s)" "\<not> used (sb s) (view s) n" and a: "allocated p B k n s t"
  shows "alloc_ready p B t"
proof -
  have lay: "fs_layout (sb s) (klog s) (view s)" using rdy by (simp add: alloc_ready_def)
  have f: "sb t = sb s" "log_area (klog t) = log_area (klog s)" using a tx_frameD[of s t] by (auto simp: allocated_def)
  have "length (view s (map_block (sb s) (n div 8192))) = BSIZE" using rdy by (simp add: alloc_ready_def cache_at_def bc_ready_def)
  then have u: "used (sb s) (view t) m \<longleftrightarrow> m = n \<or> used (sb s) (view s) m" if "m < fs_size (sb s)" for m
    using used_alloc_map[OF lay n that] a by (simp add: allocated_def)
  then have "fs_layout (sb t) (klog t) (view t)" using lay f unfolding fs_layout_def by auto
  then show ?thesis using rdy a u f(1) by (auto simp: alloc_ready_def allocated_def)
qed

lemma first_free:
  assumes "n < (sz :: nat)" and "\<not> P n"
  obtains m where "m < sz" "\<not> P m" "\<forall>k<m. P k"
  using assms exists_least_iff[of "\<lambda>m. m < sz \<and> \<not> P m"] by (metis order.strict_trans)


text \<open>
  C9: releasing a block. For a block number of the file system, \<open>bfree\<close> clears exactly the mark of
  that block when it is marked used, and panics when it is already free.
\<close>

theorem bfree_frees:
  assumes rdy: "alloc_ready p {} s" and room: "room 1 s" and n: "n < fs_size (sb s)"
  shows "if used (sb s) (view s) n then
      \<exists>t. bfree ROOTDEV (of_nat n) s = Ok () t \<and> cache_at p {} t \<and> disk t = disk s \<and>
        (\<forall>m < fs_size (sb s). used (sb s) (view t) m \<longleftrightarrow> m \<noteq> n \<and> used (sb s) (view s) m) \<and>
        (\<forall>b. b \<notin> map_area (sb s) \<longrightarrow> view t b = view s b)
    else bfree ROOTDEV (of_nat n) s = Panic ''freeing free block''"
proof (cases "used (sb s) (view s) n")
  case True
  obtain t where t: "bfree ROOTDEV (of_nat n) s = Ok () t" "cache_at p {} t" "tx_frame s t"
      "view t = (view s)(map_block (sb s) (n div 8192) := set_free (n mod 8192) (view s (map_block (sb s) (n div 8192))))"
    using bfree_Ok[OF rdy _ _ n True, of 0] room by auto
  have len: "length (view s (map_block (sb s) (n div 8192))) = BSIZE" using rdy by (simp add: alloc_ready_def cache_at_def bc_ready_def)
  have "\<forall>m < fs_size (sb s). used (sb s) (view t) m \<longleftrightarrow> m \<noteq> n \<and> used (sb s) (view s) m"
    using used_update(2)[where v = "view s", OF n _ len] unfolding t(4) by blast
  moreover have "\<forall>b. b \<notin> map_area (sb s) \<longrightarrow> view t b = view s b" using map_areaI[OF n] by (auto simp: t(4))
  ultimately show ?thesis using True t(1,2) tx_frameD(10)[OF t(3)] by auto
next
  case False
  then show ?thesis using bfree_free[OF rdy _ n False] room by simp
qed

section \<open>An example file system\<close>

text \<open>A small file system with the log at block 2 and the bitmap at block 45, of which the first 48
  blocks are used, and a transaction open.\<close>

definition fs_sb :: superblock where
  "fs_sb = \<lparr>sb_magic = FSMAGIC, sb_size = 2000, sb_nblocks = 1954, sb_ninodes = 200, sb_nlog = 30, sb_logstart = 2,
     sb_inodestart = 32, sb_bmapstart = 45\<rparr>"

definition fs_map :: "byte list" where
  "fs_map = replicate 6 255 @ replicate 1018 0"

definition fs_log :: log where
  "fs_log = \<lparr>l_start = 2, l_size = 30, l_outstanding = 1, l_committing = False, l_dev = ROOTDEV,
     l_lh = \<lparr>lh_n = 0, lh_block = replicate LOGSIZE 0\<rparr>\<rparr>"

definition fs_state :: kstate where
  "fs_state = fresh_state\<lparr>disk := (\<lambda>bn. if bn = 45 then fs_map else replicate BSIZE 0), sb := fs_sb, klog := fs_log\<rparr>"

lemma fs_cache: "cache_at 0 {} fs_state" "view fs_state = disk fs_state"
proof -
  have l: "log_ok fs_log" "log_n fs_log = 0" by (simp_all add: log_ok_def fs_log_def log_n_def log_cap_def const_defs)
  have "\<forall>bn. length (disk fs_state bn) = BSIZE" by (simp add: fs_state_def fs_map_def BSIZE_def)
  moreover have "in_proc 0 fs_state" using fresh_state_ready(1) by (simp add: bc_ready_def in_proc_def fs_state_def)
  ultimately show "cache_at 0 {} fs_state" "view fs_state = disk fs_state"
    using cache_fresh[of 0 fs_state] l by (simp_all add: fs_state_def fresh_state_def)
qed

lemma fs_room: "room 10 fs_state"
  by (simp add: room_def fs_state_def fs_log_def log_n_def LOGSIZE_def)

lemma fs_areas: "map_area fs_sb = {45}" "b \<in> log_area fs_log \<Longrightarrow> unat b < 32"
proof -
  have "fs_size fs_sb = 2000" by (simp add: fs_size_def fs_sb_def)
  then show "map_area fs_sb = {45}" by (simp add: map_area_def lessThan_Suc map_block_def fs_sb_def)
  assume "b \<in> log_area fs_log"
  then consider "b = 2" | i where "i < 29" "b = 2 + of_nat i + 1"
    by (auto simp: log_area_def log_blk_def fs_log_def log_cap_def LOGSIZE_def)
  then show "unat b < 32"
  proof cases
    case 2
    then have "unat b = i + 3" by (simp add: unat_word_ariths unsigned_of_nat take_bit_eq_mod)
    then show ?thesis using 2 by auto
  qed simp
qed

lemma fs_used: "n < 8192 \<Longrightarrow> used fs_sb (view fs_state) n \<longleftrightarrow> n < 48"
proof -
  assume n: "n < 8192"
  have "bit (255 :: byte) j" if "j < 8" for j
  proof -
    have "(255 :: byte) = - 1" by simp
    moreover have "bit (- 1 :: byte) j" using that by (simp add: possible_bit_word)
    ultimately show ?thesis by metis
  qed
  moreover have "fs_map ! k = (if k < 6 then 255 else 0)" if "k < 1024" for k
    using that by (simp add: fs_map_def nth_append)
  moreover have "n div 8 < 1024" "n div 8 < 6 \<longleftrightarrow> n < 48" using n by linarith+
  moreover have "used fs_sb (view fs_state) n \<longleftrightarrow> bit (fs_map ! (n div 8)) (n mod 8)"
    unfolding used_def fs_cache(2) using n by (simp add: fs_state_def fs_sb_def map_block_def bit_used_bit)
  moreover have "n mod 8 < 8" by simp
  ultimately show ?thesis by auto
qed

lemma fs_alloc_ready: "alloc_ready 0 {} fs_state"
proof -
  have "fs_layout fs_sb fs_log (view fs_state)"
    using fs_areas fs_used unfolding fs_layout_def by (fastforce simp: fs_size_def fs_sb_def)
  then show ?thesis using fs_cache by (simp add: alloc_ready_def fs_state_def)
qed


lemma bfree_frees_witness:
  "(\<exists>t. bfree ROOTDEV 47 fs_state = Ok () t \<and> \<not> used fs_sb (view t) 47 \<and> used fs_sb (view t) 46) \<and>
   bfree ROOTDEV 48 fs_state = Panic ''freeing free block''"
proof -
  have sb: "sb fs_state = fs_sb" "fs_size fs_sb = 2000" by (simp_all add: fs_state_def fs_size_def fs_sb_def)
  have r: "room 1 fs_state" using fs_room by (rule room_mono) simp
  show ?thesis
    using bfree_frees[OF fs_alloc_ready r, of 47] bfree_frees[OF fs_alloc_ready r, of 48] fs_used[of 47] fs_used[of 48] fs_used[of 46] sb
    by auto
qed

end
