(* ===== verification/Inodes.thy ===== *)
theory Inodes
  imports Dir Blocks
begin

text \<open>
  Inodes on disk and in memory: the encoding of \<open>struct dinode\<close> in its block, \<open>iupdate\<close> and the load
  in \<open>ilock\<close>, and the table of in-memory inodes (\<open>iget\<close>, \<open>idup\<close>, \<open>iput\<close>).
\<close>

section \<open>The encoding of an inode\<close>

lemma get_bytes_put32_other:
  "off + 4 \<le> length d \<Longrightarrow> k + n \<le> length d \<Longrightarrow> k + n \<le> off \<or> off + 4 \<le> k \<Longrightarrow> get_bytes k n (put32 off w d) = get_bytes k n d"
  by (simp add: put32_def get_put_other)

lemma get_bytes_put16_other:
  "off + 2 \<le> length d \<Longrightarrow> k + n \<le> length d \<Longrightarrow> k + n \<le> off \<or> off + 2 \<le> k \<Longrightarrow> get_bytes k n (put16 off w d) = get_bytes k n d"
  by (simp add: put16_def get_put_other)

lemma put_addrs_Suc:
  "fold (\<lambda>i d. put32 (off + 4 * i) (as ! i) d) [0..<Suc m] d = put32 (off + 4 * m) (as ! m) (fold (\<lambda>i d. put32 (off + 4 * i) (as ! i) d) [0..<m] d)"
  by simp

lemma put_addrs_upto:
  fixes d :: "byte list" and as :: "u32 list" and off m :: nat
  assumes "off + 4 * m \<le> length d"
  defines "e \<equiv> fold (\<lambda>i d. put32 (off + 4 * i) (as ! i) d) [0..<m] d"
  shows "length e = length d" and "i < m \<Longrightarrow> get32 (off + 4 * i) e = as ! i"
    and "k + n \<le> length d \<Longrightarrow> k + n \<le> off \<or> off + 4 * m \<le> k \<Longrightarrow> get_bytes k n e = get_bytes k n d"
  using assms(1) unfolding e_def
proof (induction m)
  case 0
  { case 1 show ?case by simp }
  { case 2 then show ?case by simp }
  { case 3 show ?case by simp }
next
  case (Suc m)
  let ?e = "fold (\<lambda>i d. put32 (off + 4 * i) (as ! i) d) [0..<m] d"
  note pre = Suc.IH(1)
  { case 1 show ?case unfolding put_addrs_Suc using pre 1 by simp }
  { case 2
    show ?case unfolding put_addrs_Suc using pre Suc.IH(2) 2
      by (cases "i = m") (auto simp: get32_put32_other) }
  { case 3
    have "get_bytes k n (put32 (off + 4 * m) (as ! m) ?e) = get_bytes k n ?e"
      using pre 3 by (intro get_bytes_put32_other) auto
    moreover have "k + n \<le> off \<or> off + 4 * m \<le> k" using 3 by auto
    ultimately show ?case unfolding put_addrs_Suc using Suc.IH(3) 3 by simp }
qed

lemma put_addrs_props:
  assumes "off + 4 * length as \<le> length d"
  shows "length (put_addrs off as d) = length d" and "i < length as \<Longrightarrow> get32 (off + 4 * i) (put_addrs off as d) = as ! i"
    and "k + n \<le> length d \<Longrightarrow> k + n \<le> off \<or> off + 4 * length as \<le> k \<Longrightarrow> get_bytes k n (put_addrs off as d) = get_bytes k n d"
  using put_addrs_upto[OF assms, where as = as] unfolding put_addrs_def by simp_all

lemma put_addrs_get16: "off + 4 * length as \<le> length d \<Longrightarrow> k + 2 \<le> length d \<Longrightarrow> k + 2 \<le> off \<or> off + 4 * length as \<le> k \<Longrightarrow>
    get16 k (put_addrs off as d) = get16 k d"
  and put_addrs_get32: "off + 4 * length as \<le> length d \<Longrightarrow> k + 4 \<le> length d \<Longrightarrow> k + 4 \<le> off \<or> off + 4 * length as \<le> k \<Longrightarrow>
    get32 k (put_addrs off as d) = get32 k d"
  by (simp_all add: get16_def get32_def put_addrs_props)

text \<open>The part of an inode that is kept on disk.\<close>

definition same_disk_part :: "inode \<Rightarrow> inode \<Rightarrow> bool" where
  "same_disk_part x y \<longleftrightarrow> i_type x = i_type y \<and> i_major x = i_major y \<and> i_minor x = i_minor y \<and> i_nlink x = i_nlink y \<and>
     i_size x = i_size y \<and> i_addrs x = i_addrs y"

lemma length_store_dinode:
  "off + 64 \<le> length d \<Longrightarrow> length (i_addrs x) = NDIRECT + 1 \<Longrightarrow> length (store_dinode off x d) = length d"
  by (simp add: store_dinode_def put_addrs_props NDIRECT_def)

lemma load_store_dinode:
  assumes "off + 64 \<le> length d" and "length (i_addrs x) = NDIRECT + 1"
  shows "same_disk_part (load_dinode off (store_dinode off x d) y) x"
proof -
  let ?d = "put32 (off + 8) (i_size x) (put16 (off + 6) (i_nlink x) (put16 (off + 4) (i_minor x) (put16 (off + 2) (i_major x) (put16 off (i_type x) d))))"
  have l: "length ?d = length d" using assms(1) by simp
  have fits: "off + 12 + 4 * length (i_addrs x) \<le> length ?d" using assms l by (simp add: NDIRECT_def)
  have "map (\<lambda>i. get32 (off + 12 + 4 * i) (put_addrs (off + 12) (i_addrs x) ?d)) [0..<NDIRECT + 1] = i_addrs x"
    using put_addrs_props(2)[OF fits] assms(2) by (intro nth_equalityI) (simp_all del: upt_Suc)
  moreover have "get16 off (put_addrs (off + 12) (i_addrs x) ?d) = i_type x"
    "get16 (off + 2) (put_addrs (off + 12) (i_addrs x) ?d) = i_major x"
    "get16 (off + 4) (put_addrs (off + 12) (i_addrs x) ?d) = i_minor x"
    "get16 (off + 6) (put_addrs (off + 12) (i_addrs x) ?d) = i_nlink x"
    "get32 (off + 8) (put_addrs (off + 12) (i_addrs x) ?d) = i_size x"
    using put_addrs_get16[OF fits] put_addrs_get32[OF fits] l assms(1) by (simp_all add: get_put_others)
  ultimately show ?thesis unfolding load_dinode_def store_dinode_def by (simp add: same_disk_part_def)
qed

lemma store_dinode_other:
  assumes "off + 64 \<le> length d" and "length (i_addrs x) = NDIRECT + 1"
    and "k + n \<le> length d" and "k + n \<le> off \<or> off + 64 \<le> k"
  shows "get_bytes k n (store_dinode off x d) = get_bytes k n d"
proof -
  have fits: "off + 12 + 4 * length (i_addrs x) \<le> length (put32 (off + 8) (i_size x) (put16 (off + 6) (i_nlink x)
      (put16 (off + 4) (i_minor x) (put16 (off + 2) (i_major x) (put16 off (i_type x) d)))))"
    using assms(1,2) by (simp add: NDIRECT_def)
  have out: "k + n \<le> off + 12 \<or> off + 12 + 4 * length (i_addrs x) \<le> k" using assms(2,4) by (auto simp: NDIRECT_def)
  from assms(4) show ?thesis
  proof
    assume "k + n \<le> off"
    then show ?thesis using put_addrs_props(3)[OF fits _ out] assms(1-3)
      by (simp add: store_dinode_def get_bytes_put32_other get_bytes_put16_other)
  next
    assume "off + 64 \<le> k"
    then show ?thesis using put_addrs_props(3)[OF fits _ out] assms(1-3)
      by (simp add: store_dinode_def get_bytes_put32_other get_bytes_put16_other)
  qed
qed

lemma load_dinode_cong:
  assumes "get_bytes off 64 d = get_bytes off 64 e" and "off + 64 \<le> length d" and "off + 64 \<le> length e"
  shows "load_dinode off d y = load_dinode off e y"
proof -
  have n: "d ! (off + i) = e ! (off + i)" if "i < 64" for i
    using arg_cong[OF assms(1), of "\<lambda>l. l ! i"] that assms(2,3) by simp
  have g: "get_bytes (off + k) m d = get_bytes (off + k) m e" if "k + m \<le> 64" for k m
    using that assms(2,3) n[of "k + _"] by (intro nth_equalityI) (simp_all add: add.assoc)
  have "get32 (off + 12 + 4 * i) d = get32 (off + 12 + 4 * i) e" if "i < NDIRECT + 1" for i
    using g[of "12 + 4 * i" 4] that by (simp add: get32_def NDIRECT_def add.assoc)
  then have "map (\<lambda>i. get32 (off + 12 + 4 * i) d) [0..<NDIRECT + 1] = map (\<lambda>i. get32 (off + 12 + 4 * i) e) [0..<NDIRECT + 1]" by simp
  moreover have "get16 off d = get16 off e" "get16 (off + 2) d = get16 (off + 2) e" "get16 (off + 4) d = get16 (off + 4) e"
    "get16 (off + 6) d = get16 (off + 6) e" "get32 (off + 8) d = get32 (off + 8) e"
    using g[of 0 2] g[of 2 2] g[of 4 2] g[of 6 2] g[of 8 4] by (simp_all add: get16_def get32_def)
  ultimately show ?thesis unfolding load_dinode_def by (simp only:)
qed

section \<open>Changes of the inode table leave the cache alone\<close>

lemma obs_inodes [simp]:
  "cached (s\<lparr>inodes := x\<rparr>) = cached s" "view (s\<lparr>inodes := x\<rparr>) = view s" "rc (s\<lparr>inodes := x\<rparr>) = rc s"
  "lkd (s\<lparr>inodes := x\<rparr>) = lkd s" "nfree (s\<lparr>inodes := x\<rparr>) = nfree s" "owns p (s\<lparr>inodes := x\<rparr>) = owns p s"
  by (auto simp: fun_eq_iff cached_def view_def rc_def lkd_def nfree_def owns_def is_buf_def split: option.split)

lemma bc_ready_inodes [simp]: "bc_ready p (s\<lparr>inodes := x\<rparr>) = bc_ready p s"
  by (simp add: bc_ready_def bc_inv_def is_buf_def in_proc_def)

lemma cache_at_inodes [simp]: "cache_at p B (s\<lparr>inodes := x\<rparr>) = cache_at p B s"
  by (simp add: cache_at_def)

lemma room_inodes [simp]: "room k (s\<lparr>inodes := x\<rparr>) = room k s"
  by (simp add: room_def)

lemma can_hold_inodes [simp]: "can_hold B bn (s\<lparr>inodes := x\<rparr>) = can_hold B bn s"
  by (simp add: can_hold_def)

lemma tx_frame_inodes: "tx_frame (s\<lparr>inodes := x\<rparr>) t \<Longrightarrow> tx_frame s (t\<lparr>inodes := inodes s\<rparr>)"
proof -
  assume f: "tx_frame (s\<lparr>inodes := x\<rparr>) t"
  then have b: "bc_frame (s\<lparr>inodes := x\<rparr>) (t\<lparr>klog := klog s\<rparr>)" by (simp add: tx_frame_def)
  let ?u = "t\<lparr>klog := klog s\<rparr>"
  have "s\<lparr>inodes := x, bufs := bufs t, lru := lru t, disk := disk t, dwrites := dwrites t, procs := procs t\<rparr> = ?u"
    using b by (simp add: bc_frame_def)
  from arg_cong[OF this, of "\<lambda>u. u\<lparr>inodes := inodes s\<rparr>"]
  have "s\<lparr>bufs := bufs t, lru := lru t, disk := disk t, dwrites := dwrites t, procs := procs t\<rparr> = ?u\<lparr>inodes := inodes s\<rparr>" by simp
  then have "bc_frame s (?u\<lparr>inodes := inodes s\<rparr>)" using b by (simp add: bc_frame_def)
  moreover have "?u\<lparr>inodes := inodes s\<rparr> = t\<lparr>inodes := inodes s, klog := klog s\<rparr>" by simp
  ultimately show ?thesis using f by (simp add: tx_frame_def)
qed

section \<open>Writing an inode back and loading it\<close>

lemma dinode_off_bound: "dinode_off i + 64 \<le> BSIZE"
proof -
  have "unat (i mod IPB) < 16" by (simp add: unat_mod IPB_def)
  then show ?thesis by (simp add: dinode_off_def BSIZE_def)
qed

lemma iupdate_Ok:
  assumes tx: "cache_at p B s" and x: "inodes s ! ip = x" "i_dev x = ROOTDEV" "length (i_addrs x) = NDIRECT + 1"
    and ch: "can_hold B (IBLOCK (i_inum x) (sb s)) s" and room: "room (Suc k) s"
  shows "\<exists>t. iupdate ip s = Ok () t \<and> cache_at p B t \<and> tx_frame s t \<and> room k t \<and>
    view t = (view s)(IBLOCK (i_inum x) (sb s) := store_dinode (dinode_off (i_inum x)) x (view s (IBLOCK (i_inum x) (sb s)))) \<and>
    log_homes (klog t) = insert (IBLOCK (i_inum x) (sb s)) (log_homes (klog s)) \<and> (\<forall>m c. m \<in> B \<longrightarrow> owns p s m c \<longrightarrow> owns p t m c)"
proof -
  let ?bn = "IBLOCK (i_inum x) (sb s)"
  let ?d = "store_dinode (dinode_off (i_inum x)) x (view s ?bn)"
  have v: "length (view s ?bn) = BSIZE" using tx by (simp add: cache_at_def bc_ready_def)
  then have len: "length ?d = BSIZE" using length_store_dinode[of "dinode_off (i_inum x)" "view s ?bn" x] dinode_off_bound x(3) by simp
  obtain b u v w t where t: "bread ROOTDEV ?bn s = Ok b u" "buf_data b u = Ok (view s ?bn) u" "set_data b ?d u = Ok () v"
      "log_write b v = Ok () w" "brelse b w = Ok () t" "cache_at p B t" "tx_frame s t" "view t = (view s)(?bn := ?d)" "room k t"
      "log_homes (klog t) = insert ?bn (log_homes (klog s))" "\<forall>m c. m \<noteq> ?bn \<longrightarrow> owns p s m c \<longrightarrow> owns p t m c"
    using tx_update[OF tx ch room len] by blast
  have "iupdate ip s = Ok () t" using t(1-5) x by (simp add: iupdate_def get_inode_def upd_data_def)
  moreover have "\<forall>m c. m \<in> B \<longrightarrow> owns p s m c \<longrightarrow> owns p t m c" using t(11) ch by (metis can_hold_def)
  ultimately show ?thesis using t(6-10) by blast
qed

lemma load_dinode_lock: "load_dinode off d (x\<lparr>i_lock := l\<rparr>) = (load_dinode off d x)\<lparr>i_lock := l\<rparr>"
  by (simp add: load_dinode_def)

lemma load_dinode_fields [simp]:
  "i_dev (load_dinode off d x) = i_dev x" "i_inum (load_dinode off d x) = i_inum x" "i_ref (load_dinode off d x) = i_ref x"
  "i_type (load_dinode off d x) = get16 off d" "i_size (load_dinode off d x) = get32 (off + 8) d"
  by (simp_all add: load_dinode_def)

lemma get_sl_inode [simp]: "get_sl (SL_inode i) s = i_lock (inodes s ! i)"
  by simp

text \<open>Locking an inode whose in-memory copy is not valid loads it from its block.\<close>

lemma ilock_load:
  assumes tx: "cache_at p B s" and ip: "ip < length (inodes s)" and x: "inodes s ! ip = x" "i_dev x = ROOTDEV" "1 \<le> i_ref x"
      "\<not> i_valid x" "\<not> sl_locked (i_lock x)"
    and ch: "can_hold B (IBLOCK (i_inum x) (sb s)) s"
    and ty: "get16 (dinode_off (i_inum x)) (view s (IBLOCK (i_inum x) (sb s))) \<noteq> 0"
  shows "\<exists>t. ilock ip s = Ok () (t\<lparr>inodes := (inodes s)[ip := (load_dinode (dinode_off (i_inum x)) (view s (IBLOCK (i_inum x) (sb s))) x)
      \<lparr>i_lock := \<lparr>sl_locked = True, sl_pid = p_pid (procs s ! p)\<rparr>, i_valid := True\<rparr>]\<rparr>) \<and>
    cache_at p B t \<and> tx_frame s t \<and> view t = view s \<and> klog t = klog s"
proof -
  let ?bn = "IBLOCK (i_inum x) (sb s)"
  let ?lk = "\<lparr>sl_locked = True, sl_pid = p_pid (procs s ! p)\<rparr>"
  have inp: "in_proc p s" using tx by (simp add: cache_at_def bc_ready_def)
  let ?s = "s\<lparr>inodes := (inodes s)[ip := x\<lparr>i_lock := ?lk\<rparr>]\<rparr>"
  have a: "acquiresleep (SL_inode ip) s = Ok () ?s"
    using acquiresleep_Ok[OF inp, of "SL_inode ip"] x ip by (simp add: tbl_upd_def)
  have s1: "cache_at p B ?s" "can_hold B ?bn ?s" "view ?s = view s" "klog ?s = klog s" using tx ch by simp_all
  obtain b u t where t: "bread ROOTDEV ?bn ?s = Ok b u" "buf_data b u = Ok (view s ?bn) u" "tx_frame ?s u"
      "cache_at p (insert ?bn B) u" "owns p u ?bn b" "view u = view s" "klog u = klog s" "?bn \<in> log_homes (klog u) \<or> view u ?bn = disk u ?bn"
    using tx_open[OF s1(1,2)] unfolding s1(3,4) by blast
  let ?y = "(load_dinode (dinode_off (i_inum x)) (view s ?bn) x)\<lparr>i_lock := ?lk\<rparr>"
  have iu: "inodes u = (inodes s)[ip := x\<lparr>i_lock := ?lk\<rparr>]" using tx_frameD(4)[OF t(3)] by simp
  let ?u = "u\<lparr>inodes := (inodes s)[ip := ?y]\<rparr>"
  have up: "upd_inode ip (load_dinode (dinode_off (i_inum x)) (view s ?bn)) u = Ok () ?u"
    using ip iu by (simp add: upd_inode_def tbl_upd_def load_dinode_lock)
  have "?bn \<notin> B" using ch by (simp add: can_hold_def)
  then obtain w where w: "brelse b ?u = Ok () w" "cache_at p B w" "tx_frame ?u w" "view w = view ?u" "klog w = klog ?u"
    using tx_close[of p ?bn B ?u b] t(4,5,8) t(6,7) by auto
  have iw: "inodes w = (inodes s)[ip := ?y]" using tx_frameD(4)[OF w(3)] by simp
  let ?w = "w\<lparr>inodes := inodes s\<rparr>"
  let ?J = "(inodes s)[ip := (load_dinode (dinode_off (i_inum x)) (view s ?bn) x)\<lparr>i_lock := ?lk, i_valid := True\<rparr>]"
  have run: "ilock ip s = Ok () (?w\<lparr>inodes := ?J\<rparr>)"
    using a t(1,2) up w(1) x ip iu iw ty
    by (simp add: ilock_def get_inode_def tx_frameD(3)[OF t(3)] upd_inode_def tbl_upd_def load_dinode_lock)
  have f1: "tx_frame s (u\<lparr>inodes := inodes s\<rparr>)" using tx_frame_inodes[OF t(3)] by simp
  have f2: "tx_frame (u\<lparr>inodes := inodes s\<rparr>) ?w"
    using tx_frame_inodes[where s = "u\<lparr>inodes := inodes s\<rparr>" and x = "(inodes s)[ip := ?y]" and t = w] w(3) by simp
  have "cache_at p B ?w" "view ?w = view s" "klog ?w = klog s" using w(2,4,5) t(6,7) by simp_all
  then show ?thesis using run tx_frame_trans[OF f1 f2] by (intro exI[of _ ?w] conjI)
qed

text \<open>
  C25: an inode survives its eviction. Inside a transaction, \<open>iupdate\<close> writes the inode to its place in
  the inode block without touching any other inode of that block; when the in-memory copy has been
  dropped (the slot holds any \<open>y\<close> that is not valid), \<open>ilock\<close> loads type, device numbers, link count,
  size and block addresses back as they were.
\<close>

theorem iupdate_ilock:
  assumes tx: "cache_at p {} s" and room: "room 1 s" and ip: "ip < length (inodes s)"
    and x: "inodes s ! ip = x" "i_dev x = ROOTDEV" "length (i_addrs x) = NDIRECT + 1" "i_type x \<noteq> 0"
    and area: "IBLOCK (i_inum x) (sb s) \<notin> log_area (klog s)"
    and y: "i_dev y = ROOTDEV" "i_inum y = i_inum x" "1 \<le> i_ref y" "\<not> i_valid y" "\<not> sl_locked (i_lock y)"
  shows "\<exists>t u. iupdate ip s = Ok () t \<and> mbind (upd_inode ip (\<lambda>_. y)) (\<lambda>_. ilock ip) t = Ok () u \<and>
    same_disk_part (inodes u ! ip) x \<and> i_valid (inodes u ! ip) \<and> disk u = disk s \<and>
    (\<forall>j z. j mod IPB \<noteq> i_inum x mod IPB \<longrightarrow>
       load_dinode (dinode_off j) (view t (IBLOCK (i_inum x) (sb s))) z = load_dinode (dinode_off j) (view s (IBLOCK (i_inum x) (sb s))) z)"
proof -
  let ?bn = "IBLOCK (i_inum x) (sb s)" let ?o = "dinode_off (i_inum x)"
  have ch: "can_hold {} ?bn s" using can_hold_room[OF tx] room area by simp
  obtain t where t: "iupdate ip s = Ok () t" "cache_at p {} t" "tx_frame s t" "view t = (view s)(?bn := store_dinode ?o x (view s ?bn))"
      "log_homes (klog t) = insert ?bn (log_homes (klog s))"
    using iupdate_Ok[OF tx x(1-3) ch, of 0] room by auto
  have v: "length (view s ?bn) = BSIZE" using tx by (simp add: cache_at_def bc_ready_def)
  have fits: "?o + 64 \<le> length (view s ?bn)" using dinode_off_bound v by simp
  have same: "same_disk_part (load_dinode ?o (view t ?bn) y) x" using load_store_dinode[OF fits x(3)] t(4) by simp
  let ?t = "t\<lparr>inodes := (inodes t)[ip := y]\<rparr>"
  have it: "inodes t = inodes s" "sb t = sb s" "log_area (klog t) = log_area (klog s)" using tx_frameD[OF t(3)] by simp_all
  have "get16 ?o (view t ?bn) \<noteq> 0" using same x(4) by (simp add: same_disk_part_def)
  moreover have "can_hold {} ?bn ?t" using t(5) area it by (simp add: can_hold_def)
  ultimately obtain u where u: "ilock ip ?t = Ok () (u\<lparr>inodes := (inodes ?t)[ip := (load_dinode ?o (view t ?bn) y)
      \<lparr>i_lock := \<lparr>sl_locked = True, sl_pid = p_pid (procs t ! p)\<rparr>, i_valid := True\<rparr>]\<rparr>)" "tx_frame ?t u"
    using ilock_load[of p "{}" ?t ip y] t(2) ip it y by auto
  let ?z = "(load_dinode ?o (view t ?bn) y)\<lparr>i_lock := \<lparr>sl_locked = True, sl_pid = p_pid (procs t ! p)\<rparr>, i_valid := True\<rparr>"
  let ?u = "u\<lparr>inodes := (inodes ?t)[ip := ?z]\<rparr>"
  have "mbind (upd_inode ip (\<lambda>_. y)) (\<lambda>_. ilock ip) t = ilock ip ?t" using ip it by (simp add: upd_inode_def tbl_upd_def)
  then have run: "mbind (upd_inode ip (\<lambda>_. y)) (\<lambda>_. ilock ip) t = Ok () ?u" using u(1) by (simp only:)
  have iz: "inodes ?u ! ip = ?z" using ip it by simp
  have z: "same_disk_part ?z x" "i_valid ?z" using same by (simp_all add: same_disk_part_def)
  have others: "load_dinode (dinode_off j) (view t ?bn) z = load_dinode (dinode_off j) (view s ?bn) z" if "j mod IPB \<noteq> i_inum x mod IPB" for j z
  proof (rule load_dinode_cong)
    have "unat (j mod IPB) \<noteq> unat (i_inum x mod IPB)" using that by (simp add: word_unat_eq_iff)
    then have "dinode_off j + 64 \<le> ?o \<or> ?o + 64 \<le> dinode_off j" by (auto simp: dinode_off_def)
    then show "get_bytes (dinode_off j) 64 (view t ?bn) = get_bytes (dinode_off j) 64 (view s ?bn)"
      using store_dinode_other[OF fits x(3), of "dinode_off j" 64] dinode_off_bound[of j] v t(4) by simp
    show "dinode_off j + 64 \<le> length (view t ?bn)" "dinode_off j + 64 \<le> length (view s ?bn)"
      using dinode_off_bound[of j] v t(4) length_store_dinode[OF fits x(3)] by simp_all
  qed
  have dk: "disk ?u = disk s" using tx_frameD(10)[OF u(2)] tx_frameD(10)[OF t(3)] by simp
  show ?thesis
  proof (rule exI[of _ t], rule exI[of _ ?u], intro conjI allI impI)
    show "same_disk_part (inodes ?u ! ip) x" "i_valid (inodes ?u ! ip)" unfolding iz by (rule z)+
  qed (fact t(1), fact run, fact dk, erule others)
qed

text \<open>The example file system with inode 1, a file of one block, in slot 0 of the table.\<close>

definition file_inode :: inode where
  "file_inode = zero_inode\<lparr>i_dev := ROOTDEV, i_inum := 1, i_ref := 1, i_valid := True, i_type := T_FILE, i_nlink := 1, i_size := 20,
     i_addrs := 46 # replicate NDIRECT 0\<rparr>"

definition file_state :: kstate where
  "file_state = fs_state\<lparr>inodes := (inodes fs_state)[0 := file_inode]\<rparr>"

lemma file_state_facts:
  "cache_at 0 {} file_state" "room 10 file_state" "inodes file_state ! 0 = file_inode" "0 < length (inodes file_state)"
  "sb file_state = fs_sb" "klog file_state = fs_log" "view file_state = disk file_state"
proof -
  have i: "inodes fs_state = replicate NINODE zero_inode" by (simp add: fs_state_def fresh_state_def zero_state_def)
  show "cache_at 0 {} file_state" "room 10 file_state" "view file_state = disk file_state"
    using fs_cache fs_room by (simp_all add: file_state_def)
  show "inodes file_state ! 0 = file_inode" "0 < length (inodes file_state)" by (simp_all add: file_state_def i NINODE_def)
  show "sb file_state = fs_sb" "klog file_state = fs_log" by (simp_all add: file_state_def fs_state_def)
qed

lemma iupdate_ilock_witness:
  "\<exists>t u. iupdate 0 file_state = Ok () t \<and>
    mbind (upd_inode 0 (\<lambda>_. zero_inode\<lparr>i_dev := ROOTDEV, i_inum := 1, i_ref := 1\<rparr>)) (\<lambda>_. ilock 0) t = Ok () u \<and>
    same_disk_part (inodes u ! 0) file_inode"
proof -
  have "IBLOCK 1 fs_sb = 32" by (simp add: IBLOCK_def IPB_def fs_sb_def)
  moreover have "32 \<notin> log_area fs_log" using fs_areas(2)[of 32] by auto
  moreover have "room 1 file_state" using file_state_facts(2) by (rule room_mono) simp
  ultimately show ?thesis
    using iupdate_ilock[of 0 file_state 0 file_inode "zero_inode\<lparr>i_dev := ROOTDEV, i_inum := 1, i_ref := 1\<rparr>"] file_state_facts
    by (fastforce simp: file_inode_def zero_inode_def T_FILE_def NDIRECT_def simp del: mbind_apply)
qed

end
