(* ===== verification/Filedata.thy ===== *)
theory Filedata
  imports Inodes
begin

text \<open>
  File content (\<open>bmap\<close>, \<open>readi\<close> and \<open>writei\<close> of \<open>fs.c\<close>): a file is a sequence of bytes spread over
  the blocks that the direct addresses and the indirect block of its inode name. Reading returns a
  piece of that sequence, writing replaces one.
\<close>

section \<open>A file as a sequence of bytes\<close>

text \<open>The block that holds the \<open>i\<close>-th piece of the file, in the content \<open>v\<close> of the disk as the cache
  shows it, and byte \<open>k\<close> of the file.\<close>

definition file_addr :: "(u32 \<Rightarrow> byte list) \<Rightarrow> inode \<Rightarrow> nat \<Rightarrow> u32" where
  "file_addr v x i = (if i < NDIRECT then i_addrs x ! i else get32 (4 * (i - NDIRECT)) (v (i_addrs x ! NDIRECT)))"

definition fbyte :: "(u32 \<Rightarrow> byte list) \<Rightarrow> inode \<Rightarrow> nat \<Rightarrow> byte" where
  "fbyte v x k = v (file_addr v x (k div BSIZE)) ! (k mod BSIZE)"

definition file_bytes :: "(u32 \<Rightarrow> byte list) \<Rightarrow> inode \<Rightarrow> nat \<Rightarrow> nat \<Rightarrow> byte list" where
  "file_bytes v x off n = map (fbyte v x) [off..<off + n]"

text \<open>The first \<open>n\<close> blocks of the file are allocated, outside the log.\<close>

definition mapped :: "(u32 \<Rightarrow> byte list) \<Rightarrow> log \<Rightarrow> inode \<Rightarrow> nat \<Rightarrow> bool" where
  "mapped v l x n \<longleftrightarrow> i_dev x = ROOTDEV \<and> n \<le> MAXFILE \<and> (\<forall>i<n. file_addr v x i \<noteq> 0 \<and> file_addr v x i \<notin> log_area l \<and>
     (NDIRECT \<le> i \<longrightarrow> i_addrs x ! NDIRECT \<noteq> 0 \<and> i_addrs x ! NDIRECT \<notin> log_area l))"

text \<open>The number of blocks that bytes below \<open>k\<close> occupy.\<close>

definition blocks_for :: "nat \<Rightarrow> nat" where
  "blocks_for k = (k + (BSIZE - 1)) div BSIZE"

lemma blocks_for_div: "k < m \<Longrightarrow> k div BSIZE < blocks_for m"
  unfolding blocks_for_def BSIZE_def by simp

text \<open>What a read leaves: the cache as it was, with nothing changed that anyone can see.\<close>

definition undisturbed :: "nat \<Rightarrow> kstate \<Rightarrow> kstate \<Rightarrow> bool" where
  "undisturbed p s t \<longleftrightarrow> cache_at p {} t \<and> tx_frame s t \<and> view t = view s \<and> klog t = klog s"

lemma undisturbed_refl: "cache_at p {} s \<Longrightarrow> undisturbed p s s"
  by (simp add: undisturbed_def)

lemma undisturbed_trans: "undisturbed p s t \<Longrightarrow> undisturbed p t u \<Longrightarrow> undisturbed p s u"
  using tx_frame_trans by (auto simp: undisturbed_def)

lemma undisturbedD:
  assumes "undisturbed p s t"
  shows "cache_at p {} t" "view t = view s" "klog t = klog s" "inodes t = inodes s" "sb t = sb s" "disk t = disk s" "mem t = mem s"
    "curproc t = curproc s" "files t = files s"
  using assms tx_frameD[of s t] by (auto simp: undisturbed_def)

lemma read_quiet:
  assumes tx: "cache_at p {} s" and n: "log_n (klog s) < NBUF" and bn: "bn \<notin> log_area (klog s)"
  shows "\<exists>b u t. bread ROOTDEV bn s = Ok b u \<and> buf_data b u = Ok (view s bn) u \<and> brelse b u = Ok () t \<and> undisturbed p s t"
proof -
  have "can_hold {} bn s" using n bn tx by (simp add: can_hold_def cache_at_def card_log_homes)
  from tx_read[OF tx this] show ?thesis unfolding undisturbed_def by blast
qed

section \<open>Finding the block\<close>

lemma bmap_mapped:
  assumes tx: "cache_at p {} s" and n: "log_n (klog s) < NBUF"
    and mp: "mapped (view s) (klog s) (inodes s ! ip) m" and bn: "unat bn < m"
  shows "\<exists>t. bmap ip bn s = Ok (file_addr (view s) (inodes s ! ip) (unat bn)) t \<and> undisturbed p s t"
proof (cases "unat bn < NDIRECT")
  case True
  then show ?thesis using mp bn undisturbed_refl[OF tx]
    by (auto simp: bmap_def bmap_direct_def get_inode_def mapped_def file_addr_def)
next
  case False
  let ?x = "inodes s ! ip" let ?ind = "i_addrs ?x ! NDIRECT"
  have i: "?ind \<noteq> 0" "?ind \<notin> log_area (klog s)" "i_dev ?x = ROOTDEV" "unat bn - NDIRECT < NINDIRECT"
    and a: "get32 (4 * (unat bn - NDIRECT)) (view s ?ind) \<noteq> 0"
    using mp bn False by (auto simp: mapped_def MAXFILE_def file_addr_def)
  obtain b u t where "bread ROOTDEV ?ind s = Ok b u" "buf_data b u = Ok (view s ?ind) u" "brelse b u = Ok () t" "undisturbed p s t"
    using read_quiet[OF tx n i(2)] by blast
  then show ?thesis using False i a
    by (intro exI[of _ t]) (simp add: bmap_def bmap_indirect_def bmap_direct_def get_inode_def file_addr_def)
qed

section \<open>Reading\<close>

lemma mult_add_div_mod: "r < B \<Longrightarrow> (B * q + r) div B = q \<and> (B * q + r) mod B = (r :: nat)"
  by simp

lemma chunk_bytes:
  assumes "length d = BSIZE" and "d = v (file_addr v x (k div BSIZE))" and "n \<le> BSIZE - k mod BSIZE"
  shows "get_bytes (k mod BSIZE) n d = file_bytes v x k n"
proof -
  have B: "0 < BSIZE" by (simp add: BSIZE_def)
  have le: "k mod BSIZE + n \<le> length d" using assms(1,3) mod_less_divisor[OF B, of k] by simp
  have nth: "d ! (k mod BSIZE + i) = fbyte v x (k + i)" if "i < n" for i
  proof -
    have lt: "k mod BSIZE + i < BSIZE" using that assms(1) le by simp
    have e: "BSIZE * (k div BSIZE) + (k mod BSIZE + i) = k + i" using mult_div_mod_eq[of BSIZE k] by linarith
    have "(k + i) div BSIZE = k div BSIZE" "(k + i) mod BSIZE = k mod BSIZE + i"
      using mult_add_div_mod[OF lt, of "k div BSIZE"] unfolding e by simp_all
    then show ?thesis unfolding fbyte_def assms(2) by (simp only:)
  qed
  show ?thesis
  proof (rule nth_equalityI)
    show "length (get_bytes (k mod BSIZE) n d) = length (file_bytes v x k n)" using le by (simp add: file_bytes_def)
    fix i assume "i < length (get_bytes (k mod BSIZE) n d)"
    then have i: "i < n" using le by simp
    then show "get_bytes (k mod BSIZE) n d ! i = file_bytes v x k n ! i"
      using nth[OF i] le by (simp add: file_bytes_def)
  qed
qed

lemma file_bytes_append: "file_bytes v x k m @ file_bytes v x (k + m) n = file_bytes v x k (m + n)"
  using upt_add_eq_append[of k "k + m" n] by (simp add: file_bytes_def add.assoc)

lemma io_chunk_le: "io_chunk off left \<le> left" "io_chunk off left \<le> BSIZE - unat off mod BSIZE"
  by (simp_all add: io_chunk_def)

lemma unat_off_step: "unat (off :: u32) + n < 2 ^ 32 \<Longrightarrow> unat (off + of_nat n) = unat off + n"
  by (simp add: unat_word_ariths unsigned_of_nat take_bit_eq_mod)

lemma readi_loop_0: "readi_loop ip dst off 0 tot = ret (uint_as_int tot, [])"
  by (subst readi_loop.simps) simp

lemma readi_loop_kern:
  assumes "cache_at p {} s" and "log_n (klog s) < NBUF"
    and "mapped (view s) (klog s) (inodes s ! ip) (blocks_for (unat off + left))" and "unat off + left < 2 ^ 32"
  shows "\<exists>t. readi_loop ip KernVar off left tot s = Ok (uint_as_int (tot + left), file_bytes (view s) (inodes s ! ip) (unat off) left) t \<and>
    undisturbed p s t"
  using assms
proof (induction left arbitrary: off tot s rule: less_induct)
  case (less left)
  let ?x = "inodes s ! ip" let ?c = "io_chunk off left" let ?k = "unat off" let ?v = "view s"
  show ?case
  proof (cases "left = 0")
    case True
    then show ?thesis using undisturbed_refl[OF less(2)] by (intro exI[of _ s]) (simp add: readi_loop_0 file_bytes_def)
  next
    case False
    then have c0: "0 < ?c" and cl: "?c \<le> left" "?c \<le> BSIZE - ?k mod BSIZE" using io_chunk_pos io_chunk_le by auto
    have ud: "unat (off div of_nat BSIZE) = ?k div BSIZE" by (simp add: unat_div BSIZE_def)
    have lt: "?k div BSIZE < blocks_for (?k + left)" using False blocks_for_div[of ?k "?k + left"] by simp
    let ?a = "file_addr ?v ?x (?k div BSIZE)"
    have a: "?a \<noteq> 0" "?a \<notin> log_area (klog s)" "i_dev ?x = ROOTDEV" using less(4) lt by (auto simp: mapped_def)
    obtain s1 where s1: "bmap ip (off div of_nat BSIZE) s = Ok ?a s1" "undisturbed p s s1"
      using bmap_mapped[OF less(2-4), of "off div of_nat BSIZE"] lt ud by auto
    note q1 = undisturbedD[OF s1(2)]
    obtain b u s2 where s2: "bread ROOTDEV ?a s1 = Ok b u" "buf_data b u = Ok (?v ?a) u" "brelse b u = Ok () s2" "undisturbed p s1 s2"
      using read_quiet[OF q1(1), of ?a] a(2) less(3) unfolding q1(2,3) by blast
    have q2: "undisturbed p s s2" using s1(2) s2(4) by (rule undisturbed_trans)
    note q = undisturbedD[OF q2]
    have step: "unat (off + of_nat ?c) = ?k + ?c" using unat_off_step[of off ?c] less(5) cl(1) by simp
    have "mapped (view s2) (klog s2) (inodes s2 ! ip) (blocks_for (unat (off + of_nat ?c) + (left - ?c)))"
      "unat (off + of_nat ?c) + (left - ?c) < 2 ^ 32" "log_n (klog s2) < NBUF"
      using less(3-5) step cl(1) q(2-4) by simp_all
    from less(1)[OF _ q(1) this(3,1,2), of "tot + ?c"] obtain t where t:
      "readi_loop ip KernVar (off + of_nat ?c) (left - ?c) (tot + ?c) s2 =
         Ok (uint_as_int (tot + left), file_bytes ?v ?x (?k + ?c) (left - ?c)) t" "undisturbed p s2 t"
      using c0 cl(1) step q(2,4) by auto
    have d: "get_bytes (?k mod BSIZE) ?c (?v ?a) = file_bytes ?v ?x ?k ?c"
      using less(2) cl(2) by (intro chunk_bytes) (simp_all add: cache_at_def bc_ready_def)
    have iu: "inodes s1 ! ip = ?x" using q1(4) by simp
    have "readi_loop ip KernVar off left tot s = Ok (uint_as_int (tot + left), file_bytes ?v ?x ?k left) t"
      using False s1(1) a s2(1-3) t(1) d iu file_bytes_append[of ?v ?x ?k ?c "left - ?c"] cl(1)
      by (subst readi_loop.simps) (simp add: get_inode_def either_copyout_def)
    then show ?thesis using undisturbed_trans[OF q2 t(2)] by blast
  qed
qed

lemma blocks_for_max: "blocks_for k \<le> MAXFILE \<Longrightarrow> k \<le> MAXFILE * BSIZE"
  unfolding blocks_for_def MAXFILE_def NDIRECT_def NINDIRECT_def BSIZE_def by simp

lemma uint_as_int_small: "n \<le> MAXFILE * BSIZE \<Longrightarrow> uint_as_int n = int n"
  by (simp add: uint_as_int_def MAXFILE_def NDIRECT_def NINDIRECT_def BSIZE_def signed_of_nat signed_take_bit_int_eq_self)

lemma unat_lt32: "unat (w :: u32) < 2 ^ 32"
  using unsigned_less[of w] by simp

lemma no_wrap: "\<not> off + n < (off :: u32) \<Longrightarrow> unat (off + n) = unat off + unat n"
  by (simp add: unat_plus_simple linorder_not_less)

lemma mapped_mono: "mapped v l x n \<Longrightarrow> m \<le> n \<Longrightarrow> mapped v l x m"
  by (auto simp: mapped_def)

lemma blocks_for_mono: "j \<le> k \<Longrightarrow> blocks_for j \<le> blocks_for k"
  by (simp add: blocks_for_def div_le_mono)

text \<open>
  C26: reading a file. For a file whose blocks are allocated, \<open>readi\<close> into a kernel buffer returns
  without changing anything: nothing when the offset lies beyond the end or offset plus count
  overflows, and otherwise the bytes of the file from the offset on, cut off at its end, whichever
  direct or indirect blocks they are in.
\<close>

theorem readi_returns:
  assumes tx: "cache_at p {} s" and n: "log_n (klog s) < NBUF"
    and mp: "mapped (view s) (klog s) (inodes s ! ip) (blocks_for (unat (i_size (inodes s ! ip))))"
  shows "\<exists>t. readi ip KernVar off len s =
      Ok (if off > i_size (inodes s ! ip) \<or> unat off + unat len \<ge> 2 ^ 32 then (0, [])
          else let m = min (unat len) (unat (i_size (inodes s ! ip)) - unat off)
               in (int m, file_bytes (view s) (inodes s ! ip) (unat off) m)) t \<and>
    undisturbed p s t"
proof -
  let ?x = "inodes s ! ip" let ?sz = "i_size ?x"
  have wrap: "off + len < off \<longleftrightarrow> unat off + unat len \<ge> 2 ^ 32"
    using unat_lt32[of len] by (auto simp: word_less_nat_alt unat_plus_if')
  show ?thesis
  proof (cases "off > ?sz \<or> off + len < off")
    case True
    then show ?thesis using undisturbed_refl[OF tx] wrap by (intro exI[of _ s]) (auto simp: readi_def get_inode_def)
  next
    case False
    let ?m = "min (unat len) (unat ?sz - unat off)"
    have le: "off \<le> ?sz" "unat off \<le> unat ?sz" using False by (auto simp: linorder_not_less word_le_nat_alt[symmetric])
    have m: "unat (if off + len > ?sz then ?sz - off else len) = ?m"
      using no_wrap[of off len] False unat_sub[OF le(1)] by (auto simp: word_less_nat_alt)
    have b: "unat off + ?m \<le> unat ?sz" using le by simp
    have mp': "mapped (view s) (klog s) ?x (blocks_for (unat off + ?m))"
      using mapped_mono[OF mp blocks_for_mono[OF b]] .
    have lt: "unat off + ?m < 2 ^ 32" using b unat_lt32[of ?sz] by simp
    have small: "?m \<le> MAXFILE * BSIZE" using blocks_for_max[of "unat ?sz"] mp b by (simp add: mapped_def)
    obtain t where t: "readi_loop ip KernVar off ?m 0 s = Ok (uint_as_int (0 + ?m), file_bytes (view s) ?x (unat off) ?m) t" "undisturbed p s t"
      using readi_loop_kern[OF tx n mp' lt] by blast
    have "readi ip KernVar off len s = Ok (int ?m, file_bytes (view s) ?x (unat off) ?m) t"
      using False t(1) m uint_as_int_small[OF small] by (simp add: readi_def get_inode_def)
    then show ?thesis using t(2) False wrap by (auto simp: Let_def)
  qed
qed

lemma readi_returns_witness:
  "\<exists>t. readi 0 KernVar 16 100 file_state = Ok (4, [0, 0, 0, 0]) t \<and> undisturbed 0 file_state t"
proof -
  note f = file_state_facts
  have x: "inodes file_state ! 0 = file_inode" "i_size file_inode = 20" using f(3) by (simp_all add: file_inode_def)
  have a: "file_addr v file_inode 0 = 46" for v by (simp add: file_addr_def file_inode_def NDIRECT_def)
  have "46 \<notin> log_area fs_log" using fs_areas(2)[of 46] by auto
  then have "mapped (view file_state) (klog file_state) file_inode (blocks_for 20)"
    using a f(6) by (simp add: mapped_def blocks_for_def BSIZE_def MAXFILE_def NDIRECT_def) (simp add: file_inode_def)
  moreover have "log_n (klog file_state) < NBUF" by (simp add: f(6) fs_log_def log_n_def NBUF_def)
  moreover have "file_bytes (view file_state) file_inode 16 4 = [0, 0, 0, 0]"
  proof -
    have "disk file_state 46 = replicate BSIZE 0" by (simp add: file_state_def fs_state_def)
    then show ?thesis using a f(7) by (simp add: file_bytes_def fbyte_def BSIZE_def upt_conv_Cons)
  qed
  ultimately show ?thesis using readi_returns[OF f(1), of 0 16 100] x by (auto simp: Let_def)
qed

section \<open>Writing\<close>

text \<open>No two pieces of the file share a block, and none is in the indirect block.\<close>

definition file_wf :: "(u32 \<Rightarrow> byte list) \<Rightarrow> log \<Rightarrow> inode \<Rightarrow> nat \<Rightarrow> bool" where
  "file_wf v l x n \<longleftrightarrow> mapped v l x n \<and> inj_on (file_addr v x) {..<n} \<and> i_addrs x ! NDIRECT \<notin> file_addr v x ` {..<n}"

lemma file_addr_upd: "a \<noteq> i_addrs x ! NDIRECT \<Longrightarrow> file_addr (v(a := d)) x = file_addr v x"
  by (simp add: file_addr_def fun_eq_iff)

lemma file_wf_upd: "a \<noteq> i_addrs x ! NDIRECT \<Longrightarrow> file_wf (v(a := d)) l x n = file_wf v l x n"
  by (simp add: file_wf_def mapped_def file_addr_upd)

lemma file_wf_indirect: "file_wf v l x n \<Longrightarrow> j < n \<Longrightarrow> file_addr v x j \<noteq> i_addrs x ! NDIRECT"
  unfolding file_wf_def by (metis imageI lessThan_iff)

lemma div_lt_blocks: "k < n * BSIZE \<Longrightarrow> k div BSIZE < n"
  by (simp add: less_mult_imp_div_less)

lemma fbyte_upd:
  assumes wf: "file_wf v l x n" and j: "j < n" and k: "k < n * BSIZE"
  shows "fbyte (v(file_addr v x j := d)) x k = (if k div BSIZE = j then d ! (k mod BSIZE) else fbyte v x k)"
proof -
  have "file_addr v x j \<noteq> i_addrs x ! NDIRECT" using file_wf_indirect[OF wf j] .
  moreover have "file_addr v x (k div BSIZE) = file_addr v x j \<longleftrightarrow> k div BSIZE = j"
    using wf j div_lt_blocks[OF k] by (auto simp: file_wf_def inj_on_def)
  ultimately show ?thesis by (simp add: fbyte_def file_addr_upd)
qed

text \<open>Bytes \<open>off\<close> to \<open>off + length bs\<close> replaced.\<close>

definition patched :: "(u32 \<Rightarrow> byte list) \<Rightarrow> (u32 \<Rightarrow> byte list) \<Rightarrow> inode \<Rightarrow> nat \<Rightarrow> nat \<Rightarrow> byte list \<Rightarrow> bool" where
  "patched v w x n off bs \<longleftrightarrow> file_addr w x = file_addr v x \<and> (\<forall>b. b \<notin> file_addr v x ` {..<n} \<longrightarrow> w b = v b) \<and>
     (\<forall>k < n * BSIZE. fbyte w x k = (if off \<le> k \<and> k < off + length bs then bs ! (k - off) else fbyte v x k))"

lemma patched_Nil: "patched v v x n off []"
  by (auto simp: patched_def)

lemma patched_append:
  assumes "patched v w x n off as" and "patched w u x n (off + length as) bs"
  shows "patched v u x n off (as @ bs)"
  using assms unfolding patched_def by (auto simp: nth_append diff_diff_left less_diff_conv2)

lemma patched_chunk:
  assumes wf: "file_wf v l x n" and j: "off div BSIZE < n" and len: "length (v (file_addr v x (off div BSIZE))) = BSIZE"
    and bs: "length bs \<le> BSIZE - off mod BSIZE"
  shows "patched v (v(file_addr v x (off div BSIZE) := put_bytes (off mod BSIZE) bs (v (file_addr v x (off div BSIZE))))) x n off bs"
proof -
  let ?a = "file_addr v x (off div BSIZE)" let ?d = "put_bytes (off mod BSIZE) bs (v ?a)"
  have B: "0 < BSIZE" by (simp add: BSIZE_def)
  have fit: "off mod BSIZE + length bs \<le> length (v ?a)" using bs len mod_less_divisor[OF B, of off] by linarith
  have ne: "?a \<noteq> i_addrs x ! NDIRECT" using file_wf_indirect[OF wf j] .
  have "fbyte (v(?a := ?d)) x k = (if off \<le> k \<and> k < off + length bs then bs ! (k - off) else fbyte v x k)" if k: "k < n * BSIZE" for k
  proof (cases "k div BSIZE = off div BSIZE")
    case True
    have o: "off = BSIZE * (off div BSIZE) + off mod BSIZE" "k = BSIZE * (off div BSIZE) + k mod BSIZE"
      using mult_div_mod_eq[of BSIZE off] mult_div_mod_eq[of BSIZE k] True by simp_all
    have "off \<le> k \<and> k < off + length bs \<longleftrightarrow> off mod BSIZE \<le> k mod BSIZE \<and> k mod BSIZE < off mod BSIZE + length bs"
      "k - off = k mod BSIZE - off mod BSIZE" using o by linarith+
    moreover have "?d ! (k mod BSIZE) = (if off mod BSIZE \<le> k mod BSIZE \<and> k mod BSIZE < off mod BSIZE + length bs
        then bs ! (k mod BSIZE - off mod BSIZE) else v ?a ! (k mod BSIZE))"
      using nth_put_bytes[OF fit, of "k mod BSIZE"] len mod_less_divisor[OF B, of k] by simp
    moreover have "fbyte v x k = v ?a ! (k mod BSIZE)" using True by (simp add: fbyte_def)
    ultimately show ?thesis using fbyte_upd[OF wf j k, of ?d] True by simp
  next
    case False
    have out: "\<not> (off \<le> k \<and> k < off + length bs)"
    proof
      assume a: "off \<le> k \<and> k < off + length bs"
      then have "k < BSIZE * (off div BSIZE) + BSIZE" using mult_div_mod_eq[of BSIZE off] fit len by linarith
      then have "k div BSIZE \<le> off div BSIZE" using B by (simp add: div_less_iff_less_mult less_Suc_eq_le[symmetric] algebra_simps)
      moreover have "off div BSIZE \<le> k div BSIZE" using a by (simp add: div_le_mono)
      ultimately show False using False by simp
    qed
    show ?thesis unfolding if_not_P[OF out] using fbyte_upd[OF wf j k, of ?d] False by simp
  qed
  then show ?thesis using file_addr_upd[OF ne, of v ?d] j unfolding patched_def by auto
qed

text \<open>How many blocks a write of \<open>left\<close> bytes at \<open>off\<close> touches.\<close>

definition chunks :: "nat \<Rightarrow> nat \<Rightarrow> nat" where
  "chunks off left = (if left = 0 then 0 else blocks_for (off + left) - off div BSIZE)"

lemma chunks_step:
  assumes "0 < left" and "c = min left (BSIZE - off mod BSIZE)"
  shows "chunks off left = Suc (chunks (off + c) (left - c))"
proof -
  obtain q r where o: "off = 1024 * q + r" "r < 1024"
    using mult_div_mod_eq[of 1024 off] mod_less_divisor[of 1024 off] by (metis zero_less_numeral)
  have B: "BSIZE = 1024" by (simp add: BSIZE_def)
  have d: "off div 1024 = q" "off mod 1024 = r" using o by simp_all
  show ?thesis
  proof (cases "c = left")
    case True
    then have "left \<le> 1024 - r" using assms(2) d by (simp add: B)
    then have "(off + left + 1023) div 1024 = Suc q" using assms(1) o by (intro div_nat_eqI) simp_all
    then show ?thesis using True assms(1) d by (simp add: chunks_def blocks_for_def B)
  next
    case False
    then have c: "c = 1024 - r" "c < left" using assms(2) d by (auto simp: B min_def split: if_splits)
    then have "off + c = 1024 * Suc q" using o by simp
    then have "(off + c) div 1024 = Suc q" "off + c + (left - c) = off + left" using c(2) by simp_all
    moreover have "Suc (Suc q) \<le> (off + left + 1023) div 1024"
      using \<open>off + c = 1024 * Suc q\<close> c(2) by (simp add: less_eq_div_iff_mult_less_eq)
    ultimately show ?thesis using c(2) assms(1) d by (simp add: chunks_def blocks_for_def B)
  qed
qed

lemma writei_loop_0: "writei_loop ip src off 0 tot = ret (tot, off)"
  by (subst writei_loop.simps) simp

lemma writei_loop_kern:
  assumes "cache_at p {} s" and "room (chunks (unat off) left + k) s" and "file_wf (view s) (klog s) (inodes s ! ip) n"
    and "unat off + left \<le> n * BSIZE" and "left \<le> length bs"
  shows "\<exists>t. writei_loop ip (KernBytes bs) off left tot s = Ok (tot + left, off + of_nat left) t \<and> cache_at p {} t \<and> tx_frame s t \<and>
    room k t \<and> patched (view s) (view t) (inodes s ! ip) n (unat off) (take left bs) \<and> file_wf (view t) (klog t) (inodes s ! ip) n \<and>
    log_homes (klog s) \<subseteq> log_homes (klog t)"
  using assms
proof (induction left arbitrary: off tot s bs rule: less_induct)
  case (less left)
  let ?x = "inodes s ! ip" let ?c = "io_chunk off left" let ?k = "unat off" let ?v = "view s"
  show ?case
  proof (cases "left = 0")
    case True
    then show ?thesis using less by (intro exI[of _ s]) (simp add: writei_loop_0 patched_Nil chunks_def)
  next
    case False
    then have c0: "0 < ?c" and cl: "?c \<le> left" "?c \<le> BSIZE - ?k mod BSIZE" using io_chunk_pos io_chunk_le by auto
    have ud: "unat (off div of_nat BSIZE) = ?k div BSIZE" by (simp add: unat_div BSIZE_def)
    have j: "?k div BSIZE < n" using div_lt_blocks[of ?k n] less(5) False by simp
    have mp: "mapped ?v (klog s) ?x n" using less(4) by (simp add: file_wf_def)
    let ?a = "file_addr ?v ?x (?k div BSIZE)"
    have a: "?a \<noteq> 0" "?a \<notin> log_area (klog s)" "i_dev ?x = ROOTDEV" using mp j by (auto simp: mapped_def)
    have ch: "chunks ?k left = Suc (chunks (?k + ?c) (left - ?c))" using chunks_step[of left ?c ?k] False by (simp add: io_chunk_def)
    have nb: "log_n (klog s) < NBUF" using less(3) ch by (simp add: room_def LOGSIZE_def NBUF_def)
    obtain s1 where s1: "bmap ip (off div of_nat BSIZE) s = Ok ?a s1" "undisturbed p s s1"
      using bmap_mapped[OF less(2) nb mp, of "off div of_nat BSIZE"] j ud by auto
    note q = undisturbedD[OF s1(2)]
    let ?d = "put_bytes (?k mod BSIZE) (take ?c bs) (?v ?a)"
    have len: "length (?v b) = BSIZE" for b using less(2) by (simp add: cache_at_def bc_ready_def)
    have tk: "length (take ?c bs) = ?c" using less(6) cl(1) by simp
    have ld: "length ?d = BSIZE" using len tk cl(2) mod_less_divisor[of BSIZE ?k] by (simp add: BSIZE_def)
    have r1: "room (Suc (chunks (?k + ?c) (left - ?c) + k)) s1" using less(3) ch q(3) by (simp add: room_def)
    have "can_hold {} ?a s1" using can_hold_room[OF q(1), of ?a] room_mono[OF r1, of 1] a(2) q(3) by simp
    then obtain b u v w s2 where s2: "bread ROOTDEV ?a s1 = Ok b u" "buf_data b u = Ok (?v ?a) u" "set_data b ?d u = Ok () v"
        "log_write b v = Ok () w" "brelse b w = Ok () s2" "cache_at p {} s2" "tx_frame s1 s2" "view s2 = ?v(?a := ?d)"
        "room (chunks (?k + ?c) (left - ?c) + k) s2" "log_homes (klog s2) = insert ?a (log_homes (klog s1))"
      using tx_update[OF q(1) _ r1 ld] unfolding q(2) by blast
    have f2: "tx_frame s s2" using s1(2) s2(7) tx_frame_trans by (auto simp: undisturbed_def)
    note fd = tx_frameD[OF f2]
    have p1: "patched ?v (view s2) ?x n ?k (take ?c bs)"
      unfolding s2(8) using patched_chunk[OF less(4) j len] tk cl(2) by simp
    have wf2: "file_wf (view s2) (klog s2) (inodes s2 ! ip) n"
      using less(4) file_wf_upd[OF file_wf_indirect[OF less(4) j], of ?v ?d "klog s" n] s2(8) fd(4,14)
      by (simp add: file_wf_def mapped_def)
    have bound: "?k + left < 2 ^ 32"
      using less(5) mp by (simp add: mapped_def MAXFILE_def NDIRECT_def NINDIRECT_def BSIZE_def)
    have step: "unat (off + of_nat ?c) = ?k + ?c" using unat_off_step[of off ?c] bound cl(1) by simp
    have "left - ?c \<le> length (drop ?c bs)" using less(6) by simp
    then obtain t where t: "writei_loop ip (KernBytes (drop ?c bs)) (off + of_nat ?c) (left - ?c) (tot + ?c) s2 =
          Ok (tot + ?c + (left - ?c), off + of_nat ?c + of_nat (left - ?c)) t" "cache_at p {} t" "tx_frame s2 t" "room k t"
        "patched (view s2) (view t) ?x n (?k + ?c) (take (left - ?c) (drop ?c bs))" "file_wf (view t) (klog t) ?x n"
        "log_homes (klog s2) \<subseteq> log_homes (klog t)"
      using less(1)[of "left - ?c" s2 "off + of_nat ?c" "drop ?c bs" "tot + ?c"] c0 cl(1) s2(6,9) wf2 step less(5) fd(4) False
      by (auto simp del: length_drop)
    have tb: "take left bs = take ?c bs @ take (left - ?c) (drop ?c bs)" using cl(1) by (metis le_add_diff_inverse take_add)
    have pt: "patched ?v (view t) ?x n ?k (take left bs)"
      unfolding tb using patched_append[OF p1] t(5) tk by simp
    have "writei_loop ip (KernBytes bs) off left tot s = Ok (tot + left, off + of_nat left) t"
      using False s1(1) a s2(1-5) t(1) cl(1) undisturbedD(4)[OF s1(2)]
      by (subst writei_loop.simps) (simp add: get_inode_def either_copyin_def upd_data_def add.assoc flip: of_nat_add)
    then show ?thesis using t(2,4,6,7) pt tx_frame_trans[OF f2 t(3)] s2(10) q(3) by auto
  qed
qed

text \<open>An inode whose blocks are in place: its file is well-formed, and its inode block is neither in the
  log nor one of the blocks of the file.\<close>

definition inode_ok :: "kstate \<Rightarrow> nat \<Rightarrow> bool" where
  "inode_ok s ip \<longleftrightarrow> (let x = inodes s ! ip; n = blocks_for (unat (i_size x)); b = IBLOCK (i_inum x) (sb s) in
     file_wf (view s) (klog s) x n \<and> length (i_addrs x) = NDIRECT + 1 \<and> b \<notin> log_area (klog s) \<and>
     b \<notin> file_addr (view s) x ` {..<n} \<and> b \<noteq> i_addrs x ! NDIRECT)"

lemma tbl_upd_same: "(i < length xs \<Longrightarrow> f (xs ! i) = xs ! i) \<Longrightarrow> tbl_upd i f xs = xs"
  by (auto simp: tbl_upd_def list_update_same_conv)

lemma fbyte_other:
  assumes "\<And>i. i < n \<Longrightarrow> file_addr v x i \<noteq> b" and "b \<noteq> i_addrs x ! NDIRECT" and "k < n * BSIZE"
  shows "fbyte (v(b := d)) x k = fbyte v x k"
  using assms(1)[OF div_lt_blocks[OF assms(3)]] assms(2) by (simp add: fbyte_def file_addr_upd)

lemma size_le_blocks: "k \<le> blocks_for k * BSIZE"
  unfolding blocks_for_def BSIZE_def by simp

lemma nth_file_bytes [simp]: "i < n \<Longrightarrow> file_bytes v x off n ! i = fbyte v x (off + i)" "length (file_bytes v x off n) = n"
  by (simp_all add: file_bytes_def)

text \<open>The content of the file after a write inside it.\<close>

lemma patched_file:
  assumes p: "patched v w x n off bs" and sz: "off + length bs \<le> sz" "sz \<le> n * BSIZE"
  shows "file_bytes w x 0 sz = put_bytes off bs (file_bytes v x 0 sz)"
proof (rule nth_equalityI)
  show "length (file_bytes w x 0 sz) = length (put_bytes off bs (file_bytes v x 0 sz))" using sz by simp
  fix i assume "i < length (file_bytes w x 0 sz)"
  then show "file_bytes w x 0 sz ! i = put_bytes off bs (file_bytes v x 0 sz) ! i"
    using sz p nth_put_bytes[of off bs "file_bytes v x 0 sz" i] by (auto simp: patched_def)
qed

lemma writei_inside:
  assumes tx: "cache_at p {} s" and ok: "inode_ok s ip" and fit: "unat off + length bs \<le> unat (i_size (inodes s ! ip))"
    and room: "room (chunks (unat off) (length bs) + Suc k) s"
  shows "\<exists>t. writei ip (KernBytes bs) off (of_nat (length bs)) s = Ok (int (length bs)) t \<and> cache_at p {} t \<and> tx_frame s t \<and> room k t \<and>
    inode_ok t ip \<and> file_bytes (view t) (inodes s ! ip) 0 (unat (i_size (inodes s ! ip))) =
      put_bytes (unat off) bs (file_bytes (view s) (inodes s ! ip) 0 (unat (i_size (inodes s ! ip)))) \<and>
    log_homes (klog t) \<noteq> {}"
proof -
  let ?x = "inodes s ! ip" let ?sz = "unat (i_size ?x)" let ?n = "blocks_for ?sz" let ?b = "IBLOCK (i_inum ?x) (sb s)"
  have wf: "file_wf (view s) (klog s) ?x ?n" and al: "length (i_addrs ?x) = NDIRECT + 1" and area: "?b \<notin> log_area (klog s)"
    and bf: "\<And>i. i < ?n \<Longrightarrow> file_addr (view s) ?x i \<noteq> ?b" and bi: "?b \<noteq> i_addrs ?x ! NDIRECT"
    using ok unfolding inode_ok_def Let_def by (blast, blast, blast, metis imageI lessThan_iff, blast)
  have mp: "mapped (view s) (klog s) ?x ?n" using wf by (simp add: file_wf_def)
  have mx: "?sz \<le> MAXFILE * BSIZE" using blocks_for_max[of ?sz] mp by (simp add: mapped_def)
  have small: "length bs < 2 ^ 32" "unat off + length bs < 2 ^ 32" using fit unat_lt32[of "i_size ?x"] by simp_all
  have ul: "unat (of_nat (length bs) :: u32) = length bs" using small(1) by (simp add: unsigned_of_nat take_bit_nat_eq_self)
  have uo: "unat (off + of_nat (length bs)) = unat off + length bs" using unat_off_step[OF small(2)] .
  obtain s1 where s1: "writei_loop ip (KernBytes bs) off (length bs) 0 s = Ok (0 + length bs, off + of_nat (length bs)) s1"
      "cache_at p {} s1" "tx_frame s s1" "room (Suc k) s1" "patched (view s) (view s1) ?x ?n (unat off) (take (length bs) bs)"
      "file_wf (view s1) (klog s1) ?x ?n"
    using writei_loop_kern[OF tx room wf, of bs 0] fit size_le_blocks[of ?sz] by (meson order_trans order_refl)
  note f1 = tx_frameD[OF s1(3)]
  let ?f = "\<lambda>y. if off + of_nat (length bs) > i_size y then y\<lparr>i_size := off + of_nat (length bs)\<rparr> else y"
  have "tbl_upd ip ?f (inodes s1) = inodes s1" using f1(4) uo fit by (intro tbl_upd_same) (simp add: word_less_nat_alt)
  then have up: "upd_inode ip ?f s1 = Ok () s1" by (simp add: upd_inode_def)
  have ch: "can_hold {} (IBLOCK (i_inum ?x) (sb s1)) s1" using can_hold_room[OF s1(2)] room_mono[OF s1(4)] area f1(3,14) by simp
  have x1: "inodes s1 ! ip = ?x" "i_dev ?x = ROOTDEV" using f1(4) mp by (simp_all add: mapped_def)
  obtain t where t: "iupdate ip s1 = Ok () t" "cache_at p {} t" "tx_frame s1 t" "room k t"
      "view t = (view s1)(?b := store_dinode (dinode_off (i_inum ?x)) ?x (view s1 ?b))" "log_homes (klog t) = insert ?b (log_homes (klog s1))"
    using iupdate_Ok[OF s1(2) x1 al ch s1(4)] unfolding f1(3) by blast
  have fa: "file_addr (view s1) ?x = file_addr (view s) ?x" using s1(5) by (simp add: patched_def)
  have "file_bytes (view t) ?x 0 ?sz = file_bytes (view s1) ?x 0 ?sz"
    using fbyte_other[of ?n "view s1" ?x ?b] bf bi size_le_blocks[of ?sz] unfolding fa t(5)
    by (intro nth_equalityI) simp_all
  also have "\<dots> = put_bytes (unat off) bs (file_bytes (view s) ?x 0 ?sz)"
    using patched_file[OF s1(5)] fit size_le_blocks[of ?sz] by simp
  finally have fb: "file_bytes (view t) ?x 0 ?sz = put_bytes (unat off) bs (file_bytes (view s) ?x 0 ?sz)" .
  have fr: "tx_frame s t" using s1(3) t(3) by (rule tx_frame_trans)
  have fat: "file_addr (view t) ?x = file_addr (view s) ?x" using file_addr_upd[of ?b ?x] bi fa t(5) by simp
  then have "inode_ok t ip" using ok tx_frameD(3,4,14)[OF fr] by (simp add: inode_ok_def Let_def file_wf_def mapped_def)
  moreover have "\<not> i_size ?x < off" "\<not> off + of_nat (length bs) < off" "\<not> MAXFILE * BSIZE < unat (off + of_nat (length bs))"
    using fit uo mx by (auto simp: word_less_nat_alt)
  then have "writei ip (KernBytes bs) off (of_nat (length bs)) s = Ok (int (length bs)) t"
    using s1(1) up t(1) ul uint_as_int_small[of "length bs"] fit mx by (simp add: writei_def get_inode_def cong: if_cong)
  ultimately show ?thesis using t(2,4,6) fb fr by blast
qed

text \<open>The example file of \<open>Inodes.thy\<close>: 20 zero bytes in block 46.\<close>

lemma file_state_file:
  "inode_ok file_state 0" "file_bytes (view file_state) file_inode 0 20 = replicate 20 0" "unat (i_size file_inode) = 20"
proof -
  note f = file_state_facts
  have x: "inodes file_state ! 0 = file_inode" "i_size file_inode = 20" "i_inum file_inode = 1" using f(3) by (simp_all add: file_inode_def)
  have n: "blocks_for 20 = 1" by (simp add: blocks_for_def BSIZE_def)
  have a: "file_addr v file_inode 0 = 46" for v by (simp add: file_addr_def file_inode_def NDIRECT_def)
  have d: "i_addrs file_inode ! NDIRECT = 0" "i_dev file_inode = ROOTDEV" "length (i_addrs file_inode) = NDIRECT + 1"
    by (simp_all add: file_inode_def NDIRECT_def)
  have l: "46 \<notin> log_area fs_log" "32 \<notin> log_area fs_log" using fs_areas(2) by force+
  have b: "IBLOCK 1 fs_sb = 32" by (simp add: IBLOCK_def IPB_def fs_sb_def)
  have "file_wf (view file_state) fs_log file_inode 1"
    using a d l by (simp add: file_wf_def mapped_def MAXFILE_def NDIRECT_def lessThan_Suc)
  then show "inode_ok file_state 0" using x n a d l b f(5,6) by (simp add: inode_ok_def lessThan_Suc)
  show "file_bytes (view file_state) file_inode 0 20 = replicate 20 0"
  proof (rule nth_equalityI)
    have dk: "disk file_state 46 = replicate BSIZE 0" by (simp add: file_state_def fs_state_def)
    fix i assume "i < length (file_bytes (view file_state) file_inode 0 20)"
    then show "file_bytes (view file_state) file_inode 0 20 ! i = replicate 20 0 ! i"
      using a dk f(7) by (simp add: fbyte_def BSIZE_def)
  qed simp
  show "unat (i_size file_inode) = 20" using x by simp
qed

lemma put_789: "put_bytes 15 [7, 8, 9] (replicate 20 0) = replicate 15 0 @ [7, 8, 9] @ replicate 2 (0 :: byte)"
  by (simp add: put_bytes_def take_replicate drop_replicate)

text \<open>
  C5: writing inside a file. Inside a transaction with room for the blocks touched, the inode and one more,
  \<open>writei\<close> of \<open>bs\<close> at an offset within the file returns the number of bytes, leaves the disk alone,
  replaces exactly the bytes from the offset on by \<open>bs\<close> in the content of the file, across blocks and
  through the indirect block; and \<open>readi\<close> of the same range then returns \<open>bs\<close>.
\<close>

theorem writei_readi:
  assumes tx: "cache_at p {} s" and ok: "inode_ok s ip" and fit: "unat off + length bs \<le> unat (i_size (inodes s ! ip))"
    and room: "room (chunks (unat off) (length bs) + 2) s"
  shows "\<exists>t u. writei ip (KernBytes bs) off (of_nat (length bs)) s = Ok (int (length bs)) t \<and> disk t = disk s \<and> inodes t = inodes s \<and>
    file_bytes (view t) (inodes t ! ip) 0 (unat (i_size (inodes t ! ip))) =
      put_bytes (unat off) bs (file_bytes (view s) (inodes s ! ip) 0 (unat (i_size (inodes s ! ip)))) \<and>
    readi ip KernVar off (of_nat (length bs)) t = Ok (int (length bs), bs) u \<and> view u = view t"
proof -
  let ?x = "inodes s ! ip" let ?sz = "unat (i_size ?x)"
  obtain t where t: "writei ip (KernBytes bs) off (of_nat (length bs)) s = Ok (int (length bs)) t" "cache_at p {} t" "tx_frame s t" "room 1 t"
      "inode_ok t ip" "file_bytes (view t) ?x 0 ?sz = put_bytes (unat off) bs (file_bytes (view s) ?x 0 ?sz)"
    using writei_inside[OF tx ok fit, of 1] room by auto
  note f = tx_frameD[OF t(3)]
  have mp: "mapped (view t) (klog t) (inodes t ! ip) (blocks_for (unat (i_size (inodes t ! ip))))"
    using t(5) by (simp add: inode_ok_def Let_def file_wf_def)
  have mx: "?sz \<le> MAXFILE * BSIZE" using blocks_for_max[of ?sz] mp f(4) by (simp add: mapped_def)
  have small: "unat off + length bs < 2 ^ 32" using fit unat_lt32[of "i_size ?x"] by simp
  have ul: "unat (of_nat (length bs) :: u32) = length bs" using small by (simp add: unsigned_of_nat take_bit_nat_eq_self)
  have uo: "unat (off + of_nat (length bs)) = unat off + length bs" using unat_off_step[OF small] .
  have lim: "\<not> i_size ?x < off" "\<not> off + of_nat (length bs) < off" "\<not> i_size ?x < off + of_nat (length bs)"
    using fit uo by (auto simp: word_less_nat_alt)
  have nb: "log_n (klog t) < NBUF" using t(4) by (simp add: room_def LOGSIZE_def NBUF_def)
  have "mapped (view t) (klog t) (inodes t ! ip) (blocks_for (unat off + length bs))"
    using mapped_mono[OF mp] blocks_for_mono[OF fit] f(4) by simp
  then obtain u where u: "readi_loop ip KernVar off (length bs) 0 t = Ok (uint_as_int (0 + length bs), file_bytes (view t) (inodes t ! ip) (unat off) (length bs)) u"
      "undisturbed p t u"
    using readi_loop_kern[OF t(2) nb _ small] by blast
  have "file_bytes (view t) ?x (unat off) (length bs) = get_bytes (unat off) (length bs) (file_bytes (view t) ?x 0 ?sz)"
    using fit by (intro nth_equalityI) simp_all
  also have "\<dots> = bs" unfolding t(6) using fit by simp
  finally have "readi ip KernVar off (of_nat (length bs)) t = Ok (int (length bs), bs) u"
    using u(1) lim ul uint_as_int_small[of "length bs"] fit mx f(4) by (simp add: readi_def get_inode_def)
  then show ?thesis using t(1,6) u(2) f by (auto simp: undisturbed_def)
qed

lemma writei_readi_witness:
  "\<exists>t u. writei 0 (KernBytes [7, 8, 9]) 15 3 file_state = Ok 3 t \<and>
    file_bytes (view t) (inodes t ! 0) 0 20 = replicate 15 0 @ [7, 8, 9] @ replicate 2 0 \<and>
    readi 0 KernVar 15 3 t = Ok (3, [7, 8, 9]) u"
proof -
  note f = file_state_facts and g = file_state_file
  have r: "room (chunks (unat (15 :: u32)) (length [7, 8, 9 :: byte]) + 2) file_state" using room_mono[OF f(2)] by (simp add: chunks_def blocks_for_def BSIZE_def)
  obtain t u where "writei 0 (KernBytes [7, 8, 9]) 15 3 file_state = Ok 3 t" "inodes t = inodes file_state"
      "file_bytes (view t) (inodes t ! 0) 0 (unat (i_size (inodes t ! 0))) = put_bytes 15 [7, 8, 9] (replicate 20 0)"
      "readi 0 KernVar 15 3 t = Ok (3, [7, 8, 9]) u"
    using writei_readi[OF f(1) g(1) _ r] f(3) g(2,3) by auto
  then show ?thesis using f(3) g(3) put_789 by (intro exI[of _ t] exI[of _ u]) simp
qed

end
