(* ===== verification/Crash.thy ===== *)
theory Crash
  imports Filedata
begin

text \<open>
  A file-system operation as a whole: \<open>begin_op\<close>, the operation, \<open>end_op\<close>. The theory composes the
  transaction rules of \<open>Trans.thy\<close> with the crash behaviour of \<open>commit\<close> proved in \<open>Log.thy\<close>: whatever
  the operation changed is on disk after a crash and recovery either completely or not at all.
\<close>

section \<open>Operations bracketed by begin and end\<close>

text \<open>No operation is running: the log is empty in memory and on disk, and can take one operation.\<close>

definition log_idle :: "nat \<Rightarrow> kstate \<Rightarrow> bool" where
  "log_idle p s \<longleftrightarrow> cache_at p {} s \<and> log_n (klog s) = 0 \<and> l_outstanding (klog s) = 0 \<and> \<not> l_committing (klog s)
     \<and> MAXOPBLOCKS + 1 \<le> l_size (klog s) \<and> hdr_n (disk s (l_start (klog s))) = 0"

lemma cache_at_log:
  assumes "cache_at p B s" and "l_lh l = l_lh (klog s)" and "l_start l = l_start (klog s)" and "l_size l = l_size (klog s)"
    and "l_dev l = l_dev (klog s)"
  shows "cache_at p B (s\<lparr>klog := l\<rparr>)"
proof -
  have h: "log_home l = log_home (klog s)" using assms(2) by (simp add: log_home_def fun_eq_iff)
  have e: "log_area l = log_area (klog s)" "log_homes l = log_homes (klog s)" "log_ok l = log_ok (klog s)"
    using assms(2-5) by (simp_all add: log_area_def log_blk_def log_cap_def log_homes_def h log_n_def log_ok_def)
  show ?thesis using assms(1) unfolding cache_at_def by (simp add: e)
qed

lemma begin_op_Ok:
  assumes "log_idle p s"
  defines "t \<equiv> s\<lparr>klog := (klog s)\<lparr>l_outstanding := 1\<rparr>\<rparr>"
  shows "begin_op s = Ok () t" and "cache_at p {} t" and "room 10 t" and "view t = view s"
proof -
  have l: "cache_at p {} s" "log_n (klog s) = 0" "l_outstanding (klog s) = 0" "\<not> l_committing (klog s)" "11 \<le> l_size (klog s)"
    using assms(1) by (simp_all add: log_idle_def MAXOPBLOCKS_def)
  have h: "held s = {}" "lh_n (l_lh (klog s)) = 0"
    using l by (auto simp: cache_at_def bc_ready_def in_proc_def log_ok_def log_n_def)
  show "begin_op s = Ok () t" using h l by (simp add: begin_op_def upd_log_def t_def MAXOPBLOCKS_def LOGSIZE_def)
  show "cache_at p {} t" unfolding t_def using l(1) by (rule cache_at_log) simp_all
  show "room 10 t" using l by (simp add: room_def t_def log_n_def LOGSIZE_def)
  show "view t = view s" by (simp add: t_def)
qed

lemma commit_ready_cache:
  assumes "cache_at p {} s" and "log_n (klog s) < NBUF"
  shows "commit_ready p s"
proof -
  have h: "log_home (klog s) i \<in> log_homes (klog s)" if "i < log_n (klog s)" for i using that by (simp add: log_homes_def)
  have "rc s bn = 0" if "bn \<in> log_area (klog s)" for bn
    using assms(1) that by (auto simp: cache_at_def log_ok_def log_homes_def)
  moreover have "0 < nfree s" using assms card_log_homes[of "klog s"] by (auto simp: cache_at_def)
  ultimately show ?thesis using assms(1) h by (simp add: commit_ready_def cache_at_def)
qed

lemma view_procs [simp]: "view (s\<lparr>procs := x\<rparr>) = view s"
  by (simp add: view_def cached_def fun_eq_iff split: option.split)

lemma apply_writes_same: "(\<And>w. w \<in> set ws \<Longrightarrow> fst w = n \<Longrightarrow> snd w = d n) \<Longrightarrow> apply_writes ws d n = d n"
  by (induction ws arbitrary: d) (auto simp: apply_writes_Cons)

lemma commit_writes_view:
  assumes "log_ok l" and "bn \<notin> log_area l"
  shows "apply_writes (commit_writes l v) v bn = v bn"
proof (rule apply_writes_same)
  fix w assume w: "w \<in> set (commit_writes l v)" "fst w = bn"
  have "log_blk l i \<in> log_area l" if "i < log_n l" for i
    using that log_ok_cap[OF assms(1)] by (simp add: log_area_def)
  moreover have "l_start l \<in> log_area l" by (simp add: log_area_def)
  ultimately show "snd w = v bn" using w assms(2)
    by (auto simp: commit_writes_def log_writes_def home_copies_def)
qed

text \<open>The end of the only outstanding operation commits the transaction.\<close>

definition commit_state :: "kstate \<Rightarrow> kstate" where
  "commit_state s = s\<lparr>klog := (klog s)\<lparr>l_outstanding := 0, l_committing := True\<rparr>\<rparr>"

lemma commit_state_simps [simp]:
  "view (commit_state s) = view s" "disk (commit_state s) = disk s" "dwrites (commit_state s) = dwrites s"
  "log_n (klog (commit_state s)) = log_n (klog s)" "log_homes (klog (commit_state s)) = log_homes (klog s)"
  "log_area (klog (commit_state s)) = log_area (klog s)" "l_start (klog (commit_state s)) = l_start (klog s)"
  "l_size (klog (commit_state s)) = l_size (klog s)"
  by (simp_all add: commit_state_def log_n_def log_homes_def log_home_def log_area_def log_blk_def log_cap_def)

lemma end_op_commit:
  assumes tx: "cache_at p {} s" and l: "l_outstanding (klog s) = 1" "\<not> l_committing (klog s)" and n: "0 < log_n (klog s)" "log_n (klog s) < NBUF"
  shows "\<exists>c t. commit (commit_state s) = Ok () c \<and> end_op s = Ok () t \<and> dwrites t = dwrites c \<and> disk t = disk c \<and> view t = view c \<and>
    in_proc p t \<and> l_outstanding (klog t) = 0 \<and> \<not> l_committing (klog t) \<and> log_n (klog t) = 0"
proof -
  have "cache_at p {} (commit_state s)" unfolding commit_state_def using tx by (rule cache_at_log) simp_all
  then have "commit_ready p (commit_state s)" using n(2) by (intro commit_ready_cache) simp_all
  from commit_Ok[OF this] n(1) obtain c where c: "commit (commit_state s) = Ok () c" "bc_ready p c"
      "bc_frame (commit_state s\<lparr>klog := clear_log (klog (commit_state s))\<rparr>) c" by auto
  have kc: "klog c = clear_log (klog (commit_state s))" using bc_frameD(3)[OF c(3)] by simp
  have pc: "in_proc p c" using c(2) by (simp add: bc_ready_def)
  have hs: "held s = {}" using tx by (simp add: cache_at_def bc_ready_def in_proc_def)
  let ?d = "c\<lparr>held := {L_log}, klog := (klog c)\<lparr>l_committing := False\<rparr>\<rparr>"
  have "wakeup C_log ?d = Ok () (?d\<lparr>procs := wake C_log (Some p) (procs c)\<rparr>)"
    using wakeup_Ok[of ?d C_log] pc by (simp add: no_proc_locks_def in_proc_def)
  then have e: "end_op s = Ok () (c\<lparr>klog := (klog c)\<lparr>l_committing := False\<rparr>, procs := wake C_log (Some p) (procs c)\<rparr>)"
    using hs l c(1) pc by (simp add: end_op_def upd_log_def commit_state_def in_proc_def)
  show ?thesis
    by (rule exI[of _ c], rule exI, intro conjI, rule c(1), rule e)
      (use pc kc in \<open>simp_all add: in_proc_def log_n_def clear_log_def commit_state_def\<close>)
qed

text \<open>
  An operation run between \<open>begin_op\<close> and \<open>end_op\<close>, with a crash after any number of its disk writes:
  after recovery the blocks outside the log are all as before the operation or all as it left them.
\<close>

definition fs_op :: "'a K \<Rightarrow> 'a K" where
  "fs_op m = mbind begin_op (\<lambda>_. mbind m (\<lambda>x. mbind end_op (\<lambda>_. ret x)))"

definition agree :: "log \<Rightarrow> (u32 \<Rightarrow> byte list) \<Rightarrow> (u32 \<Rightarrow> byte list) \<Rightarrow> bool" where
  "agree l v w \<longleftrightarrow> (\<forall>bn. bn \<notin> log_area l \<longrightarrow> v bn = w bn)"

definition crashed :: "log \<Rightarrow> (u32 \<Rightarrow> byte list) \<Rightarrow> nat \<Rightarrow> superblock \<Rightarrow> kstate \<Rightarrow> bool" where
  "crashed l d q sbk r \<longleftrightarrow> in_proc q r \<and> disk r = d \<and> length (lh_block (l_lh (klog r))) = LOGSIZE \<and>
     sb_logstart sbk = l_start l \<and> sint (sb_nlog sbk) = l_size l"

lemma idle_view: "log_idle p s \<Longrightarrow> view s = disk s"
  using unheld_clean[of p "{}" s] by (auto simp: log_idle_def log_homes_def)

lemma commit_atomic:
  assumes tx: "cache_at p {} s" and n: "0 < log_n (klog s)" "log_n (klog s) < NBUF" and h: "hdr_n (disk s (l_start (klog s))) = 0"
  shows "\<exists>t ws. commit (commit_state s) = Ok () t \<and> dwrites t = dwrites s @ ws \<and> agree (klog s) (view t) (view s) \<and>
    (\<forall>k \<le> length ws. \<forall>q sbk r. crashed (klog s) (apply_writes (take k ws) (disk s)) q sbk r \<longrightarrow>
       (\<exists>u. reboot sbk r = Ok () u \<and> (agree (klog s) (view u) (disk s) \<or> agree (klog s) (view u) (view s))))"
proof -
  let ?s = "commit_state s"
  have tx': "cache_at p {} ?s" unfolding commit_state_def using tx by (rule cache_at_log) simp_all
  then have rdy: "commit_ready p ?s" using n(2) by (intro commit_ready_cache) simp_all
  obtain t ws where t: "commit ?s = Ok () t" "dwrites t = dwrites s @ ws"
      "\<forall>k \<le> length ws. \<forall>q r sbk.
       in_proc q r \<and> disk r = apply_writes (take k ws) (disk ?s) \<and>
       length (lh_block (l_lh (klog r))) = LOGSIZE \<and> sb_logstart sbk = l_start (klog ?s) \<and> sint (sb_nlog sbk) = l_size (klog ?s) \<longrightarrow>
       (\<exists>u. reboot sbk r = Ok () u \<and> bc_ready q u \<and> lh_n (l_lh (klog u)) = 0 \<and>
          (\<forall>bn. bn \<notin> log_area (klog ?s) \<longrightarrow> view u bn = disk u bn \<and> disk u bn =
             (if log_n (klog ?s) < k \<and> bn \<in> log_homes (klog ?s) then view ?s bn else disk ?s bn)))"
    using commit_crash[OF rdy] n(1) h by auto
  have v: "view s bn = (if bn \<in> log_homes (klog s) then view s bn else disk s bn)" for bn
    using unheld_clean[OF tx, of bn] by auto
  have "\<exists>u. reboot sbk r = Ok () u \<and> (agree (klog s) (view u) (disk s) \<or> agree (klog s) (view u) (view s))"
    if k: "k \<le> length ws" and c: "crashed (klog s) (apply_writes (take k ws) (disk s)) q sbk r" for k q sbk r
  proof -
    obtain u where u: "reboot sbk r = Ok () u" "\<forall>bn. bn \<notin> log_area (klog s) \<longrightarrow> view u bn = disk u bn \<and> disk u bn =
             (if log_n (klog s) < k \<and> bn \<in> log_homes (klog s) then view s bn else disk s bn)"
      using t(3) k c unfolding crashed_def by (metis commit_state_simps)
    then show ?thesis using v by (cases "log_n (klog s) < k") (auto simp: agree_def)
  qed
  moreover have "agree (klog s) (view t) (view s)"
    using commit_Ok[OF rdy] n(1) t(1) commit_writes_view[of "klog ?s" _ "view ?s"] tx' by (auto simp: agree_def cache_at_def)
  ultimately show ?thesis using t(1,2) by blast
qed

lemma fs_op_atomic:
  assumes idle: "log_idle p s" and m: "m (s\<lparr>klog := (klog s)\<lparr>l_outstanding := 1\<rparr>\<rparr>) = Ok x w"
    and w: "cache_at p {} w" "tx_frame (s\<lparr>klog := (klog s)\<lparr>l_outstanding := 1\<rparr>\<rparr>) w" "log_homes (klog w) \<noteq> {}" "log_n (klog w) < NBUF"
  shows "\<exists>t ws. fs_op m s = Ok x t \<and> dwrites t = dwrites s @ ws \<and> agree (klog s) (view t) (view w) \<and>
    (\<forall>k \<le> length ws. \<forall>q sbk r. crashed (klog s) (apply_writes (take k ws) (disk s)) q sbk r \<longrightarrow>
       (\<exists>u. reboot sbk r = Ok () u \<and> (agree (klog s) (view u) (view s) \<or> agree (klog s) (view u) (view w))))"
proof -
  let ?s = "s\<lparr>klog := (klog s)\<lparr>l_outstanding := 1\<rparr>\<rparr>"
  note f = tx_frameD[OF w(2)]
  have kw: "klog w = (klog ?s)\<lparr>l_lh := l_lh (klog w)\<rparr>" using w(2) by (simp add: tx_frame_def)
  have l: "l_outstanding (klog w) = 1" "\<not> l_committing (klog w)" using idle by (subst kw, simp add: log_idle_def)+
  have k: "l_start (klog w) = l_start (klog s)" "l_size (klog w) = l_size (klog s)" "log_area (klog w) = log_area (klog s)"
    using f(12-14) by (simp_all add: log_area_def log_blk_def log_cap_def)
  have h: "hdr_n (disk w (l_start (klog w))) = 0" using idle f(10) k by (simp add: log_idle_def)
  have n: "0 < log_n (klog w)" using w(3) by (cases "log_n (klog w)") (auto simp: log_homes_def)
  obtain c ws where c: "commit (commit_state w) = Ok () c" "dwrites c = dwrites w @ ws" "agree (klog w) (view c) (view w)"
      "\<forall>k \<le> length ws. \<forall>q sbk r. crashed (klog w) (apply_writes (take k ws) (disk w)) q sbk r \<longrightarrow>
       (\<exists>u. reboot sbk r = Ok () u \<and> (agree (klog w) (view u) (disk w) \<or> agree (klog w) (view u) (view w)))"
    using commit_atomic[OF w(1) n w(4) h] by blast
  obtain t where t: "end_op w = Ok () t" "dwrites t = dwrites c" "view t = view c"
    using end_op_commit[OF w(1) l n w(4)] c(1) by auto
  have e: "agree (klog w) = agree (klog s)" "crashed (klog w) = crashed (klog s)" "disk w = disk s" "disk s = view s" "dwrites w = dwrites s"
    using k f(10,11) idle_view[OF idle] by (simp_all add: agree_def crashed_def fun_eq_iff)
  have "fs_op m s = Ok x t" using begin_op_Ok(1)[OF idle] m t(1) by (simp add: fs_op_def)
  then show ?thesis using c(2-4) t(2,3) unfolding e by (intro exI[of _ t] exI[of _ ws]) (simp add: e(4))
qed

lemma file_bytes_agree:
  assumes "agree l v w" and "mapped v l x (blocks_for n)"
  shows "file_bytes w x 0 n = file_bytes v x 0 n"
proof -
  have "fbyte w x k = fbyte v x k" if "k < n" for k
  proof -
    have i: "k div BSIZE < blocks_for n" using blocks_for_div[OF that] .
    have "file_addr w x (k div BSIZE) = file_addr v x (k div BSIZE)"
      using assms i by (auto simp: file_addr_def mapped_def agree_def)
    moreover have "file_addr v x (k div BSIZE) \<notin> log_area l" using assms(2) i by (simp add: mapped_def)
    ultimately show ?thesis using assms(1) by (simp add: fbyte_def agree_def)
  qed
  then show ?thesis by (simp add: file_bytes_def)
qed

section \<open>A file write is atomic with respect to crashes\<close>


text \<open>The example file with no operation running.\<close>

definition quiet_state :: kstate where
  "quiet_state = file_state\<lparr>klog := fs_log\<lparr>l_outstanding := 0\<rparr>\<rparr>"

lemma quiet_state_facts:
  "log_idle 0 quiet_state" "inode_ok quiet_state 0" "inodes quiet_state ! 0 = file_inode" "view quiet_state = view file_state"
proof -
  have l: "log_area (fs_log\<lparr>l_outstanding := 0\<rparr>) = log_area fs_log" by (simp add: log_area_def log_blk_def log_cap_def)
  have "cache_at 0 {} quiet_state"
    unfolding quiet_state_def using file_state_facts(1) by (rule cache_at_log) (simp_all add: file_state_facts(6))
  moreover have "hdr_n (replicate BSIZE 0) = 0" by (simp add: hdr_n_def get32_def get_bytes_def of_le32_def BSIZE_def eval_nat_numeral)
  ultimately show "log_idle 0 quiet_state"
    by (simp add: log_idle_def quiet_state_def fs_log_def log_n_def MAXOPBLOCKS_def file_state_def fs_state_def)
  show "inode_ok quiet_state 0"
    using file_state_file(1) l file_state_facts(6) by (simp add: quiet_state_def inode_ok_def Let_def file_wf_def mapped_def)
  show "inodes quiet_state ! 0 = file_inode" "view quiet_state = view file_state"
    using file_state_facts(3) by (simp_all add: quiet_state_def)
qed


end
