(* ===== verification/Virtio.thy ===== *)
theory Virtio
  imports Kalloc Ring
begin

text \<open>
  The disk driver (\<open>virtio_disk.c\<close>): the descriptor table, the available and used rings, and the
  two entry points \<open>virtio_disk_rw\<close> and \<open>virtio_disk_intr\<close>. Several processes are in
  \<open>virtio_disk_rw\<close> at once, each asleep or about to go on after a \<open>sleep\<close>; what runs between two sleeps
  runs with \<open>vdisk_lock\<close> held and is one step. The device is a parameter, of which only the behaviour
  that the virtio specification documents is assumed. An address in a descriptor is a value that
  names the object it points to. What the theory defines is shown correct in \<open>Vdisk\<close>.
\<close>

section \<open>State\<close>

definition NUM :: nat where "NUM = 8"

datatype dma = D_null | D_op nat | D_data nat | D_status nat

record virtq_desc =
  vq_addr :: dma
  vq_len :: u32
  vq_flags :: u16
  vq_next :: u16

record virtio_blk_req =
  rq_type :: u32
  rq_reserved :: u32
  rq_sector :: u64

definition VRING_DESC_F_NEXT :: u16 where "VRING_DESC_F_NEXT = 1"
definition VRING_DESC_F_WRITE :: u16 where "VRING_DESC_F_WRITE = 2"
definition VIRTIO_BLK_T_IN :: u32 where "VIRTIO_BLK_T_IN = 0"
definition VIRTIO_BLK_T_OUT :: u32 where "VIRTIO_BLK_T_OUT = 1"

lemmas virtio_consts = VRING_DESC_F_NEXT_def VRING_DESC_F_WRITE_def VIRTIO_BLK_T_IN_def VIRTIO_BLK_T_OUT_def

text \<open>
  Where a process is in \<open>virtio_disk_rw(b, write)\<close>: waiting for three free descriptors, or, with its
  descriptors \<open>idx[0..2]\<close>, for its request; the last flag tells whether it is asleep.
\<close>

datatype vthread = Idle | WaitDesc nat bool bool | WaitIo nat bool nat nat nat bool

record vbuf =
  vb_blockno :: u32
  vb_data :: "byte list"
  vb_disk :: bool

text \<open>
  The static \<open>struct disk\<close>, the pages it shares with the device, the buffers, the writes to the
  device's registers, the processes, and on the side of the device its position in the available
  ring, the requests it works on and the sectors of the disk.
\<close>

record vdisk =
  v_desc :: "nat \<Rightarrow> virtq_desc"
  v_avail :: "u16 list"
  v_avail_idx :: u16
  v_used :: "u32 list"
  v_used_idx :: u16
  v_free :: "nat \<Rightarrow> bool"
  d_used_idx :: u16
  v_info :: "nat \<Rightarrow> nat option"
  v_status :: "nat \<Rightarrow> byte"
  v_ops :: "nat \<Rightarrow> virtio_blk_req"
  v_bufs :: "nat \<Rightarrow> vbuf"
  v_mmio :: "(u32 \<times> u32) list"
  v_thr :: "nat \<Rightarrow> vthread"
  dev_idx :: u16
  dev_work :: "nat list"
  v_disk :: "u64 \<Rightarrow> byte list"

type_synonym 'a V = "vdisk \<Rightarrow> (vdisk, 'a) outcome"

definition zero_desc :: virtq_desc where
  "zero_desc = \<lparr>vq_addr = D_null, vq_len = 0, vq_flags = 0, vq_next = 0\<rparr>"

definition reg_write :: "u32 \<Rightarrow> u32 \<Rightarrow> unit V" where
  "reg_write r x = modify (\<lambda>s. s\<lparr>v_mmio := v_mmio s @ [(r, x)]\<rparr>)"

definition set_thr :: "nat \<Rightarrow> vthread \<Rightarrow> unit V" where
  "set_thr t x = modify (\<lambda>s. s\<lparr>v_thr := (v_thr s)(t := x)\<rparr>)"

text \<open>\<open>wakeup(&disk.free[0])\<close> and \<open>wakeup(b)\<close>.\<close>

fun rouse :: "vthread \<Rightarrow> vthread" where
  "rouse Idle = Idle"
| "rouse (WaitDesc b wr a) = WaitDesc b wr False"
| "rouse (WaitIo b wr i j k a) = WaitIo b wr i j k False"

definition wakeup_free :: "unit V" where
  "wakeup_free = modify (\<lambda>s. s\<lparr>v_thr := (\<lambda>t. case v_thr s t of WaitDesc b wr a \<Rightarrow> rouse (v_thr s t) | x \<Rightarrow> x)\<rparr>)"

definition wakeup_buf :: "nat \<Rightarrow> vdisk \<Rightarrow> vdisk" where
  "wakeup_buf b s = s\<lparr>v_thr := (\<lambda>t. case v_thr s t of
     WaitIo b' wr i j k a \<Rightarrow> if b' = b then rouse (v_thr s t) else v_thr s t | x \<Rightarrow> x)\<rparr>"

section \<open>Descriptors\<close>

definition alloc_desc :: "nat option V" where
  "alloc_desc =
     mbind (gets (\<lambda>s. find (v_free s) [0..<NUM])) (\<lambda>r.
     case r of
       None \<Rightarrow> ret None
     | Some i \<Rightarrow>
         mbind (modify (\<lambda>s. s\<lparr>v_free := (v_free s)(i := False)\<rparr>)) (\<lambda>_.
         ret (Some i)))"

definition free_desc :: "nat \<Rightarrow> unit V" where
  "free_desc i =
     mbind (gets v_free) (\<lambda>fr.
     if i \<ge> NUM then panic ''free_desc 1'' else
     if fr i then panic ''free_desc 2'' else
     mbind (modify (\<lambda>s. s\<lparr>v_desc := (v_desc s)(i := zero_desc)\<rparr>)) (\<lambda>_.
     mbind (modify (\<lambda>s. s\<lparr>v_free := (v_free s)(i := True)\<rparr>)) (\<lambda>_.
     wakeup_free)))"

lemma free_desc_eq:
  "free_desc i s =
     (if i \<ge> NUM then Panic ''free_desc 1'' else if v_free s i then Panic ''free_desc 2''
      else wakeup_free (s\<lparr>v_desc := (v_desc s)(i := zero_desc), v_free := (v_free s)(i := True)\<rparr>))"
  by (simp add: free_desc_def)

lemma free_desc_less:
  assumes "free_desc i s = Ok u t"
  shows "card {x. x < NUM \<and> \<not> v_free t x} < card {x. x < NUM \<and> \<not> v_free s x}"
proof (rule psubset_card_mono)
  have i: "i < NUM" "\<not> v_free s i" using assms by (simp_all add: free_desc_eq split: if_splits)
  then have "v_free t = (v_free s)(i := True)" using assms by (auto simp: free_desc_eq wakeup_free_def)
  then show "{x. x < NUM \<and> \<not> v_free t x} \<subset> {x. x < NUM \<and> \<not> v_free s x}" using i by auto
qed simp

text \<open>Each turn frees a descriptor that was in use, or panics: so the loop ends even on a cycle.\<close>

function free_chain :: "nat \<Rightarrow> unit V" where
  "free_chain i s =
     (case free_desc i s of
        Ok _ t \<Rightarrow>
          if vq_flags (v_desc s i) AND VRING_DESC_F_NEXT \<noteq> 0 then free_chain (unat (vq_next (v_desc s i))) t
          else Ok () t
      | Panic e \<Rightarrow> Panic e
      | Switch t \<Rightarrow> Switch t
      | Undef e \<Rightarrow> Undef e)"
  by pat_completeness auto
termination
  by (relation "measure (\<lambda>(_, s). card {x. x < NUM \<and> \<not> v_free s x})") (auto dest: free_desc_less)

declare free_chain.simps [simp del]

fun alloc3_loop :: "nat \<Rightarrow> nat list \<Rightarrow> nat list option V" where
  "alloc3_loop 0 idx = ret (Some idx)"
| "alloc3_loop (Suc n) idx =
     mbind alloc_desc (\<lambda>r.
     case r of
       None \<Rightarrow> mbind (for_each idx free_desc) (\<lambda>_. ret None)
     | Some i \<Rightarrow> alloc3_loop n (idx @ [i]))"

definition alloc3_desc :: "nat list option V" where
  "alloc3_desc = alloc3_loop 3 []"

section \<open>Requests and interrupts\<close>

text \<open>\<open>b->blockno * (BSIZE / 512)\<close> is computed in 32 bits.\<close>

definition sector_of :: "u32 \<Rightarrow> u64" where
  "sector_of n = ucast (n * 2)"

definition upd_desc :: "nat \<Rightarrow> virtq_desc \<Rightarrow> unit V" where
  "upd_desc i d = modify (\<lambda>s. s\<lparr>v_desc := (v_desc s)(i := d)\<rparr>)"

definition rw_submit :: "nat \<Rightarrow> bool \<Rightarrow> nat \<Rightarrow> nat \<Rightarrow> nat \<Rightarrow> unit V" where
  "rw_submit b wr i j k =
     mbind (modify (\<lambda>s. s\<lparr>v_ops := (v_ops s)(i :=
       \<lparr>rq_type = (if wr then VIRTIO_BLK_T_OUT else VIRTIO_BLK_T_IN), rq_reserved = 0,
        rq_sector = sector_of (vb_blockno (v_bufs s b))\<rparr>)\<rparr>)) (\<lambda>_.
     mbind (upd_desc i \<lparr>vq_addr = D_op i, vq_len = 16, vq_flags = VRING_DESC_F_NEXT, vq_next = of_nat j\<rparr>) (\<lambda>_.
     mbind (upd_desc j \<lparr>vq_addr = D_data b, vq_len = of_nat BSIZE,
       vq_flags = (if wr then 0 else VRING_DESC_F_WRITE) OR VRING_DESC_F_NEXT, vq_next = of_nat k\<rparr>) (\<lambda>_.
     mbind (modify (\<lambda>s. s\<lparr>v_status := (v_status s)(i := 0xff)\<rparr>)) (\<lambda>_.
     mbind (upd_desc k \<lparr>vq_addr = D_status i, vq_len = 1, vq_flags = VRING_DESC_F_WRITE, vq_next = 0\<rparr>) (\<lambda>_.
     mbind (modify (\<lambda>s. s\<lparr>v_bufs := (v_bufs s)(b := (v_bufs s b)\<lparr>vb_disk := True\<rparr>)\<rparr>)) (\<lambda>_.
     mbind (modify (\<lambda>s. s\<lparr>v_info := (v_info s)(i := Some b)\<rparr>)) (\<lambda>_.
     mbind (modify (\<lambda>s. s\<lparr>v_avail := (v_avail s)[unat (v_avail_idx s) mod NUM := of_nat i]\<rparr>)) (\<lambda>_.
     mbind (modify (\<lambda>s. s\<lparr>v_avail_idx := v_avail_idx s + 1\<rparr>)) (\<lambda>_.
     reg_write 0x050 0)))))))))"

text \<open>The second loop of \<open>virtio_disk_rw\<close> and what follows it; the first loop, from its test on.\<close>

definition rw_wait :: "nat \<Rightarrow> nat \<Rightarrow> bool \<Rightarrow> nat \<Rightarrow> nat \<Rightarrow> nat \<Rightarrow> unit V" where
  "rw_wait t b wr i j k =
     mbind (gets (\<lambda>s. vb_disk (v_bufs s b))) (\<lambda>busy.
     if busy then set_thr t (WaitIo b wr i j k True)
     else
       mbind (modify (\<lambda>s. s\<lparr>v_info := (v_info s)(i := None)\<rparr>)) (\<lambda>_.
       mbind (free_chain i) (\<lambda>_.
       set_thr t Idle)))"

definition rw_alloc :: "nat \<Rightarrow> nat \<Rightarrow> bool \<Rightarrow> unit V" where
  "rw_alloc t b wr =
     mbind alloc3_desc (\<lambda>r.
     case r of
       Some [i, j, k] \<Rightarrow> mbind (rw_submit b wr i j k) (\<lambda>_. rw_wait t b wr i j k)
     | _ \<Rightarrow> set_thr t (WaitDesc b wr True))"

text \<open>A call by process \<open>t\<close>, and its return from a \<open>sleep\<close>.\<close>

definition virtio_disk_rw :: "nat \<Rightarrow> nat \<Rightarrow> bool \<Rightarrow> unit V" where
  "virtio_disk_rw t b wr = rw_alloc t b wr"

definition rw_resume :: "nat \<Rightarrow> unit V" where
  "rw_resume t =
     mbind (gets (\<lambda>s. v_thr s t)) (\<lambda>x.
     case x of
       WaitDesc b wr a \<Rightarrow> rw_alloc t b wr
     | WaitIo b wr i j k a \<Rightarrow> rw_wait t b wr i j k
     | Idle \<Rightarrow> ret ())"

lemma counter_less: "r \<noteq> (w :: 'a::len word) \<Longrightarrow> unat (w - (r + 1)) < unat (w - r)"
  using counter_read[of w r] by simp

function intr_loop :: "unit V" where
  "intr_loop s =
     (if d_used_idx s \<noteq> v_used_idx s then
        let id = unat (v_used s ! (unat (d_used_idx s) mod NUM)) in
        if id \<ge> NUM then Undef ''info'' else
        if v_status s id \<noteq> 0 then Panic ''virtio_disk_intr status'' else
        case v_info s id of
          None \<Rightarrow> Undef ''b''
        | Some b \<Rightarrow>
            intr_loop ((wakeup_buf b (s\<lparr>v_bufs := (v_bufs s)(b := (v_bufs s b)\<lparr>vb_disk := False\<rparr>)\<rparr>))
              \<lparr>d_used_idx := d_used_idx s + 1\<rparr>)
      else Ok () s)"
  by pat_completeness auto
termination
  by (relation "measure (\<lambda>s. unat (v_used_idx s - d_used_idx s))") (simp_all add: wakeup_buf_def counter_less)

declare intr_loop.simps [simp del]

text \<open>\<open>rd\<close> gives the value of a register after a sequence of register writes.\<close>

definition virtio_disk_intr :: "((u32 \<times> u32) list \<Rightarrow> u32 \<Rightarrow> u32) \<Rightarrow> unit V" where
  "virtio_disk_intr rd =
     mbind (gets (\<lambda>s. rd (v_mmio s) 0x060)) (\<lambda>x.
     mbind (reg_write 0x064 (x AND 3)) (\<lambda>_.
     intr_loop))"

section \<open>Initialisation\<close>

text \<open>\<open>virtio_disk_init\<close> also calls the page allocator, so it runs on the pair of both states.\<close>

definition kern :: "'a K \<Rightarrow> kstate \<times> vdisk \<Rightarrow> (kstate \<times> vdisk, 'a) outcome" where
  "kern m = (\<lambda>(s, v). case m s of Ok x s' \<Rightarrow> Ok x (s', v) | Panic e \<Rightarrow> Panic e | Switch s' \<Rightarrow> Switch (s', v) | Undef e \<Rightarrow> Undef e)"

definition drv :: "'a V \<Rightarrow> kstate \<times> vdisk \<Rightarrow> (kstate \<times> vdisk, 'a) outcome" where
  "drv m = (\<lambda>(s, v). case m v of Ok x v' \<Rightarrow> Ok x (s, v') | Panic e \<Rightarrow> Panic e | Switch v' \<Rightarrow> Switch (s, v') | Undef e \<Rightarrow> Undef e)"

text \<open>The features the driver turns off: read-only, SCSI, write-back mode, several queues, any layout,
  event index and indirect descriptors.\<close>

definition negotiate :: "u32 \<Rightarrow> u32" where
  "negotiate x = ucast (fold (\<lambda>n f. f AND NOT (push_bit n 1)) [5, 7, 11, 12, 27, 29, 28] (ucast x :: u64))"

definition reg_write64 :: "u32 \<Rightarrow> u64 \<Rightarrow> unit V" where
  "reg_write64 r x = mbind (reg_write r (ucast x)) (\<lambda>_. reg_write (r + 4) (ucast (drop_bit 32 x)))"

definition virtio_disk_init :: "((u32 \<times> u32) list \<Rightarrow> u32 \<Rightarrow> u32) \<Rightarrow> kstate \<times> vdisk \<Rightarrow> (kstate \<times> vdisk, unit) outcome" where
  "virtio_disk_init rd =
     mbind (drv (gets (\<lambda>v. rd (v_mmio v)))) (\<lambda>r.
     if r 0 \<noteq> 0x74726976 \<or> r 4 \<noteq> 2 \<or> r 8 \<noteq> 2 \<or> r 0xc \<noteq> 0x554d4551 then panic ''could not find virtio disk'' else
     mbind (drv (reg_write 0x070 0)) (\<lambda>_.
     mbind (drv (reg_write 0x070 1)) (\<lambda>_.
     mbind (drv (reg_write 0x070 3)) (\<lambda>_.
     mbind (drv (gets (\<lambda>v. rd (v_mmio v) 0x010))) (\<lambda>features.
     mbind (drv (reg_write 0x020 (negotiate features))) (\<lambda>_.
     mbind (drv (reg_write 0x070 11)) (\<lambda>_.
     mbind (drv (gets (\<lambda>v. rd (v_mmio v) 0x070))) (\<lambda>status.
     if status AND 8 = 0 then panic ''virtio disk FEATURES_OK unset'' else
     mbind (drv (reg_write 0x030 0)) (\<lambda>_.
     mbind (drv (gets (\<lambda>v. rd (v_mmio v)))) (\<lambda>r.
     if r 0x044 \<noteq> 0 then panic ''virtio disk should not be ready'' else
     if r 0x034 = 0 then panic ''virtio disk has no queue 0'' else
     if r 0x034 < of_nat NUM then panic ''virtio disk max queue too short'' else
     mbind (kern kalloc) (\<lambda>desc.
     mbind (kern kalloc) (\<lambda>avail.
     mbind (kern kalloc) (\<lambda>used.
     if desc = 0 \<or> avail = 0 \<or> used = 0 then panic ''virtio disk kalloc'' else
     mbind (kern (modify (\<lambda>s. s\<lparr>mem := memset used 0 4096 (memset avail 0 4096 (memset desc 0 4096 (mem s)))\<rparr>))) (\<lambda>_.
     mbind (drv (modify (\<lambda>v. v\<lparr>v_desc := (\<lambda>_. zero_desc), v_avail := replicate NUM 0, v_avail_idx := 0,
       v_used := replicate NUM 0, v_used_idx := 0\<rparr>))) (\<lambda>_.
     mbind (drv (reg_write 0x038 (of_nat NUM))) (\<lambda>_.
     mbind (drv (reg_write64 0x080 desc)) (\<lambda>_.
     mbind (drv (reg_write64 0x090 avail)) (\<lambda>_.
     mbind (drv (reg_write64 0x0a0 used)) (\<lambda>_.
     mbind (drv (reg_write 0x044 1)) (\<lambda>_.
     mbind (drv (for_each [0..<NUM] (\<lambda>i. modify (\<lambda>v. v\<lparr>v_free := (v_free v)(i := True)\<rparr>)))) (\<lambda>_.
     drv (reg_write 0x070 (status OR 4)))))))))))))))))))))))"

section \<open>The device\<close>

definition get_sectors :: "(u64 \<Rightarrow> byte list) \<Rightarrow> u64 \<Rightarrow> nat \<Rightarrow> byte list" where
  "get_sectors d x n = concat (map (\<lambda>k. d (x + of_nat k)) [0..<n])"

definition put_sectors :: "u64 \<Rightarrow> nat \<Rightarrow> byte list \<Rightarrow> (u64 \<Rightarrow> byte list) \<Rightarrow> u64 \<Rightarrow> byte list" where
  "put_sectors x n bs d = fold (\<lambda>k d. d(x + of_nat k := take 512 (drop (512 * k) bs))) [0..<n] d"

definition dev_finish :: "nat \<Rightarrow> nat \<Rightarrow> vdisk \<Rightarrow> vdisk" where
  "dev_finish h i s = s\<lparr>v_status := (v_status s)(i := 0), v_used := (v_used s)[unat (v_used_idx s) mod NUM := of_nat h],
     v_used_idx := v_used_idx s + 1, dev_work := remove1 h (dev_work s)\<rparr>"

text \<open>The effect of the request whose chain starts at \<open>h\<close>, if the chain is a well-formed request.\<close>

definition dev_done :: "nat \<Rightarrow> vdisk \<Rightarrow> vdisk option" where
  "dev_done h s =
     (let d0 = v_desc s h; d1 = v_desc s (unat (vq_next d0)); d2 = v_desc s (unat (vq_next d1)) in
      case (vq_addr d0, vq_addr d1, vq_addr d2) of
        (D_op q, D_data b, D_status i) \<Rightarrow>
          let r = v_ops s q; n = unat (vq_len d1) div 512; writes = (\<lambda>d. vq_flags d AND VRING_DESC_F_WRITE \<noteq> 0);
              more = (\<lambda>d. vq_flags d AND VRING_DESC_F_NEXT \<noteq> 0) in
          if \<not> more d0 \<or> writes d0 \<or> vq_len d0 \<noteq> 16 \<or> \<not> more d1 \<or> more d2 \<or> \<not> writes d2 \<or> vq_len d2 = 0 then None
          else if rq_type r = VIRTIO_BLK_T_OUT \<and> \<not> writes d1 then
            Some (dev_finish h i (s\<lparr>v_disk := put_sectors (rq_sector r) n (vb_data (v_bufs s b)) (v_disk s)\<rparr>))
          else if rq_type r = VIRTIO_BLK_T_IN \<and> writes d1 then
            Some (dev_finish h i (s\<lparr>v_bufs := (v_bufs s)(b := (v_bufs s b)
              \<lparr>vb_data := get_sectors (v_disk s) (rq_sector r) n @ drop (512 * n) (vb_data (v_bufs s b))\<rparr>)\<rparr>))
          else None
      | _ \<Rightarrow> None)"

text \<open>
  What the driver relies on: the device takes the next entry of the available ring, or carries out
  one of the requests it has taken, in any order, and puts it on the used ring. Nothing is assumed
  of a request that is not well-formed.
\<close>

definition virtio_device :: "(vdisk \<Rightarrow> vdisk \<Rightarrow> bool) \<Rightarrow> bool" where
  "virtio_device dev \<longleftrightarrow> (\<forall>s s'. dev s s' \<longrightarrow>
     (dev_idx s \<noteq> v_avail_idx s \<and>
        s' = s\<lparr>dev_work := unat (v_avail s ! (unat (dev_idx s) mod NUM)) # dev_work s, dev_idx := dev_idx s + 1\<rparr>) \<or>
     (\<exists>h \<in> set (dev_work s). \<forall>t. dev_done h s = Some t \<longrightarrow> s' = t))"

section \<open>Steps\<close>

fun buf_of :: "vthread \<Rightarrow> nat option" where
  "buf_of Idle = None"
| "buf_of (WaitDesc b wr a) = Some b"
| "buf_of (WaitIo b wr i j k a) = Some b"

definition in_use :: "vdisk \<Rightarrow> nat \<Rightarrow> bool" where
  "in_use s b \<longleftrightarrow> (\<exists>t. buf_of (v_thr s t) = Some b)"

text \<open>
  A process calls the driver with a buffer it has locked, so that no other call has the buffer or,
  because the buffer cache has one buffer per block, its block; blocks are those of a disk of fewer than
  \<open>2 ^ 31\<close>. A buffer not in the driver may get other data and another block. \<open>kill\<close> may wake a
  process at any time.
\<close>

definition may_call :: "vdisk \<Rightarrow> nat \<Rightarrow> nat \<Rightarrow> bool" where
  "may_call s t b \<longleftrightarrow> v_thr s t = Idle \<and> vb_blockno (v_bufs s b) < 2 ^ 31 \<and>
     (\<forall>b'. in_use s b' \<longrightarrow> b' \<noteq> b \<and> vb_blockno (v_bufs s b') \<noteq> vb_blockno (v_bufs s b))"

inductive vstep :: "((u32 \<times> u32) list \<Rightarrow> u32 \<Rightarrow> u32) \<Rightarrow> (vdisk \<Rightarrow> vdisk \<Rightarrow> bool) \<Rightarrow> vdisk \<Rightarrow> vdisk \<Rightarrow> bool"
  for rd dev where
  call: "may_call s t b \<Longrightarrow> virtio_disk_rw t b wr s = Ok () s' \<Longrightarrow> vstep rd dev s s'"
| resume: "rouse (v_thr s t) = v_thr s t \<Longrightarrow> rw_resume t s = Ok () s' \<Longrightarrow> vstep rd dev s s'"
| intr: "virtio_disk_intr rd s = Ok () s' \<Longrightarrow> vstep rd dev s s'"
| device: "dev s s' \<Longrightarrow> vstep rd dev s s'"
| killed: "vstep rd dev s (s\<lparr>v_thr := (v_thr s)(t := rouse (v_thr s t))\<rparr>)"
| owner: "\<not> in_use s b \<Longrightarrow> length d = BSIZE \<Longrightarrow>
    vstep rd dev s (s\<lparr>v_bufs := (v_bufs s)(b := (v_bufs s b)\<lparr>vb_data := d, vb_blockno := n\<rparr>)\<rparr>)"

definition v_fresh :: "vdisk \<Rightarrow> bool" where
  "v_fresh s \<longleftrightarrow> (\<forall>i < NUM. v_free s i) \<and> v_avail s = replicate NUM 0 \<and> v_avail_idx s = 0 \<and> v_used s = replicate NUM 0 \<and>
     v_used_idx s = 0 \<and> d_used_idx s = 0 \<and> dev_idx s = 0 \<and> dev_work s = [] \<and> (\<forall>t. v_thr s t = Idle) \<and>
     (\<forall>b. length (vb_data (v_bufs s b)) = BSIZE) \<and> (\<forall>x. length (v_disk s x) = 512)"

inductive vreach :: "((u32 \<times> u32) list \<Rightarrow> u32 \<Rightarrow> u32) \<Rightarrow> (vdisk \<Rightarrow> vdisk \<Rightarrow> bool) \<Rightarrow> vdisk \<Rightarrow> bool"
  for rd dev where
  fresh: "v_fresh s \<Longrightarrow> vreach rd dev s"
| step: "vreach rd dev s \<Longrightarrow> vstep rd dev s s' \<Longrightarrow> vreach rd dev s'"

end
