(* ===== verification/Vdisk.thy ===== *)
theory Vdisk
  imports Virtio
begin

text \<open>
  The disk driver implements an atomic disk: an invariant of the descriptors, the two rings and the
  processes in \<open>virtio_disk_rw\<close>, kept by every step of a process, of the interrupt handler and of the
  device; the abstract disk; and the simulation between them. The properties at the end are that
  refinement, the absence of panics, and that no wakeup is lost.
\<close>

section \<open>The invariant\<close>

text \<open>The heads of the requests that the device has not taken, and of those whose completion the driver has
  not seen.\<close>

definition avail_q :: "vdisk \<Rightarrow> nat list" where
  "avail_q s = map unat (ring NUM (v_avail s) (unat (dev_idx s)) (unat (v_avail_idx s - dev_idx s)))"

definition used_q :: "vdisk \<Rightarrow> nat list" where
  "used_q s = map unat (ring NUM (v_used s) (unat (d_used_idx s)) (unat (v_used_idx s - d_used_idx s)))"

definition pending :: "vdisk \<Rightarrow> nat list" where
  "pending s = avail_q s @ dev_work s @ used_q s"

definition block_of :: "vdisk \<Rightarrow> nat \<Rightarrow> byte list" where
  "block_of s b = get_sectors (v_disk s) (sector_of (vb_blockno (v_bufs s b))) 2"

definition req_ok :: "vdisk \<Rightarrow> nat \<Rightarrow> bool \<Rightarrow> nat \<Rightarrow> nat \<Rightarrow> nat \<Rightarrow> bool" where
  "req_ok s b wr i j k \<longleftrightarrow> distinct [i, j, k] \<and> (\<forall>x \<in> {i, j, k}. x < NUM \<and> \<not> v_free s x) \<and>
     v_desc s i = \<lparr>vq_addr = D_op i, vq_len = 16, vq_flags = 1, vq_next = of_nat j\<rparr> \<and>
     v_desc s j = \<lparr>vq_addr = D_data b, vq_len = 1024, vq_flags = (if wr then 1 else 3), vq_next = of_nat k\<rparr> \<and>
     v_desc s k = \<lparr>vq_addr = D_status i, vq_len = 1, vq_flags = 2, vq_next = 0\<rparr> \<and>
     v_ops s i = \<lparr>rq_type = (if wr then 1 else 0), rq_reserved = 0, rq_sector = sector_of (vb_blockno (v_bufs s b))\<rparr> \<and>
     v_info s i = Some b"

text \<open>The stage of a request: in progress exactly while its head is pending; completed when it is on the
  used ring; its block and buffer agree from then on; its process sleeps only while it is in progress.\<close>

definition stage_ok :: "vdisk \<Rightarrow> nat \<Rightarrow> nat \<Rightarrow> bool \<Rightarrow> bool" where
  "stage_ok s b i a \<longleftrightarrow> (a \<longrightarrow> vb_disk (v_bufs s b)) \<and> (vb_disk (v_bufs s b) \<longleftrightarrow> i \<in> set (pending s)) \<and>
     (i \<in> set (used_q s) \<longrightarrow> v_status s i = 0) \<and>
     (i \<notin> set (avail_q s) \<and> i \<notin> set (dev_work s) \<longrightarrow> vb_data (v_bufs s b) = block_of s b)"

definition thr_ok :: "vdisk \<Rightarrow> vthread \<Rightarrow> bool" where
  "thr_ok s x = (case x of
     Idle \<Rightarrow> True
   | WaitDesc b wr a \<Rightarrow> a \<longrightarrow> card {i. i < NUM \<and> v_free s i} < 3
   | WaitIo b wr i j k a \<Rightarrow> req_ok s b wr i j k \<and> stage_ok s b i a)"

fun chain :: "vthread \<Rightarrow> nat set" where
  "chain (WaitIo b wr i j k a) = {i, j, k}"
| "chain _ = {}"

fun head :: "vthread \<Rightarrow> nat option" where
  "head (WaitIo b wr i j k a) = Some i"
| "head _ = None"

definition apart_thr :: "vdisk \<Rightarrow> vthread \<Rightarrow> vthread \<Rightarrow> bool" where
  "apart_thr s x y \<longleftrightarrow> chain x \<inter> chain y = {} \<and>
     (\<forall>b b'. buf_of x = Some b \<longrightarrow> buf_of y = Some b' \<longrightarrow>
        b \<noteq> b' \<and> vb_blockno (v_bufs s b) \<noteq> vb_blockno (v_bufs s b'))"

definition vd_inv :: "vdisk \<Rightarrow> bool" where
  "vd_inv s \<longleftrightarrow> length (v_avail s) = NUM \<and> length (v_used s) = NUM \<and>
     (\<forall>t. thr_ok s (v_thr s t)) \<and>
     (\<forall>t u. t \<noteq> u \<longrightarrow> apart_thr s (v_thr s t) (v_thr s u)) \<and>
     (\<forall>t b. buf_of (v_thr s t) = Some b \<longrightarrow> vb_blockno (v_bufs s b) < 2 ^ 31) \<and>
     distinct (pending s) \<and> (\<forall>h \<in> set (pending s). \<exists>t. head (v_thr s t) = Some h) \<and>
     (\<forall>i < NUM. \<not> v_free s i \<longrightarrow> (\<exists>t. i \<in> chain (v_thr s t))) \<and>
     (\<forall>b. length (vb_data (v_bufs s b)) = BSIZE) \<and> (\<forall>x. length (v_disk s x) = 512)"

section \<open>What the invariant does not depend on\<close>

lemma rouse_same [simp]: "chain (rouse x) = chain x" "head (rouse x) = head x" "buf_of (rouse x) = buf_of x"
  "rouse (rouse x) = rouse x"
  by (cases x; simp)+

lemma head_chain: "head x = Some h \<Longrightarrow> h \<in> chain x"
  by (cases x) simp_all

lemma apart_rouse [simp]: "apart_thr s (rouse x) y = apart_thr s x y" "apart_thr s x (rouse y) = apart_thr s x y"
  by (simp_all add: apart_thr_def)

lemma thr_ok_rouse: "thr_ok s x \<Longrightarrow> thr_ok s (rouse x)"
  by (cases x) (auto simp: thr_ok_def stage_ok_def)

lemma pending_cong: "pending (s\<lparr>v_thr := f\<rparr>) = pending s" "pending (s\<lparr>v_desc := d\<rparr>) = pending s"
  "pending (s\<lparr>v_mmio := m\<rparr>) = pending s" "pending (s\<lparr>v_bufs := bs\<rparr>) = pending s" "pending (s\<lparr>v_free := fr\<rparr>) = pending s"
  "pending (s\<lparr>v_info := nfo\<rparr>) = pending s" "pending (s\<lparr>v_disk := dk\<rparr>) = pending s" "pending (s\<lparr>v_status := st\<rparr>) = pending s"
  "pending (s\<lparr>v_ops := q\<rparr>) = pending s"
  by (simp_all add: pending_def avail_q_def used_q_def)

lemma queue_cong: "avail_q (s\<lparr>v_thr := f\<rparr>) = avail_q s" "used_q (s\<lparr>v_thr := f\<rparr>) = used_q s"
  "avail_q (s\<lparr>v_desc := d\<rparr>) = avail_q s" "used_q (s\<lparr>v_desc := d\<rparr>) = used_q s"
  "avail_q (s\<lparr>v_mmio := m\<rparr>) = avail_q s" "used_q (s\<lparr>v_mmio := m\<rparr>) = used_q s"
  "avail_q (s\<lparr>v_bufs := bs\<rparr>) = avail_q s" "used_q (s\<lparr>v_bufs := bs\<rparr>) = used_q s"
  "avail_q (s\<lparr>v_free := fr\<rparr>) = avail_q s" "used_q (s\<lparr>v_free := fr\<rparr>) = used_q s"
  "avail_q (s\<lparr>v_info := nfo\<rparr>) = avail_q s" "used_q (s\<lparr>v_info := nfo\<rparr>) = used_q s"
  "avail_q (s\<lparr>v_disk := dk\<rparr>) = avail_q s" "used_q (s\<lparr>v_disk := dk\<rparr>) = used_q s"
  "avail_q (s\<lparr>v_status := st\<rparr>) = avail_q s" "used_q (s\<lparr>v_status := st\<rparr>) = used_q s"
  "avail_q (s\<lparr>v_ops := q\<rparr>) = avail_q s" "used_q (s\<lparr>v_ops := q\<rparr>) = used_q s"
  by (simp_all add: avail_q_def used_q_def)

lemma inv_thr_same:
  assumes "vd_inv s" and ok: "\<And>t. thr_ok s (f t)"
    and eq: "\<And>t. chain (f t) = chain (v_thr s t)" "\<And>t. head (f t) = head (v_thr s t)" "\<And>t. buf_of (f t) = buf_of (v_thr s t)"
  shows "vd_inv (s\<lparr>v_thr := f\<rparr>)"
proof -
  have "thr_ok (s\<lparr>v_thr := f\<rparr>) x = thr_ok s x" for x
    by (simp add: thr_ok_def req_ok_def stage_ok_def block_of_def queue_cong pending_cong split: vthread.split)
  moreover have "apart_thr (s\<lparr>v_thr := f\<rparr>) (f t) (f u) = apart_thr s (v_thr s t) (v_thr s u)" for t u
    by (simp add: apart_thr_def eq)
  ultimately show ?thesis using assms(1) ok by (simp add: vd_inv_def eq pending_cong)
qed

lemma inv_thr:
  assumes "vd_inv s" and f: "\<And>t. f t = v_thr s t \<or> f t = rouse (v_thr s t)"
  shows "vd_inv (s\<lparr>v_thr := f\<rparr>)"
proof (rule inv_thr_same[OF assms(1)])
  fix t
  show "thr_ok s (f t)" using assms(1) f[of t] thr_ok_rouse unfolding vd_inv_def by metis
  show "chain (f t) = chain (v_thr s t)" "head (f t) = head (v_thr s t)" "buf_of (f t) = buf_of (v_thr s t)"
    using f[of t] by auto
qed

lemma inv_desc:
  assumes "vd_inv s" and d: "\<And>x. x < NUM \<Longrightarrow> \<not> v_free s x \<Longrightarrow> d x = v_desc s x"
  shows "vd_inv (s\<lparr>v_desc := d\<rparr>)"
proof -
  have "req_ok (s\<lparr>v_desc := d\<rparr>) b wr i j k \<longleftrightarrow> req_ok s b wr i j k" for b wr i j k
    using d[of i] d[of j] d[of k] by (simp add: req_ok_def) (metis (no_types))
  then have "thr_ok (s\<lparr>v_desc := d\<rparr>) x = thr_ok s x" for x
    by (simp add: thr_ok_def stage_ok_def block_of_def queue_cong pending_cong split: vthread.split)
  moreover have "apart_thr (s\<lparr>v_desc := d\<rparr>) x y = apart_thr s x y" for x y by (simp add: apart_thr_def)
  ultimately show ?thesis using assms(1) by (simp add: vd_inv_def pending_cong)
qed

lemma inv_mmio:
  assumes "vd_inv s"
  shows "vd_inv (s\<lparr>v_mmio := m\<rparr>)"
proof -
  have "thr_ok (s\<lparr>v_mmio := m\<rparr>) x = thr_ok s x" for x
    by (simp add: thr_ok_def req_ok_def stage_ok_def block_of_def queue_cong pending_cong split: vthread.split)
  moreover have "apart_thr (s\<lparr>v_mmio := m\<rparr>) x y = apart_thr s x y" for x y by (simp add: apart_thr_def)
  ultimately show ?thesis using assms by (simp add: vd_inv_def pending_cong)
qed

section \<open>The rings\<close>

lemma num_dvd: "NUM dvd 2 ^ LENGTH(16)" "NUM < 2 ^ LENGTH(16) - 1"
  by (simp_all add: NUM_def)

lemma unat_small: "i < NUM \<Longrightarrow> unat (of_nat i :: u16) = i" "i < NUM \<Longrightarrow> unat (of_nat i :: u32) = i"
  by (simp_all add: NUM_def unsigned_of_nat take_bit_nat_eq_self)

lemma avail_put:
  assumes "length (v_avail s) = NUM" and "length (avail_q s) < NUM" and "i < NUM"
  shows "avail_q (s\<lparr>v_avail := (v_avail s)[unat (v_avail_idx s) mod NUM := of_nat i], v_avail_idx := v_avail_idx s + 1\<rparr>) = avail_q s @ [i]"
  using assms ring_write(1)[OF num_dvd assms(1), of "v_avail_idx s" "dev_idx s" "of_nat i"] by (simp add: avail_q_def unat_small)

lemma used_put:
  assumes "length (v_used s) = NUM" and "length (used_q s) < NUM" and "h < NUM"
  shows "used_q (s\<lparr>v_used := (v_used s)[unat (v_used_idx s) mod NUM := of_nat h], v_used_idx := v_used_idx s + 1\<rparr>) = used_q s @ [h]"
  using assms ring_write(1)[OF num_dvd assms(1), of "v_used_idx s" "d_used_idx s" "of_nat h"] by (simp add: used_q_def unat_small)

lemma avail_get:
  assumes "dev_idx s \<noteq> v_avail_idx s"
  shows "avail_q s = unat (v_avail s ! (unat (dev_idx s) mod NUM)) # avail_q (s\<lparr>dev_idx := dev_idx s + 1\<rparr>)"
  using ring_read[OF num_dvd(1), of "v_avail_idx s" "dev_idx s" "v_avail s"] assms by (simp add: avail_q_def)

lemma used_get:
  assumes "d_used_idx s \<noteq> v_used_idx s"
  shows "used_q s = unat (v_used s ! (unat (d_used_idx s) mod NUM)) # used_q (s\<lparr>d_used_idx := d_used_idx s + 1\<rparr>)"
  using ring_read[OF num_dvd(1), of "v_used_idx s" "d_used_idx s" "v_used s"] assms by (simp add: used_q_def)

lemma invD:
  assumes "vd_inv s"
  shows "length (v_avail s) = NUM" "length (v_used s) = NUM" "thr_ok s (v_thr s t)"
    "t \<noteq> u \<Longrightarrow> apart_thr s (v_thr s t) (v_thr s u)" "buf_of (v_thr s t) = Some b \<Longrightarrow> vb_blockno (v_bufs s b) < 2 ^ 31"
    "distinct (pending s)" "h \<in> set (pending s) \<Longrightarrow> \<exists>t. head (v_thr s t) = Some h"
    "i < NUM \<Longrightarrow> \<not> v_free s i \<Longrightarrow> \<exists>t. i \<in> chain (v_thr s t)"
    "length (vb_data (v_bufs s b)) = BSIZE" "length (v_disk s x) = 512"
  using assms unfolding vd_inv_def by blast+

lemma chain_busy:
  assumes "vd_inv s" and "i \<in> chain (v_thr s t)"
  shows "i < NUM" "\<not> v_free s i"
  using invD(3)[OF assms(1), of t] assms(2) by (cases "v_thr s t"; auto simp: thr_ok_def req_ok_def)+

lemma pending_busy: "vd_inv s \<Longrightarrow> h \<in> set (pending s) \<Longrightarrow> h < NUM \<and> \<not> v_free s h"
  using invD(7) chain_busy head_chain by blast

lemma length_pending:
  assumes "vd_inv s"
  shows "length (pending s) \<le> card {i. i < NUM \<and> \<not> v_free s i}"
proof -
  have "length (pending s) = card (set (pending s))" using invD(6)[OF assms] by (simp add: distinct_card)
  also have "\<dots> \<le> card {i. i < NUM \<and> \<not> v_free s i}" using pending_busy[OF assms] by (intro card_mono) auto
  finally show ?thesis .
qed

lemma busy_NUM: "card {i. i < NUM \<and> \<not> fr i} \<le> NUM"
  using card_mono[of "{i. i < NUM}" "{i. i < NUM \<and> \<not> fr i}"] by auto

lemma busy_less:
  assumes "i < NUM" and "fr i"
  shows "card {i. i < NUM \<and> \<not> fr i} < NUM"
proof -
  have "{i. i < NUM \<and> \<not> fr i} \<subset> {i. i < NUM}" using assms by auto
  then have "card {i. i < NUM \<and> \<not> fr i} < card {i. i < NUM}" by (intro psubset_card_mono) auto
  then show ?thesis by simp
qed

section \<open>Allocating and freeing descriptors\<close>

definition wk :: "(nat \<Rightarrow> vthread) \<Rightarrow> nat \<Rightarrow> vthread" where
  "wk f = (\<lambda>t. case f t of WaitDesc b wr a \<Rightarrow> rouse (f t) | x \<Rightarrow> x)"

lemma wk_cases: "wk f t = f t \<or> wk f t = rouse (f t)"
  by (cases "f t") (simp_all add: wk_def)

lemma wk_awake: "wk f t \<noteq> WaitDesc b wr True"
  by (cases "f t") (simp_all add: wk_def)

lemma wakeup_free_Ok: "wakeup_free s = Ok () (s\<lparr>v_thr := wk (v_thr s)\<rparr>)"
  by (simp add: wakeup_free_def wk_def)

lemma free_desc_Ok:
  assumes "i < NUM" and "\<not> v_free s i"
  shows "free_desc i s = Ok () (s\<lparr>v_desc := (v_desc s)(i := zero_desc), v_free := (v_free s)(i := True), v_thr := wk (v_thr s)\<rparr>)"
  using assms by (simp add: free_desc_eq wakeup_free_Ok)

lemma alloc_desc_eq:
  "alloc_desc s = (case find (v_free s) [0..<NUM] of None \<Rightarrow> Ok None s | Some i \<Rightarrow> Ok (Some i) (s\<lparr>v_free := (v_free s)(i := False)\<rparr>))"
  by (simp add: alloc_desc_def split: option.split)

lemma find_free: "find fr [0..<NUM] = Some i \<Longrightarrow> i < NUM \<and> fr i" "find fr [0..<NUM] = None \<Longrightarrow> i < NUM \<Longrightarrow> \<not> fr i"
  by (auto simp: find_Some_iff find_None_iff)

lemma few_free:
  assumes "\<And>x. x < NUM \<Longrightarrow> fr x \<Longrightarrow> x = i \<or> x = j"
  shows "card {x. x < NUM \<and> fr x} < 3"
proof -
  have "{x. x < NUM \<and> fr x} \<subseteq> {i, j}" using assms by auto
  then have "card {x. x < NUM \<and> fr x} \<le> card {i, j}" by (intro card_mono) auto
  also have "\<dots> \<le> 2" by (simp add: card_insert_if)
  finally show ?thesis by simp
qed

definition roused :: "vdisk \<Rightarrow> (nat \<Rightarrow> virtq_desc) \<Rightarrow> (nat \<Rightarrow> vthread) \<Rightarrow> bool" where
  "roused s d f \<longleftrightarrow> (\<forall>x. \<not> v_free s x \<longrightarrow> d x = v_desc s x) \<and> (\<forall>t. f t = v_thr s t \<or> f t = rouse (v_thr s t))"

text \<open>\<open>alloc3_desc\<close> takes three free descriptors, or finds fewer and puts back what it took.\<close>

lemma alloc3_cases:
  obtains (taken) i j k where "distinct [i, j, k]" "\<And>x. x \<in> {i, j, k} \<Longrightarrow> x < NUM \<and> v_free s x"
      "alloc3_desc s = Ok (Some [i, j, k]) (s\<lparr>v_free := (v_free s)(i := False, j := False, k := False)\<rparr>)"
    | (few) d f where "card {x. x < NUM \<and> v_free s x} < 3" "roused s d f"
      "alloc3_desc s = Ok None (s\<lparr>v_desc := d, v_thr := f\<rparr>)"
proof (cases "find (v_free s) [0..<NUM]")
  case None
  then have "alloc3_desc s = Ok None (s\<lparr>v_desc := v_desc s, v_thr := v_thr s\<rparr>)"
    by (simp add: alloc3_desc_def numeral_3_eq_3 alloc_desc_eq)
  moreover have "card {x. x < NUM \<and> v_free s x} < 3" using find_free(2)[OF None] by (intro few_free) blast
  moreover have "roused s (v_desc s) (v_thr s)" by (simp add: roused_def)
  ultimately show thesis using few by blast
next
  case (Some i)
  let ?s1 = "s\<lparr>v_free := (v_free s)(i := False)\<rparr>"
  note i = find_free(1)[OF Some]
  have a1: "alloc_desc s = Ok (Some i) ?s1" using Some by (simp add: alloc_desc_eq)
  show thesis
  proof (cases "find (v_free ?s1) [0..<NUM]")
    case None
    have "x = i \<or> x = i" if "x < NUM" "v_free s x" for x using find_free(2)[OF None, of x] that by (auto split: if_splits)
    then have "card {x. x < NUM \<and> v_free s x} < 3" by (rule few_free)
    moreover have "alloc_desc ?s1 = Ok None ?s1" using None by (simp add: alloc_desc_eq)
    then have "alloc3_desc s = Ok None (s\<lparr>v_desc := (v_desc s)(i := zero_desc), v_thr := wk (v_thr s)\<rparr>)"
      using a1 i by (simp add: alloc3_desc_def numeral_3_eq_3 free_desc_Ok fun_upd_idem)
    moreover have "roused s ((v_desc s)(i := zero_desc)) (wk (v_thr s))" using i wk_cases by (simp add: roused_def)
    ultimately show thesis using few by blast
  next
    case (Some j)
    let ?s2 = "s\<lparr>v_free := (v_free s)(i := False, j := False)\<rparr>"
    have j: "j < NUM" "v_free s j" "j \<noteq> i" using find_free(1)[OF Some] by (auto split: if_splits)
    have a2: "alloc_desc ?s1 = Ok (Some j) ?s2" using Some by (simp add: alloc_desc_eq)
    show thesis
    proof (cases "find (v_free ?s2) [0..<NUM]")
      case None
      have "x = i \<or> x = j" if "x < NUM" "v_free s x" for x using find_free(2)[OF None, of x] that by (auto split: if_splits)
      then have "card {x. x < NUM \<and> v_free s x} < 3" by (rule few_free)
      moreover have a3: "alloc_desc ?s2 = Ok None ?s2" using None by (simp add: alloc_desc_eq)
      have "(v_free s)(i := False, j := False, i := True, j := True) = v_free s" using i j by (auto simp: fun_upd_def)
      then have "alloc3_desc s = Ok None (s\<lparr>v_desc := (v_desc s)(i := zero_desc, j := zero_desc), v_thr := wk (wk (v_thr s))\<rparr>)"
        using a1 a2 a3 i j by (simp add: alloc3_desc_def numeral_3_eq_3 free_desc_Ok del: fun_upd_apply) (simp add: free_desc_Ok)
      moreover have "wk (wk (v_thr s)) t = v_thr s t \<or> wk (wk (v_thr s)) t = rouse (v_thr s t)" for t
        by (cases "v_thr s t") (simp_all add: wk_def)
      then have "roused s ((v_desc s)(i := zero_desc, j := zero_desc)) (wk (wk (v_thr s)))"
        using i j by (auto simp: roused_def)
      ultimately show thesis using few by blast
    next
      case (Some k)
      have k: "k < NUM" "v_free s k" "k \<noteq> i" "k \<noteq> j" using find_free(1)[OF Some] by (auto split: if_splits)
      have "alloc3_desc s = Ok (Some [i, j, k]) (s\<lparr>v_free := (v_free s)(i := False, j := False, k := False)\<rparr>)"
        using a1 a2 Some by (simp add: alloc3_desc_def numeral_3_eq_3 alloc_desc_eq[of ?s2])
      then show thesis using i j k by (intro taken[of i j k]) auto
    qed
  qed
qed

section \<open>The disk as the callers see it\<close>

text \<open>
  A request is asked for, served in one atomic transfer between the buffer and its block, and then
  over. Requests are served in any order.
\<close>

datatype areq = Quiet | Asked nat bool | Served nat bool

record adisk =
  ad_disk :: "u64 \<Rightarrow> byte list"
  ad_data :: "nat \<Rightarrow> byte list"
  ad_blk :: "nat \<Rightarrow> u32"
  ad_req :: "nat \<Rightarrow> areq"

definition ad_free :: "adisk \<Rightarrow> nat \<Rightarrow> bool" where
  "ad_free a b \<longleftrightarrow> (\<forall>t wr. ad_req a t \<noteq> Asked b wr \<and> ad_req a t \<noteq> Served b wr)"

definition transfer :: "nat \<Rightarrow> bool \<Rightarrow> adisk \<Rightarrow> adisk" where
  "transfer b wr a =
     (if wr then a\<lparr>ad_disk := put_sectors (sector_of (ad_blk a b)) 2 (ad_data a b) (ad_disk a)\<rparr>
      else a\<lparr>ad_data := (ad_data a)(b := get_sectors (ad_disk a) (sector_of (ad_blk a b)) 2)\<rparr>)"

inductive a_step :: "adisk \<Rightarrow> adisk \<Rightarrow> bool" where
  ask: "ad_req a t = Quiet \<Longrightarrow> ad_free a b \<Longrightarrow> a_step a (a\<lparr>ad_req := (ad_req a)(t := Asked b wr)\<rparr>)"
| serve: "ad_req a t = Asked b wr \<Longrightarrow> a_step a ((transfer b wr a)\<lparr>ad_req := (ad_req a)(t := Served b wr)\<rparr>)"
| finish: "ad_req a t = Served b wr \<Longrightarrow> a_step a (a\<lparr>ad_req := (ad_req a)(t := Quiet)\<rparr>)"
| own: "ad_free a b \<Longrightarrow> a_step a (a\<lparr>ad_data := (ad_data a)(b := d), ad_blk := (ad_blk a)(b := n)\<rparr>)"

fun stage :: "vdisk \<Rightarrow> vthread \<Rightarrow> areq" where
  "stage s Idle = Quiet"
| "stage s (WaitDesc b wr a) = Asked b wr"
| "stage s (WaitIo b wr i j k a) = (if i \<in> set (avail_q s) \<or> i \<in> set (dev_work s) then Asked b wr else Served b wr)"

definition abs_disk :: "vdisk \<Rightarrow> adisk" where
  "abs_disk s = \<lparr>ad_disk = v_disk s, ad_data = (\<lambda>b. vb_data (v_bufs s b)), ad_blk = (\<lambda>b. vb_blockno (v_bufs s b)),
     ad_req = (\<lambda>t. stage s (v_thr s t))\<rparr>"

lemma stage_rouse [simp]: "stage s (rouse x) = stage s x"
  by (cases x) simp_all

lemma stage_buf: "stage s x = Asked b wr \<or> stage s x = Served b wr \<Longrightarrow> buf_of x = Some b"
  by (cases x) (auto split: if_splits)

lemma ad_freeI: "\<not> in_use s b \<Longrightarrow> ad_free (abs_disk s) b"
  by (auto simp: ad_free_def abs_disk_def in_use_def dest: stage_buf[OF disjI1] stage_buf[OF disjI2])

lemma abs_eqI:
  assumes "v_disk s' = v_disk s" and "\<And>b. vb_data (v_bufs s' b) = vb_data (v_bufs s b)"
    and "\<And>b. vb_blockno (v_bufs s' b) = vb_blockno (v_bufs s b)" and "\<And>t. stage s' (v_thr s' t) = stage s (v_thr s t)"
  shows "abs_disk s' = abs_disk s"
  using assms by (simp add: abs_disk_def)

text \<open>A step keeps the invariant and is a step of the abstract disk, or none.\<close>

definition sim :: "vdisk \<Rightarrow> vdisk \<Rightarrow> bool" where
  "sim s s' \<longleftrightarrow> vd_inv s' \<and> (abs_disk s' = abs_disk s \<or> a_step (abs_disk s) (abs_disk s'))"

text \<open>What a request that a step does not touch needs.\<close>

lemma io_frame:
  assumes "thr_ok s (WaitIo b wr i j k a)" and "\<And>x. x \<in> {i, j, k} \<Longrightarrow> v_free s' x = v_free s x \<and> v_desc s' x = v_desc s x"
    and "v_ops s' i = v_ops s i" and "v_info s' i = v_info s i" and "v_status s' i = v_status s i" and "v_bufs s' b = v_bufs s b"
    and "i \<in> set (avail_q s') \<or> i \<in> set (dev_work s') \<longleftrightarrow> i \<in> set (avail_q s) \<or> i \<in> set (dev_work s)"
    and "i \<in> set (used_q s') \<longleftrightarrow> i \<in> set (used_q s)" and "block_of s' b = block_of s b"
  shows "thr_ok s' (WaitIo b wr i j k a)"
proof -
  have "v_free s' x = v_free s x" "v_desc s' x = v_desc s x" if "x = i \<or> x = j \<or> x = k" for x using assms(2)[of x] that by auto
  then have "req_ok s' b wr i j k" using assms(1,3,4,6) by (simp add: thr_ok_def req_ok_def)
  moreover have "i \<in> set (pending s') \<longleftrightarrow> i \<in> set (pending s)" using assms(7,8) by (auto simp: pending_def)
  then have "stage_ok s' b i a" using assms(1,5-) by (auto simp: thr_ok_def stage_ok_def)
  ultimately show ?thesis by (simp add: thr_ok_def)
qed

lemma block_same: "v_disk s' = v_disk s \<Longrightarrow> vb_blockno (v_bufs s' b) = vb_blockno (v_bufs s b) \<Longrightarrow> block_of s' b = block_of s b"
  by (simp add: block_of_def)

text \<open>A way to establish the invariant after a step of process \<open>t\<close>.\<close>

lemma apart_blk:
  assumes "apart_thr s x y" and "\<And>b. vb_blockno (v_bufs s' b) = vb_blockno (v_bufs s b)"
  shows "apart_thr s' x y"
  using assms by (simp add: apart_thr_def)

lemma apart_sym: "apart_thr s x y = apart_thr s y x"
  by (auto simp: apart_thr_def)

section \<open>Submitting a request\<close>

definition submitted :: "nat \<Rightarrow> nat \<Rightarrow> bool \<Rightarrow> nat \<Rightarrow> nat \<Rightarrow> nat \<Rightarrow> vdisk \<Rightarrow> vdisk" where
  "submitted t b wr i j k s = s\<lparr>
     v_desc := (v_desc s)(
       i := \<lparr>vq_addr = D_op i, vq_len = 16, vq_flags = 1, vq_next = of_nat j\<rparr>,
       j := \<lparr>vq_addr = D_data b, vq_len = 1024, vq_flags = (if wr then 1 else 3), vq_next = of_nat k\<rparr>,
       k := \<lparr>vq_addr = D_status i, vq_len = 1, vq_flags = 2, vq_next = 0\<rparr>),
     v_avail := (v_avail s)[unat (v_avail_idx s) mod NUM := of_nat i],
     v_avail_idx := v_avail_idx s + 1,
     v_free := (v_free s)(i := False, j := False, k := False),
     v_info := (v_info s)(i := Some b),
     v_status := (v_status s)(i := 0xff),
     v_ops := (v_ops s)(i := \<lparr>rq_type = (if wr then 1 else 0), rq_reserved = 0, rq_sector = sector_of (vb_blockno (v_bufs s b))\<rparr>),
     v_bufs := (v_bufs s)(b := (v_bufs s b)\<lparr>vb_disk := True\<rparr>),
     v_mmio := v_mmio s @ [(0x050, 0)],
     v_thr := (v_thr s)(t := WaitIo b wr i j k True)\<rparr>"

lemma submit_Ok:
  "mbind (rw_submit b wr i j k) (\<lambda>_. rw_wait t b wr i j k) (s\<lparr>v_free := (v_free s)(i := False, j := False, k := False)\<rparr>) =
   Ok () (submitted t b wr i j k s)"
  by (simp add: rw_submit_def rw_wait_def submitted_def upd_desc_def reg_write_def set_thr_def virtio_consts BSIZE_def)

text \<open>Process \<open>t\<close> may ask for a transfer of buffer \<open>b\<close>: it has no descriptors yet, and nobody else has the
  buffer or its block.\<close>

definition asks :: "vdisk \<Rightarrow> nat \<Rightarrow> nat \<Rightarrow> bool \<Rightarrow> bool" where
  "asks s t b wr \<longleftrightarrow> (v_thr s t = Idle \<or> (\<exists>a. v_thr s t = WaitDesc b wr a)) \<and> vb_blockno (v_bufs s b) < 2 ^ 31 \<and>
     (\<forall>u b'. u \<noteq> t \<longrightarrow> buf_of (v_thr s u) = Some b' \<longrightarrow> b' \<noteq> b \<and> vb_blockno (v_bufs s b') \<noteq> vb_blockno (v_bufs s b))"

lemma asks_cases:
  assumes "asks s t b wr"
  shows "chain (v_thr s t) = {}" "head (v_thr s t) = None" "vb_blockno (v_bufs s b) < 2 ^ 31"
    "u \<noteq> t \<Longrightarrow> buf_of (v_thr s u) = Some b' \<Longrightarrow> b' \<noteq> b \<and> vb_blockno (v_bufs s b') \<noteq> vb_blockno (v_bufs s b)"
  using assms by (auto simp: asks_def)

lemma submitted_queues:
  assumes "vd_inv s" and "i < NUM" and "v_free s i"
  shows "avail_q (submitted t b wr i j k s) = avail_q s @ [i]" "used_q (submitted t b wr i j k s) = used_q s"
    "dev_work (submitted t b wr i j k s) = dev_work s"
proof -
  have "length (avail_q s) \<le> length (pending s)" by (simp add: pending_def)
  then have "length (avail_q s) < NUM" using length_pending[OF assms(1)] busy_less[of i "v_free s"] assms(2,3) by linarith
  from avail_put[OF invD(1)[OF assms(1)] this assms(2)]
  show "avail_q (submitted t b wr i j k s) = avail_q s @ [i]" by (simp add: avail_q_def submitted_def)
  show "used_q (submitted t b wr i j k s) = used_q s" "dev_work (submitted t b wr i j k s) = dev_work s"
    by (simp_all add: used_q_def submitted_def)
qed

lemma free_not_pending: "vd_inv s \<Longrightarrow> v_free s i \<Longrightarrow> i \<notin> set (pending s)"
  using pending_busy by blast

lemma submitted_thr_other:
  assumes inv: "vd_inv s" and asks: "asks s t b wr" and free: "\<And>x. x \<in> {i, j, k} \<Longrightarrow> x < NUM \<and> v_free s x" and u: "u \<noteq> t"
  shows "thr_ok (submitted t b wr i j k s) (v_thr s u)"
proof (cases "v_thr s u")
  case (WaitDesc b' w a)
  have "card {x. x < NUM \<and> v_free (submitted t b wr i j k s) x} \<le> card {x. x < NUM \<and> v_free s x}"
    by (rule card_mono) (auto simp: submitted_def split: if_splits)
  then show ?thesis using invD(3)[OF inv, of u] WaitDesc by (auto simp: thr_ok_def)
next
  case (WaitIo b' w i' j' k' a)
  note q = submitted_queues[OF inv, of i t b wr j k]
  have ne: "x \<notin> {i, j, k}" if "x \<in> {i', j', k'}" for x using chain_busy(2)[OF inv, of x u] free[of x] WaitIo that by auto
  have b: "b' \<noteq> b" using asks_cases(4)[OF asks u, of b'] WaitIo by simp
  have "i' \<noteq> i" "i' \<noteq> j" "i' \<noteq> k" using ne[of i'] by simp_all
  show ?thesis unfolding WaitIo
  proof (rule io_frame[of s])
    show "thr_ok s (WaitIo b' w i' j' k' a)" using invD(3)[OF inv, of u] WaitIo by simp
    show "v_free (submitted t b wr i j k s) x = v_free s x \<and> v_desc (submitted t b wr i j k s) x = v_desc s x" if "x \<in> {i', j', k'}" for x
      using ne[OF that] by (simp add: submitted_def)
  qed (use b \<open>i' \<noteq> i\<close> q free[of i] in \<open>auto simp: submitted_def block_of_def\<close>)
qed (simp add: thr_ok_def)

lemma submitted_thr:
  assumes inv: "vd_inv s" and free: "\<And>x. x \<in> {i, j, k} \<Longrightarrow> x < NUM \<and> v_free s x" and d: "distinct [i, j, k]"
  shows "thr_ok (submitted t b wr i j k s) (WaitIo b wr i j k True)"
proof -
  note q = submitted_queues[OF inv, of i t b wr j k]
  have "i < NUM" "j < NUM" "k < NUM" "v_free s i" using free by simp_all
  then have "req_ok (submitted t b wr i j k s) b wr i j k" using d by (simp add: req_ok_def submitted_def)
  moreover have "vb_disk (v_bufs (submitted t b wr i j k s) b)" by (simp add: submitted_def)
  then have "stage_ok (submitted t b wr i j k s) b i True"
    using q \<open>i < NUM\<close> \<open>v_free s i\<close> free_not_pending[OF inv, of i] by (simp add: stage_ok_def pending_def)
  ultimately show ?thesis by (simp add: thr_ok_def)
qed

lemma submitted_inv:
  assumes inv: "vd_inv s" and asks: "asks s t b wr" and free: "\<And>x. x \<in> {i, j, k} \<Longrightarrow> x < NUM \<and> v_free s x" and d: "distinct [i, j, k]"
  shows "vd_inv (submitted t b wr i j k s)" (is "vd_inv ?s")
proof -
  note q = submitted_queues[OF inv, of i t b wr j k] and a = asks_cases[OF asks]
  have i: "i < NUM" "v_free s i" using free by simp_all
  have thr: "v_thr ?s = (v_thr s)(t := WaitIo b wr i j k True)" by (simp add: submitted_def)
  have blk: "vb_blockno (v_bufs ?s b') = vb_blockno (v_bufs s b')" for b' by (simp add: submitted_def)
  have ap: "apart_thr ?s (WaitIo b wr i j k True) (v_thr s u)" if "u \<noteq> t" for u
  proof -
    have "x \<notin> {i, j, k}" if "x \<in> chain (v_thr s u)" for x using chain_busy(2)[OF inv that] free[of x] by blast
    then show ?thesis using a(4)[OF that] by (auto simp: apart_thr_def blk)
  qed
  have "thr_ok ?s (v_thr ?s u)" for u
    using submitted_thr_other[OF inv asks free] submitted_thr[OF inv free d] by (simp add: thr)
  moreover have "apart_thr ?s (v_thr ?s u) (v_thr ?s v)" if "u \<noteq> v" for u v
    using ap[of v] apart_sym[THEN iffD1, OF ap, of u] apart_blk[OF invD(4)[OF inv that] blk] that by (simp add: thr)
  moreover have "buf_of (v_thr ?s u) = Some b' \<Longrightarrow> vb_blockno (v_bufs ?s b') < 2 ^ 31" for u b'
    using a(3) invD(5)[OF inv, of u b'] by (auto simp: thr blk split: if_splits)
  moreover have "distinct (pending ?s)" using invD(6)[OF inv] q i free_not_pending[OF inv, of i] by (auto simp: pending_def)
  moreover have "\<exists>u. head (v_thr ?s u) = Some h" if "h \<in> set (pending ?s)" for h
  proof (cases "h = i")
    case False
    then have "h \<in> set (pending s)" using that q i by (auto simp: pending_def)
    then obtain u where "head (v_thr s u) = Some h" using invD(7)[OF inv] by blast
    then show ?thesis using a(2) by (intro exI[of _ u]) (auto simp: thr)
  qed (auto simp: thr)
  moreover have "\<exists>u. x \<in> chain (v_thr ?s u)" if "x < NUM" "\<not> v_free ?s x" for x
  proof (cases "x \<in> {i, j, k}")
    case False
    then have "\<not> v_free s x" using that(2) by (simp add: submitted_def)
    then obtain u where "x \<in> chain (v_thr s u)" using invD(8)[OF inv \<open>x < NUM\<close>] by blast
    then show ?thesis using a(1) by (intro exI[of _ u]) (auto simp: thr)
  qed (auto simp: thr intro!: exI[of _ t])
  moreover have "length (v_avail ?s) = NUM" "length (v_used ?s) = NUM" "length (vb_data (v_bufs ?s b')) = BSIZE" "length (v_disk ?s x) = 512" for b' x
    using invD(1,2,9,10)[OF inv] by (simp_all add: submitted_def)
  ultimately show ?thesis unfolding vd_inv_def by blast
qed

lemma asked_abs:
  assumes asks: "asks s t b wr" and "v_disk s' = v_disk s" and "\<And>b. vb_data (v_bufs s' b) = vb_data (v_bufs s b)"
    and "\<And>b. vb_blockno (v_bufs s' b) = vb_blockno (v_bufs s b)"
    and "\<And>u. u \<noteq> t \<Longrightarrow> stage s' (v_thr s' u) = stage s (v_thr s u)" and "stage s' (v_thr s' t) = Asked b wr"
  shows "abs_disk s' = abs_disk s \<or> a_step (abs_disk s) (abs_disk s')"
proof -
  have eq: "abs_disk s' = (abs_disk s)\<lparr>ad_req := (ad_req (abs_disk s))(t := Asked b wr)\<rparr>"
    using assms by (auto simp: abs_disk_def)
  consider "v_thr s t = Idle" | a where "v_thr s t = WaitDesc b wr a" using asks by (auto simp: asks_def)
  then show ?thesis
  proof cases
    case 1
    have "\<not> in_use s b" using asks_cases(4)[OF asks] 1 unfolding in_use_def by (metis buf_of.simps(1) option.distinct(1))
    then have "a_step (abs_disk s) (abs_disk s')" unfolding eq
      using 1 by (intro a_step.ask ad_freeI) (simp_all add: abs_disk_def)
    then show ?thesis by blast
  next
    case 2
    then have "(ad_req (abs_disk s))(t := Asked b wr) = ad_req (abs_disk s)" by (auto simp: abs_disk_def)
    then show ?thesis unfolding eq by simp
  qed
qed

lemma submitted_sim:
  assumes inv: "vd_inv s" and asks: "asks s t b wr" and free: "\<And>x. x \<in> {i, j, k} \<Longrightarrow> x < NUM \<and> v_free s x" and d: "distinct [i, j, k]"
  shows "sim s (submitted t b wr i j k s)" (is "sim s ?s")
proof -
  have i: "i < NUM" "v_free s i" using free by simp_all
  note q = submitted_queues[OF inv i, of t b wr j k]
  have thr: "v_thr ?s = (v_thr s)(t := WaitIo b wr i j k True)" by (simp add: submitted_def)
  have "stage ?s (v_thr s u) = stage s (v_thr s u)" if "u \<noteq> t" for u
    using chain_busy(2)[OF inv, of i u] i by (cases "v_thr s u") (auto simp: q)
  then have "abs_disk ?s = abs_disk s \<or> a_step (abs_disk s) (abs_disk ?s)"
    by (intro asked_abs[OF asks]) (simp_all add: thr q, simp_all add: submitted_def)
  then show ?thesis using submitted_inv[OF assms] by (simp add: sim_def)
qed

lemma wait_inv:
  assumes inv: "vd_inv s" and asks: "asks s t b wr" and few: "card {x. x < NUM \<and> v_free s x} < 3"
  shows "vd_inv (s\<lparr>v_thr := (v_thr s)(t := WaitDesc b wr True)\<rparr>)" (is "vd_inv ?s")
proof -
  note a = asks_cases[OF asks]
  have ok: "thr_ok ?s x = thr_ok s x" for x
    by (simp add: thr_ok_def req_ok_def stage_ok_def block_of_def queue_cong pending_cong split: vthread.split)
  have ap: "apart_thr s (WaitDesc b wr True) (v_thr s u)" if "u \<noteq> t" for u using a(4)[OF that] by (auto simp: apart_thr_def)
  have "thr_ok ?s (v_thr ?s u)" for u using invD(3)[OF inv, of u] few unfolding ok by (simp add: thr_ok_def)
  moreover have "apart_thr ?s (v_thr ?s u) (v_thr ?s v)" if "u \<noteq> v" for u v
    using ap[of u] ap[of v] apart_sym[THEN iffD1, OF ap, of u] invD(4)[OF inv that] that by (simp add: apart_thr_def)
  moreover have "buf_of (v_thr ?s u) = Some b' \<Longrightarrow> vb_blockno (v_bufs ?s b') < 2 ^ 31" for u b'
    using a(3) invD(5)[OF inv, of u b'] by (auto split: if_splits)
  moreover have "\<exists>u. head (v_thr ?s u) = Some h" if "h \<in> set (pending ?s)" for h
    using invD(7)[OF inv, of h] that a(2) by (simp add: pending_cong) (metis option.distinct(1))
  moreover have "\<exists>u. x \<in> chain (v_thr ?s u)" if "x < NUM" "\<not> v_free ?s x" for x
    using invD(8)[OF inv that(1)] that(2) a(1) by simp (metis empty_iff)
  ultimately show ?thesis using invD(1,2,6,9,10)[OF inv] unfolding vd_inv_def by (simp add: pending_cong)
qed

lemma rw_alloc_sim:
  assumes inv: "vd_inv s" and asks: "asks s t b wr"
  shows "\<exists>s'. rw_alloc t b wr s = Ok () s' \<and> sim s s'"
proof (cases s rule: alloc3_cases)
  case (taken i j k)
  then have "rw_alloc t b wr s = Ok () (submitted t b wr i j k s)"
    using submit_Ok[of b wr i j k t s] by (simp add: rw_alloc_def)
  then show ?thesis using submitted_sim[OF inv asks taken(2,1)] by blast
next
  case (few d f)
  let ?s = "s\<lparr>v_desc := d, v_thr := f\<rparr>"
  let ?t = "?s\<lparr>v_thr := (v_thr ?s)(t := WaitDesc b wr True)\<rparr>"
  have r: "\<And>x. \<not> v_free s x \<Longrightarrow> d x = v_desc s x" "\<And>u. f u = v_thr s u \<or> f u = rouse (v_thr s u)"
    using few(2) by (simp_all add: roused_def)
  have "vd_inv ?s" using inv_thr[OF inv_desc[OF inv], of d f] r by simp
  moreover have "buf_of (f u) = buf_of (v_thr s u)" for u using r(2)[of u] by auto
  then have "asks ?s t b wr" using asks r(2)[of t] by (auto simp: asks_def)
  ultimately have "vd_inv ?t" using few(1) by (intro wait_inv) simp_all
  moreover have "stage ?t (f u) = stage s (v_thr s u)" for u
    using r(2)[of u] by (cases "v_thr s u") (auto simp: avail_q_def)
  then have "abs_disk ?t = abs_disk s \<or> a_step (abs_disk s) (abs_disk ?t)" by (intro asked_abs[OF asks]) simp_all
  ultimately have "sim s ?t" by (simp add: sim_def)
  then show ?thesis using few(3) by (simp add: rw_alloc_def set_thr_def)
qed

section \<open>Ending a request\<close>

lemma wk_wk [simp]: "wk (wk f) = wk f"
  by (rule ext) (simp add: wk_def split: vthread.split)

lemma free_chain_Ok:
  assumes "req_ok (s\<lparr>v_info := g\<rparr>) b wr i j k"
  shows "free_chain i s = Ok () (s\<lparr>v_desc := (v_desc s)(i := zero_desc, j := zero_desc, k := zero_desc),
    v_free := (v_free s)(i := True, j := True, k := True), v_thr := wk (v_thr s)\<rparr>)"
proof -
  have r: "i < NUM" "j < NUM" "k < NUM" "\<not> v_free s i" "\<not> v_free s j" "\<not> v_free s k" "j \<noteq> i" "k \<noteq> i" "k \<noteq> j"
    "vq_flags (v_desc s i) = 1" "vq_next (v_desc s i) = of_nat j" "vq_flags (v_desc s j) = (if wr then 1 else 3)"
    "vq_next (v_desc s j) = of_nat k" "vq_flags (v_desc s k) = 2"
    using assms by (auto simp: req_ok_def)
  have fl: "(1 :: u16) AND 1 \<noteq> 0" "(3 :: u16) AND 1 \<noteq> 0" "(2 :: u16) AND 1 = 0" by simp_all
  let ?s1 = "s\<lparr>v_desc := (v_desc s)(i := zero_desc), v_free := (v_free s)(i := True), v_thr := wk (v_thr s)\<rparr>"
  let ?s2 = "s\<lparr>v_desc := (v_desc s)(i := zero_desc, j := zero_desc), v_free := (v_free s)(i := True, j := True), v_thr := wk (v_thr s)\<rparr>"
  have "free_chain i s = free_chain j ?s1"
    using r fl by (subst free_chain.simps) (simp add: free_desc_Ok virtio_consts unat_small)
  also have "\<dots> = free_chain k ?s2"
    using r fl by (subst free_chain.simps) (simp add: free_desc_Ok virtio_consts unat_small)
  also have "\<dots> = Ok () (s\<lparr>v_desc := (v_desc s)(i := zero_desc, j := zero_desc, k := zero_desc),
    v_free := (v_free s)(i := True, j := True, k := True), v_thr := wk (v_thr s)\<rparr>)"
    using r fl by (subst free_chain.simps) (simp add: free_desc_Ok virtio_consts)
  finally show ?thesis .
qed

definition ended :: "nat \<Rightarrow> nat \<Rightarrow> nat \<Rightarrow> nat \<Rightarrow> vdisk \<Rightarrow> vdisk" where
  "ended t i j k s = s\<lparr>v_desc := (v_desc s)(i := zero_desc, j := zero_desc, k := zero_desc),
     v_free := (v_free s)(i := True, j := True, k := True), v_info := (v_info s)(i := None), v_thr := (wk (v_thr s))(t := Idle)\<rparr>"

lemma ended_queues [simp]: "avail_q (ended t i j k s) = avail_q s" "used_q (ended t i j k s) = used_q s"
  "dev_work (ended t i j k s) = dev_work s" "pending (ended t i j k s) = pending s" "v_bufs (ended t i j k s) = v_bufs s"
  "v_disk (ended t i j k s) = v_disk s" "v_status (ended t i j k s) = v_status s" "v_ops (ended t i j k s) = v_ops s"
  by (simp_all add: ended_def pending_def avail_q_def used_q_def)

lemma wk_same [simp]: "chain (wk f u) = chain (f u)" "head (wk f u) = head (f u)" "buf_of (wk f u) = buf_of (f u)"
  "stage s (wk f u) = stage s (f u)"
  using wk_cases[of f u] by auto

lemma rw_wait_done:
  assumes "req_ok s b wr i j k" and "\<not> vb_disk (v_bufs s b)"
  shows "rw_wait t b wr i j k s = Ok () (ended t i j k s)"
proof -
  let ?s = "s\<lparr>v_info := (v_info s)(i := None)\<rparr>"
  have "free_chain i ?s = Ok () (?s\<lparr>v_desc := (v_desc s)(i := zero_desc, j := zero_desc, k := zero_desc),
    v_free := (v_free s)(i := True, j := True, k := True), v_thr := wk (v_thr s)\<rparr>)"
    using free_chain_Ok[where s = ?s and g = "v_info s"] assms(1) by simp
  then show ?thesis using assms(2) by (simp add: rw_wait_def ended_def set_thr_def)
qed

lemma ended_thr_other:
  assumes inv: "vd_inv s" and t: "v_thr s t = WaitIo b wr i j k a" and u: "u \<noteq> t"
  shows "thr_ok (ended t i j k s) (wk (v_thr s) u)"
proof (cases "v_thr s u")
  case (WaitIo b' w i' j' k' a')
  have ne: "x \<notin> {i, j, k}" if "x \<in> {i', j', k'}" for x
    using invD(4)[OF inv u] WaitIo t that by (auto simp: apart_thr_def)
  have "wk (v_thr s) u = v_thr s u" using WaitIo by (simp add: wk_def)
  then have "wk (v_thr s) u = WaitIo b' w i' j' k' a'" using WaitIo by simp
  moreover have "thr_ok (ended t i j k s) (WaitIo b' w i' j' k' a')"
  proof (rule io_frame[of s])
    show "thr_ok s (WaitIo b' w i' j' k' a')" using invD(3)[OF inv, of u] WaitIo by simp
    show "v_free (ended t i j k s) x = v_free s x \<and> v_desc (ended t i j k s) x = v_desc s x" if "x \<in> {i', j', k'}" for x
      using ne[OF that] by (simp add: ended_def)
    show "v_info (ended t i j k s) i' = v_info s i'" using ne[of i'] by (simp add: ended_def)
  qed (simp_all add: block_of_def)
  ultimately show ?thesis by simp
qed (simp_all add: thr_ok_def wk_def)

lemma ended_sim:
  assumes inv: "vd_inv s" and t: "v_thr s t = WaitIo b wr i j k a" and "\<not> vb_disk (v_bufs s b)"
  shows "sim s (ended t i j k s)" (is "sim s ?s")
proof -
  have thr: "v_thr ?s = (wk (v_thr s))(t := Idle)" by (simp add: ended_def)
  have np: "i \<notin> set (pending s)" using invD(3)[OF inv, of t] t assms(3) by (simp add: thr_ok_def stage_ok_def)
  have "thr_ok ?s (v_thr ?s u)" for u using ended_thr_other[OF inv t] by (simp add: thr thr_ok_def)
  moreover have "apart_thr ?s (v_thr ?s u) (v_thr ?s v)" if "u \<noteq> v" for u v
    using invD(4)[OF inv that] by (simp add: thr apart_thr_def)
  moreover have "buf_of (v_thr ?s u) = Some b' \<Longrightarrow> vb_blockno (v_bufs ?s b') < 2 ^ 31" for u b'
    using invD(5)[OF inv, of u b'] by (simp add: thr split: if_splits)
  moreover have "\<exists>u. head (v_thr ?s u) = Some h" if h: "h \<in> set (pending ?s)" for h
  proof -
    obtain u where u: "head (v_thr s u) = Some h" using invD(7)[OF inv, of h] h by auto
    then have "u \<noteq> t" using np h t by auto
    then show ?thesis using u by (intro exI[of _ u]) (simp add: thr)
  qed
  moreover have "\<exists>u. x \<in> chain (v_thr ?s u)" if x: "x < NUM" "\<not> v_free ?s x" for x
  proof -
    have "\<not> v_free s x" "x \<notin> {i, j, k}" using x(2) by (auto simp: ended_def split: if_splits)
    then obtain u where u: "x \<in> chain (v_thr s u)" using invD(8)[OF inv x(1)] by blast
    then have "u \<noteq> t" using \<open>x \<notin> {i, j, k}\<close> t by auto
    then show ?thesis using u by (intro exI[of _ u]) (simp add: thr)
  qed
  moreover have "length (v_avail ?s) = NUM" "length (v_used ?s) = NUM" using invD(1,2)[OF inv] by (simp_all add: ended_def)
  ultimately have "vd_inv ?s" using invD(6,9,10)[OF inv] unfolding vd_inv_def by simp
  moreover have "stage s (v_thr s t) = Served b wr" using t np by (simp add: pending_def)
  then have "a_step (abs_disk s) ((abs_disk s)\<lparr>ad_req := (ad_req (abs_disk s))(t := Quiet)\<rparr>)"
    by (intro a_step.finish[of _ _ b wr]) (simp add: abs_disk_def)
  moreover have "stage ?s x = stage s x" for x by (cases x) simp_all
  then have "abs_disk ?s = (abs_disk s)\<lparr>ad_req := (ad_req (abs_disk s))(t := Quiet)\<rparr>"
    by (auto simp: abs_disk_def thr)
  ultimately show ?thesis by (simp add: sim_def)
qed

text \<open>A process that runs after a \<open>sleep\<close>: it goes back to sleep, asks again, or ends.\<close>

lemma sleep_sim:
  assumes inv: "vd_inv s" and t: "v_thr s t = WaitIo b wr i j k a" and busy: "vb_disk (v_bufs s b)"
  shows "sim s (s\<lparr>v_thr := (v_thr s)(t := WaitIo b wr i j k True)\<rparr>)" (is "sim s ?s")
proof -
  have "thr_ok s (WaitIo b wr i j k True)" using invD(3)[OF inv, of t] t busy by (simp add: thr_ok_def stage_ok_def)
  then have "vd_inv ?s" using invD(3)[OF inv] t by (intro inv_thr_same[OF inv]) simp_all
  moreover have "stage ?s x = stage s x" for x by (cases x) (simp_all add: queue_cong)
  then have "abs_disk ?s = abs_disk s" using t by (intro abs_eqI) simp_all
  ultimately show ?thesis by (simp add: sim_def)
qed

lemma sim_refl: "vd_inv s \<Longrightarrow> sim s s"
  by (simp add: sim_def)

lemma rw_resume_sim:
  assumes inv: "vd_inv s"
  shows "\<exists>s'. rw_resume t s = Ok () s' \<and> sim s s'"
proof (cases "v_thr s t")
  case Idle
  then show ?thesis using sim_refl[OF inv] by (simp add: rw_resume_def)
next
  case (WaitDesc b wr a)
  have "asks s t b wr" using invD(4)[OF inv, of _ t] invD(5)[OF inv, of t b] WaitDesc by (auto simp: asks_def apart_thr_def)
  then show ?thesis using rw_alloc_sim[OF inv] WaitDesc by (simp add: rw_resume_def)
next
  case (WaitIo b wr i j k a)
  have r: "req_ok s b wr i j k" using invD(3)[OF inv, of t] WaitIo by (simp add: thr_ok_def)
  show ?thesis
  proof (cases "vb_disk (v_bufs s b)")
    case True
    then show ?thesis using sleep_sim[OF inv WaitIo True] WaitIo by (simp add: rw_resume_def rw_wait_def set_thr_def)
  next
    case False
    then show ?thesis using ended_sim[OF inv WaitIo False] rw_wait_done[OF r False] WaitIo by (simp add: rw_resume_def)
  qed
qed

section \<open>Interrupts\<close>

definition seen :: "nat \<Rightarrow> vdisk \<Rightarrow> vdisk" where
  "seen b s = (wakeup_buf b (s\<lparr>v_bufs := (v_bufs s)(b := (v_bufs s b)\<lparr>vb_disk := False\<rparr>)\<rparr>))\<lparr>d_used_idx := d_used_idx s + 1\<rparr>"

lemma seen_fields [simp]: "v_desc (seen b s) = v_desc s" "v_free (seen b s) = v_free s" "v_ops (seen b s) = v_ops s"
  "v_info (seen b s) = v_info s" "v_status (seen b s) = v_status s" "v_disk (seen b s) = v_disk s" "avail_q (seen b s) = avail_q s"
  "dev_work (seen b s) = dev_work s" "v_bufs (seen b s) = (v_bufs s)(b := (v_bufs s b)\<lparr>vb_disk := False\<rparr>)"
  "v_avail (seen b s) = v_avail s" "v_used (seen b s) = v_used s"
  by (simp_all add: seen_def wakeup_buf_def avail_q_def)

lemma seen_thr: "v_thr (seen b s) u = (if buf_of (v_thr s u) = Some b \<and> head (v_thr s u) \<noteq> None then rouse (v_thr s u) else v_thr s u)"
  by (cases "v_thr s u") (simp_all add: seen_def wakeup_buf_def)

lemma seen_same [simp]: "chain (v_thr (seen b s) u) = chain (v_thr s u)" "head (v_thr (seen b s) u) = head (v_thr s u)"
  "buf_of (v_thr (seen b s) u) = buf_of (v_thr s u)" "stage r (v_thr (seen b s) u) = stage r (v_thr s u)"
  by (simp_all add: seen_thr)

text \<open>The entry of the used ring that the handler looks at next.\<close>

lemma used_entry:
  assumes inv: "vd_inv s" and ne: "d_used_idx s \<noteq> v_used_idx s" and h: "h = unat (v_used s ! (unat (d_used_idx s) mod NUM))"
  obtains t b wr j k a where "v_thr s t = WaitIo b wr h j k a" "h < NUM" "v_status s h = 0" "v_info s h = Some b"
    "used_q s = h # used_q (seen b s)"
proof -
  have q: "used_q s = h # used_q (s\<lparr>d_used_idx := d_used_idx s + 1\<rparr>)" using used_get[OF ne] h by simp
  then have "h \<in> set (pending s)" by (simp add: pending_def)
  then obtain t where "head (v_thr s t) = Some h" using invD(7)[OF inv] by blast
  then obtain b wr j k a where t: "v_thr s t = WaitIo b wr h j k a" by (cases "v_thr s t") auto
  then have "req_ok s b wr h j k" "stage_ok s b h a" using invD(3)[OF inv, of t] by (simp_all add: thr_ok_def)
  then have "h < NUM" "v_info s h = Some b" "v_status s h = 0" using q by (simp_all add: req_ok_def stage_ok_def)
  moreover have "used_q s = h # used_q (seen b s)" using q by (simp add: used_q_def seen_def wakeup_buf_def)
  ultimately show thesis using t that by blast
qed

lemma seen_inv:
  assumes inv: "vd_inv s" and t: "v_thr s t = WaitIo b wr h j k a" and q: "used_q s = h # used_q (seen b s)"
  shows "vd_inv (seen b s)"
proof -
  let ?s = "seen b s"
  have d: "h \<notin> set (avail_q s)" "h \<notin> set (dev_work s)" "h \<notin> set (used_q ?s)" "distinct (pending ?s)"
    using invD(6)[OF inv] q by (auto simp: pending_def)
  have blk: "block_of ?s b' = block_of s b'" for b' by (simp add: block_of_def)
  have "thr_ok ?s (v_thr ?s u)" for u
  proof (cases "u = t")
    case True
    have "req_ok s b wr h j k" "stage_ok s b h a" using invD(3)[OF inv, of t] t by (simp_all add: thr_ok_def)
    then have "req_ok ?s b wr h j k" "stage_ok ?s b h False" using d by (simp_all add: req_ok_def stage_ok_def pending_def blk)
    then show ?thesis using True t by (simp add: seen_thr thr_ok_def)
  next
    case False
    show ?thesis
    proof (cases "v_thr s u")
      case (WaitIo b' w i' j' k' a')
      have ne: "b' \<noteq> b" "i' \<noteq> h" using invD(4)[OF inv False] t WaitIo by (auto simp: apart_thr_def)
      have "thr_ok s (WaitIo b' w i' j' k' a')" using invD(3)[OF inv, of u] WaitIo by simp
      then have "thr_ok ?s (WaitIo b' w i' j' k' a')" by (rule io_frame) (use ne q in \<open>simp_all add: blk\<close>)
      then show ?thesis using ne WaitIo by (simp add: seen_thr)
    qed (use invD(3)[OF inv, of u] in \<open>simp_all add: seen_thr thr_ok_def\<close>)
  qed
  moreover have "apart_thr ?s (v_thr ?s u) (v_thr ?s v)" if "u \<noteq> v" for u v
    using invD(4)[OF inv that] by (auto simp: apart_thr_def)
  moreover have "buf_of (v_thr ?s u) = Some b' \<Longrightarrow> vb_blockno (v_bufs ?s b') < 2 ^ 31" for u b'
    using invD(5)[OF inv, of u b'] by auto
  moreover have "\<exists>u. head (v_thr ?s u) = Some h1" if "h1 \<in> set (pending ?s)" for h1
    using invD(7)[OF inv, of h1] that q by (auto simp: pending_def)
  moreover have "\<exists>u. x \<in> chain (v_thr ?s u)" if "x < NUM" "\<not> v_free ?s x" for x
    using invD(8)[OF inv that(1)] that(2) by simp
  ultimately show ?thesis using d(4) invD(1,2,9,10)[OF inv] unfolding vd_inv_def by simp
qed

lemma seen_abs: "abs_disk (seen b s) = abs_disk s"
proof (rule abs_eqI)
  have "stage (seen b s) x = stage s x" for x by (cases x) simp_all
  then show "stage (seen b s) (v_thr (seen b s) t) = stage s (v_thr s t)" for t by simp
qed simp_all

lemma intr_loop_Ok: "vd_inv s \<Longrightarrow> \<exists>s'. intr_loop s = Ok () s' \<and> vd_inv s' \<and> abs_disk s' = abs_disk s"
proof (induction s rule: intr_loop.induct)
  case (1 s)
  show ?case
  proof (cases "d_used_idx s = v_used_idx s")
    case True
    then show ?thesis using "1.prems" by (subst intr_loop.simps) simp
  next
    case False
    obtain t b wr j k a where e: "v_thr s t = WaitIo b wr (unat (v_used s ! (unat (d_used_idx s) mod NUM))) j k a"
      "unat (v_used s ! (unat (d_used_idx s) mod NUM)) < NUM" "v_status s (unat (v_used s ! (unat (d_used_idx s) mod NUM))) = 0"
      "v_info s (unat (v_used s ! (unat (d_used_idx s) mod NUM))) = Some b"
      "used_q s = unat (v_used s ! (unat (d_used_idx s) mod NUM)) # used_q (seen b s)"
      using used_entry[OF "1.prems" False refl] by metis
    have "intr_loop s = intr_loop (seen b s)" using False e by (subst intr_loop.simps) (simp add: Let_def seen_def)
    moreover have "\<exists>s'. intr_loop (seen b s) = Ok () s' \<and> vd_inv s' \<and> abs_disk s' = abs_disk (seen b s)"
      using "1.IH"[OF False refl] e seen_inv[OF "1.prems" e(1,5)] by (simp add: seen_def)
    ultimately show ?thesis by (simp add: seen_abs)
  qed
qed

lemma intr_sim:
  assumes "vd_inv s"
  shows "\<exists>s'. virtio_disk_intr rd s = Ok () s' \<and> sim s s'"
proof -
  let ?s = "s\<lparr>v_mmio := v_mmio s @ [(0x064, rd (v_mmio s) 0x060 AND 3)]\<rparr>"
  have "abs_disk ?s = abs_disk s"
  proof (rule abs_eqI)
    show "stage ?s (v_thr ?s t) = stage s (v_thr s t)" for t by (cases "v_thr s t") (simp_all add: queue_cong)
  qed simp_all
  then show ?thesis using intr_loop_Ok[OF inv_mmio[OF assms]]
    by (simp add: virtio_disk_intr_def reg_write_def sim_def) metis
qed

section \<open>Steps of the device\<close>

lemma fetch_sim:
  assumes inv: "vd_inv s" and ne: "dev_idx s \<noteq> v_avail_idx s"
  shows "sim s (s\<lparr>dev_work := unat (v_avail s ! (unat (dev_idx s) mod NUM)) # dev_work s, dev_idx := dev_idx s + 1\<rparr>)" (is "sim s ?s")
proof -
  let ?h = "unat (v_avail s ! (unat (dev_idx s) mod NUM))"
  have q: "avail_q s = ?h # avail_q ?s" using avail_get[OF ne] by (simp add: avail_q_def)
  have w: "dev_work ?s = ?h # dev_work s" "used_q ?s = used_q s" by (simp_all add: used_q_def)
  have m: "x \<in> set (avail_q ?s) \<or> x \<in> set (dev_work ?s) \<longleftrightarrow> x \<in> set (avail_q s) \<or> x \<in> set (dev_work s)" for x
    using q w by auto
  have "thr_ok ?s (v_thr s u)" for u
  proof (cases "v_thr s u")
    case (WaitIo b wr i j k a)
    have "thr_ok s (WaitIo b wr i j k a)" using invD(3)[OF inv, of u] WaitIo by simp
    then show ?thesis unfolding WaitIo by (rule io_frame) (use m[of i] w in \<open>simp_all add: block_of_def\<close>)
  qed (use invD(3)[OF inv, of u] in \<open>simp_all add: thr_ok_def\<close>)
  moreover have "apart_thr ?s x y = apart_thr s x y" for x y by (simp add: apart_thr_def)
  moreover have "distinct (pending ?s)" "set (pending ?s) = set (pending s)" using invD(6)[OF inv] q w by (auto simp: pending_def)
  ultimately have "vd_inv ?s" using inv unfolding vd_inv_def by simp
  moreover have "stage ?s x = stage s x" for x using m by (cases x) simp_all
  then have "abs_disk ?s = abs_disk s" by (intro abs_eqI) simp_all
  ultimately show ?thesis by (simp add: sim_def)
qed

lemma sectors_2: "get_sectors d x 2 = d x @ d (x + 1)"
  "put_sectors x 2 bs d = d(x := take 512 bs, x + 1 := take 512 (drop 512 bs))"
  by (simp_all add: get_sectors_def put_sectors_def numeral_2_eq_2)

lemma unat_sector:
  assumes "n < 2 ^ 31"
  shows "unat (sector_of n) = 2 * unat n"
proof -
  have n: "unat n < 2 ^ 31" using assms by (simp add: word_less_nat_alt)
  then have "unat (n * 2) = 2 * unat n" by (simp add: unat_word_ariths)
  moreover have "unat (ucast x :: u64) = unat x" for x :: u32
    using unsigned_less[of x, where 'a = nat] by (simp add: unsigned_ucast_eq take_bit_nat_eq_self)
  ultimately show ?thesis by (simp add: sector_of_def)
qed

lemma sectors_apart:
  assumes "n < 2 ^ 31" and "m < 2 ^ 31" and "n \<noteq> m"
  shows "sector_of n \<noteq> sector_of m" "sector_of n + 1 \<noteq> sector_of m" "sector_of n + 1 \<noteq> sector_of m + 1"
    "sector_of n \<noteq> sector_of m + 1"
proof -
  have b: "unat x < 2 ^ 31" if "x < 2 ^ 31" for x :: u32 using that by (simp add: word_less_nat_alt)
  have s: "unat (sector_of x + 1) = 2 * unat x + 1" if "x < 2 ^ 31" for x
    using unat_sector[OF that] b[OF that] by (simp add: unat_word_ariths)
  have "unat n \<noteq> unat m" using assms(3) by (simp add: word_unat_eq_iff)
  then have "unat (sector_of n) \<noteq> unat (sector_of m)" "unat (sector_of n + 1) \<noteq> unat (sector_of m)"
    "unat (sector_of n + 1) \<noteq> unat (sector_of m + 1)" "unat (sector_of n) \<noteq> unat (sector_of m + 1)"
    unfolding s[OF assms(1)] s[OF assms(2)] unat_sector[OF assms(1)] unat_sector[OF assms(2)] by presburger+
  then show "sector_of n \<noteq> sector_of m" "sector_of n + 1 \<noteq> sector_of m" "sector_of n + 1 \<noteq> sector_of m + 1"
    "sector_of n \<noteq> sector_of m + 1" by metis+
qed

lemma block_other:
  assumes "n < 2 ^ 31" and "m < 2 ^ 31" and "n \<noteq> m"
  shows "get_sectors (put_sectors (sector_of n) 2 bs d) (sector_of m) 2 = get_sectors d (sector_of m) 2"
  using sectors_apart[OF assms] by (simp add: sectors_2)

lemma block_written: "length bs = BSIZE \<Longrightarrow> get_sectors (put_sectors x 2 bs d) x 2 = bs"
  by (simp add: sectors_2 BSIZE_def)

definition moved :: "nat \<Rightarrow> bool \<Rightarrow> vdisk \<Rightarrow> vdisk" where
  "moved b wr s =
     (if wr then s\<lparr>v_disk := put_sectors (sector_of (vb_blockno (v_bufs s b))) 2 (vb_data (v_bufs s b)) (v_disk s)\<rparr>
      else s\<lparr>v_bufs := (v_bufs s)(b := (v_bufs s b)\<lparr>vb_data := block_of s b\<rparr>)\<rparr>)"

lemma dev_done_Ok:
  assumes "req_ok s b wr i j k" and "length (vb_data (v_bufs s b)) = BSIZE"
  shows "dev_done i s = Some (dev_finish i i (moved b wr s))"
proof -
  have r: "v_desc s i = \<lparr>vq_addr = D_op i, vq_len = 16, vq_flags = 1, vq_next = of_nat j\<rparr>"
    "v_desc s j = \<lparr>vq_addr = D_data b, vq_len = 1024, vq_flags = (if wr then 1 else 3), vq_next = of_nat k\<rparr>"
    "v_desc s k = \<lparr>vq_addr = D_status i, vq_len = 1, vq_flags = 2, vq_next = 0\<rparr>"
    "v_ops s i = \<lparr>rq_type = (if wr then 1 else 0), rq_reserved = 0, rq_sector = sector_of (vb_blockno (v_bufs s b))\<rparr>"
    "unat (of_nat j :: u16) = j" "unat (of_nat k :: u16) = k"
    using assms(1) by (simp_all add: req_ok_def unat_small)
  show ?thesis using assms(2) by (simp add: dev_done_def r Let_def virtio_consts moved_def block_of_def BSIZE_def)
qed

lemma moved_fields [simp]: "v_desc (moved b wr s) = v_desc s" "v_free (moved b wr s) = v_free s" "v_ops (moved b wr s) = v_ops s"
  "v_info (moved b wr s) = v_info s" "v_status (moved b wr s) = v_status s" "v_thr (moved b wr s) = v_thr s"
  "v_avail (moved b wr s) = v_avail s" "v_used (moved b wr s) = v_used s" "dev_work (moved b wr s) = dev_work s"
  "v_used_idx (moved b wr s) = v_used_idx s" "avail_q (moved b wr s) = avail_q s" "used_q (moved b wr s) = used_q s"
  "vb_blockno (v_bufs (moved b wr s) b') = vb_blockno (v_bufs s b')" "vb_disk (v_bufs (moved b wr s) b') = vb_disk (v_bufs s b')"
  "b' \<noteq> b \<Longrightarrow> v_bufs (moved b wr s) b' = v_bufs s b'"
  by (simp_all add: moved_def avail_q_def used_q_def)

lemma finish_fields [simp]: "v_desc (dev_finish h i s) = v_desc s" "v_free (dev_finish h i s) = v_free s" "v_ops (dev_finish h i s) = v_ops s"
  "v_info (dev_finish h i s) = v_info s" "v_status (dev_finish h i s) = (v_status s)(i := 0)" "v_thr (dev_finish h i s) = v_thr s"
  "v_avail (dev_finish h i s) = v_avail s" "length (v_used (dev_finish h i s)) = length (v_used s)"
  "dev_work (dev_finish h i s) = remove1 h (dev_work s)" "avail_q (dev_finish h i s) = avail_q s"
  "v_bufs (dev_finish h i s) = v_bufs s" "v_disk (dev_finish h i s) = v_disk s"
  by (simp_all add: dev_finish_def avail_q_def)

lemma finish_used:
  assumes "vd_inv s" and "h \<in> set (dev_work s)" and "used_q r = used_q s" and "v_used r = v_used s"
  shows "used_q (dev_finish h i r) = used_q s @ [h]"
proof -
  have "length (used_q s) < length (pending s)" using assms(2) by (auto simp: pending_def)
  then have "length (used_q r) < NUM" using length_pending[OF assms(1)] busy_NUM[of "v_free s"] assms(3) by simp
  moreover have "h < NUM" using pending_busy[OF assms(1), of h] assms(2) by (simp add: pending_def)
  ultimately have "used_q (r\<lparr>v_used := (v_used r)[unat (v_used_idx r) mod NUM := of_nat h], v_used_idx := v_used_idx r + 1\<rparr>) = used_q r @ [h]"
    using invD(2)[OF assms(1)] assms(4) by (intro used_put) simp_all
  then show ?thesis using assms(3) by (simp add: used_q_def dev_finish_def)
qed

lemma moved_block:
  assumes inv: "vd_inv s" and t: "buf_of (v_thr s t) = Some b"
  shows "vb_data (v_bufs (moved b wr s) b) = block_of (moved b wr s) b"
    and "u \<noteq> t \<Longrightarrow> buf_of (v_thr s u) = Some b' \<Longrightarrow> block_of (moved b wr s) b' = block_of s b'"
    and "length (vb_data (v_bufs (moved b wr s) c)) = BSIZE" and "length (v_disk (moved b wr s) x) = 512"
proof -
  note len = invD(9,10)[OF inv]
  show "vb_data (v_bufs (moved b wr s) b) = block_of (moved b wr s) b"
    by (simp add: moved_def block_of_def block_written len)
  show "block_of (moved b wr s) b' = block_of s b'" if "u \<noteq> t" "buf_of (v_thr s u) = Some b'"
    using invD(4)[OF inv that(1)] invD(5)[OF inv that(2)] invD(5)[OF inv t] t that(2)
    by (auto simp: moved_def block_of_def apart_thr_def intro!: block_other)
  show "length (vb_data (v_bufs (moved b wr s) c)) = BSIZE" by (simp add: moved_def block_of_def sectors_2 len BSIZE_def)
  show "length (v_disk (moved b wr s) x) = 512" using len(1)[of b] by (simp add: moved_def sectors_2 len BSIZE_def)
qed

lemma served_inv:
  assumes inv: "vd_inv s" and t: "v_thr s t = WaitIo b wr i j k a" and w: "i \<in> set (dev_work s)"
  shows "vd_inv (dev_finish i i (moved b wr s))" (is "vd_inv ?s")
proof -
  have u: "used_q ?s = used_q s @ [i]" using finish_used[OF inv w, of "moved b wr s"] by simp
  note mb = moved_block[OF inv, of t b] and dist = invD(6)[OF inv]
  have bt: "buf_of (v_thr s t) = Some b" using t by simp
  have blk: "block_of ?s c = block_of (moved b wr s) c" for c by (simp add: block_of_def)
  have m: "set (pending ?s) = set (pending s)" "distinct (pending ?s)" "i \<notin> set (avail_q s)" "i \<notin> set (remove1 i (dev_work s))"
    using dist w u by (auto simp: pending_def set_remove1_eq)
  have "thr_ok ?s (v_thr s v)" for v
  proof (cases "v = t")
    case True
    have "req_ok s b wr i j k" "stage_ok s b i a" using invD(3)[OF inv, of t] t by (simp_all add: thr_ok_def)
    then have r: "req_ok ?s b wr i j k" by (simp add: req_ok_def)
    have p: "i \<in> set (pending s)" using w by (simp add: pending_def)
    then have "vb_disk (v_bufs ?s b)" using \<open>stage_ok s b i a\<close> by (simp add: stage_ok_def)
    moreover have "vb_data (v_bufs ?s b) = block_of ?s b" using mb(1)[OF bt, of wr] by (simp add: blk)
    moreover have "i \<in> set (pending ?s)" "v_status ?s i = 0" using m(1) p by simp_all
    ultimately have "stage_ok ?s b i a" unfolding stage_ok_def by blast
    then show ?thesis using r True t by (simp add: thr_ok_def)
  next
    case False
    show ?thesis
    proof (cases "v_thr s v")
      case (WaitIo b' w' i' j' k' a')
      have ne: "b' \<noteq> b" "i' \<noteq> i" using invD(4)[OF inv False] t WaitIo by (auto simp: apart_thr_def)
      have b: "block_of ?s b' = block_of s b'" using mb(2)[OF bt False, of b' wr] WaitIo by (simp add: blk)
      have "thr_ok s (WaitIo b' w' i' j' k' a')" using invD(3)[OF inv, of v] WaitIo by simp
      then show ?thesis unfolding WaitIo by (rule io_frame) (use ne u b in \<open>simp_all\<close>)
    qed (use invD(3)[OF inv, of v] in \<open>simp_all add: thr_ok_def\<close>)
  qed
  moreover have "apart_thr ?s x y = apart_thr s x y" for x y by (simp add: apart_thr_def)
  moreover have "length (vb_data (v_bufs ?s c)) = BSIZE" "length (v_disk ?s x) = 512" for c x using mb(3,4)[OF bt] by simp_all
  ultimately show ?thesis using inv m unfolding vd_inv_def by simp
qed

lemma served_sim:
  assumes inv: "vd_inv s" and t: "v_thr s t = WaitIo b wr i j k a" and w: "i \<in> set (dev_work s)"
  shows "sim s (dev_finish i i (moved b wr s))" (is "sim s ?s")
proof -
  have d: "i \<notin> set (avail_q s)" "i \<notin> set (remove1 i (dev_work s))" "stage s (v_thr s t) = Asked b wr"
    using invD(6)[OF inv] w t by (auto simp: pending_def set_remove1_eq)
  have "stage ?s (v_thr s u) = stage s (v_thr s u)" if "u \<noteq> t" for u
  proof (cases "v_thr s u")
    case (WaitIo b' w' i' j' k' a')
    then have "i' \<noteq> i" using invD(4)[OF inv that] t by (auto simp: apart_thr_def)
    then show ?thesis using WaitIo by simp
  qed simp_all
  moreover have "stage ?s (v_thr s t) = Served b wr" using t d by simp
  ultimately have "abs_disk ?s = (transfer b wr (abs_disk s))\<lparr>ad_req := (ad_req (abs_disk s))(t := Served b wr)\<rparr>"
    by (auto simp: abs_disk_def transfer_def moved_def block_of_def fun_eq_iff)
  moreover have "a_step (abs_disk s) ((transfer b wr (abs_disk s))\<lparr>ad_req := (ad_req (abs_disk s))(t := Served b wr)\<rparr>)"
    using d(3) by (intro a_step.serve) (simp add: abs_disk_def)
  ultimately show ?thesis using served_inv[OF assms] by (simp add: sim_def)
qed

lemma device_sim:
  assumes "virtio_device dev" and inv: "vd_inv s" and "dev s s'"
  shows "sim s s'"
proof -
  consider "dev_idx s \<noteq> v_avail_idx s"
      "s' = s\<lparr>dev_work := unat (v_avail s ! (unat (dev_idx s) mod NUM)) # dev_work s, dev_idx := dev_idx s + 1\<rparr>"
    | h where "h \<in> set (dev_work s)" "\<And>t. dev_done h s = Some t \<Longrightarrow> s' = t"
    using assms(1,3) unfolding virtio_device_def by blast
  then show ?thesis
  proof cases
    case 1
    then show ?thesis using fetch_sim[OF inv] by simp
  next
    case 2
    then obtain t where "head (v_thr s t) = Some h" using invD(7)[OF inv, of h] by (auto simp: pending_def)
    then obtain b wr j k a where t: "v_thr s t = WaitIo b wr h j k a" by (cases "v_thr s t") auto
    then have "dev_done h s = Some (dev_finish h h (moved b wr s))"
      using dev_done_Ok[of s b wr h j k] invD(3)[OF inv, of t] invD(9)[OF inv] by (simp add: thr_ok_def)
    then show ?thesis using 2 served_sim[OF inv t] by blast
  qed
qed

section \<open>Steps and reachable states\<close>

lemma asks_call: "may_call s t b \<Longrightarrow> asks s t b wr"
  by (auto simp: may_call_def asks_def in_use_def)

lemma killed_sim:
  assumes inv: "vd_inv s"
  shows "sim s (s\<lparr>v_thr := (v_thr s)(t := rouse (v_thr s t))\<rparr>)" (is "sim s ?s")
proof -
  have "vd_inv ?s" by (rule inv_thr[OF inv]) simp
  moreover have "stage ?s x = stage s x" for x by (cases x) (simp_all add: queue_cong)
  then have "abs_disk ?s = abs_disk s" by (intro abs_eqI) simp_all
  ultimately show ?thesis by (simp add: sim_def)
qed

lemma owner_sim:
  assumes inv: "vd_inv s" and free: "\<not> in_use s b" and "length d = BSIZE"
  shows "sim s (s\<lparr>v_bufs := (v_bufs s)(b := (v_bufs s b)\<lparr>vb_data := d, vb_blockno := n\<rparr>)\<rparr>)" (is "sim s ?s")
proof -
  have ne: "b' \<noteq> b" if "buf_of (v_thr s u) = Some b'" for u b' using free that by (auto simp: in_use_def)
  have "thr_ok ?s (v_thr s u)" for u
  proof (cases "v_thr s u")
    case (WaitIo b' wr i j k a)
    have "thr_ok s (WaitIo b' wr i j k a)" using invD(3)[OF inv, of u] WaitIo by simp
    then show ?thesis unfolding WaitIo by (rule io_frame) (use ne[of u b'] WaitIo in \<open>simp_all add: queue_cong block_of_def\<close>)
  qed (use invD(3)[OF inv, of u] in \<open>simp_all add: thr_ok_def\<close>)
  moreover have "apart_thr ?s (v_thr s u) (v_thr s v)" if "u \<noteq> v" for u v
    using invD(4)[OF inv that] ne[of u] ne[of v] by (auto simp: apart_thr_def)
  moreover have "vb_blockno (v_bufs ?s b') < 2 ^ 31" if "buf_of (v_thr s u) = Some b'" for u b'
    using invD(5)[OF inv that] ne[OF that] by simp
  ultimately have "vd_inv ?s" using inv assms(3) unfolding vd_inv_def by (simp add: pending_cong)
  moreover have "stage ?s x = stage s x" for x by (cases x) (simp_all add: queue_cong)
  then have "abs_disk ?s = (abs_disk s)\<lparr>ad_data := (ad_data (abs_disk s))(b := d), ad_blk := (ad_blk (abs_disk s))(b := n)\<rparr>"
    by (auto simp: abs_disk_def)
  then have "a_step (abs_disk s) (abs_disk ?s)" using a_step.own[OF ad_freeI[OF free]] by simp
  ultimately show ?thesis by (simp add: sim_def)
qed

lemma vstep_sim:
  assumes "virtio_device dev" and "vd_inv s" and "vstep rd dev s s'"
  shows "sim s s'"
  using assms(3,2)
proof cases
  case (call t b wr)
  then show ?thesis using rw_alloc_sim[OF assms(2) asks_call[OF call(1)], of wr] by (auto simp: virtio_disk_rw_def)
next
  case (resume t)
  then show ?thesis using rw_resume_sim[OF assms(2), of t] by auto
next
  case intr
  then show ?thesis using intr_sim[OF assms(2), of rd] by auto
next
  case device
  then show ?thesis using device_sim[OF assms(1,2)] by blast
next
  case (killed t)
  then show ?thesis using killed_sim[OF assms(2)] by simp
next
  case (owner b d n)
  then show ?thesis using owner_sim[OF assms(2)] by simp
qed

lemma fresh_inv: "v_fresh s \<Longrightarrow> vd_inv s"
  by (auto simp: v_fresh_def vd_inv_def thr_ok_def apart_thr_def pending_def avail_q_def used_q_def ring_def)

lemma vreach_inv: "vreach rd dev s \<Longrightarrow> virtio_device dev \<Longrightarrow> vd_inv s"
proof (induction rule: vreach.induct)
  case (step s s')
  then show ?case using vstep_sim sim_def by blast
qed (rule fresh_inv)

section \<open>Initialisation leads to the first state\<close>

text \<open>The static \<open>struct disk\<close> is zero before \<open>virtio_disk_init\<close>, and a device that was reset has taken nothing.\<close>

definition v_static :: "vdisk \<Rightarrow> bool" where
  "v_static s \<longleftrightarrow> d_used_idx s = 0 \<and> dev_idx s = 0 \<and> dev_work s = [] \<and> (\<forall>t. v_thr s t = Idle) \<and>
     (\<forall>b. length (vb_data (v_bufs s b)) = BSIZE) \<and> (\<forall>x. length (v_disk s x) = 512)"

lemma for_each_modify: "for_each xs (\<lambda>i. modify (f i)) s = Ok () (fold f xs s)"
  by (induction xs arbitrary: s) simp_all

lemma fold_free: "fold (\<lambda>i v. v\<lparr>v_free := (v_free v)(i := True)\<rparr>) xs v = v\<lparr>v_free := (\<lambda>i. i \<in> set xs \<or> v_free v i)\<rparr>"
  by (induction xs arbitrary: v) (auto simp: fun_eq_iff intro!: arg_cong[where f = "\<lambda>g. _\<lparr>v_free := g\<rparr>"])

lemma kern_snd: "kern m p = Ok x q \<Longrightarrow> snd q = snd p"
  by (auto simp: kern_def split: outcome.splits prod.splits)

lemma drv_apply: "drv m p = (case m (snd p) of Ok x v' \<Rightarrow> Ok x (fst p, v') | Panic e \<Rightarrow> Panic e | Switch v' \<Rightarrow> Switch (fst p, v') | Undef e \<Rightarrow> Undef e)"
  by (simp add: drv_def split_beta)

lemma kern_modify: "kern (modify f) p = Ok () (f (fst p), snd p)"
  by (simp add: kern_def split_beta)

lemma init_fresh:
  assumes "virtio_disk_init rd p = Ok () q" and "v_static (snd p)"
  shows "v_fresh (snd q)"
  using assms
  by (simp add: virtio_disk_init_def drv_apply kern_modify reg_write_def reg_write64_def for_each_modify fold_free
      split: if_split_asm outcome.split_asm)
    (drule sym, simp add: v_static_def v_fresh_def kern_snd)

section \<open>Properties\<close>

text \<open>A device that does what is documented, a state after initialisation, and a first request: process
  0 writes buffer 0 with descriptors 0, 1 and 2.\<close>

definition plain_device :: "vdisk \<Rightarrow> vdisk \<Rightarrow> bool" where
  "plain_device s s' \<longleftrightarrow>
     (dev_idx s \<noteq> v_avail_idx s \<and>
        s' = s\<lparr>dev_work := unat (v_avail s ! (unat (dev_idx s) mod NUM)) # dev_work s, dev_idx := dev_idx s + 1\<rparr>) \<or>
     (\<exists>h \<in> set (dev_work s). dev_done h s = Some s')"

definition first_state :: vdisk where
  "first_state = \<lparr>v_desc = (\<lambda>_. zero_desc), v_avail = replicate NUM 0, v_avail_idx = 0, v_used = replicate NUM 0, v_used_idx = 0,
     v_free = (\<lambda>_. True), d_used_idx = 0, v_info = (\<lambda>_. None), v_status = (\<lambda>_. 0),
     v_ops = (\<lambda>_. \<lparr>rq_type = 0, rq_reserved = 0, rq_sector = 0\<rparr>),
     v_bufs = (\<lambda>b. \<lparr>vb_blockno = 7, vb_data = replicate BSIZE 1, vb_disk = False\<rparr>), v_mmio = [], v_thr = (\<lambda>_. Idle),
     dev_idx = 0, dev_work = [], v_disk = (\<lambda>_. replicate 512 0)\<rparr>"

definition first_request :: vdisk where
  "first_request = submitted 0 0 True 0 1 2 first_state"

lemma plain_device: "virtio_device plain_device"
proof -
  have "(\<exists>h \<in> set (dev_work s). dev_done h s = Some s') \<Longrightarrow> \<exists>h \<in> set (dev_work s). \<forall>t. dev_done h s = Some t \<longrightarrow> s' = t" for s s'
    by (metis option.inject)
  then show ?thesis unfolding virtio_device_def plain_device_def by blast
qed

lemma first_reach: "vreach rd plain_device first_state"
  by (rule vreach.fresh) (simp add: v_fresh_def first_state_def)

lemma first_call: "may_call first_state 0 0" "virtio_disk_rw 0 0 True first_state = Ok () first_request"
proof -
  show "may_call first_state 0 0" by (simp add: may_call_def in_use_def first_state_def)
  have u: "[0..<NUM] = [0, 1, 2, 3, 4, 5, 6, 7]" by (simp add: NUM_def upt_rec)
  have "alloc3_desc first_state = Ok (Some [0, 1, 2])
      (first_state\<lparr>v_free := (v_free first_state)(0 := False, 1 := False, 2 := False)\<rparr>)"
    by (simp add: alloc3_desc_def numeral_3_eq_3 alloc_desc_eq u) (simp add: first_state_def)
  then show "virtio_disk_rw 0 0 True first_state = Ok () first_request"
    using submit_Ok[of 0 True 0 1 2 0 first_state] by (simp add: virtio_disk_rw_def rw_alloc_def first_request_def)
qed

lemma first_step: "vstep rd plain_device first_state first_request"
  using first_call by (rule vstep.call)





text \<open>
  C37: no wakeup is lost. For a device as documented, in every reachable state a process that sleeps for its request
  has the request on its way: not yet taken by the device, being carried out, or on the used ring
  for the interrupt handler to find. A process that sleeps for descriptors finds fewer than three free
  ones, and another process holds descriptors that it frees, with a wakeup, at the end of its request.
\<close>

theorem virtio_no_lost_wakeup:
  assumes "virtio_device dev" and "vreach rd dev s"
  shows "(\<forall>t b wr i j k. v_thr s t = WaitIo b wr i j k True \<longrightarrow>
       vb_disk (v_bufs s b) \<and> (i \<in> set (avail_q s) \<or> i \<in> set (dev_work s) \<or> i \<in> set (used_q s))) \<and>
    (\<forall>t b wr. v_thr s t = WaitDesc b wr True \<longrightarrow>
       card {i. i < NUM \<and> v_free s i} < 3 \<and> (\<exists>u b' wr' i j k a. v_thr s u = WaitIo b' wr' i j k a))"
proof (intro conjI allI impI)
  have inv: "vd_inv s" using vreach_inv assms by blast
  fix t b wr
  show "vb_disk (v_bufs s b)" "i \<in> set (avail_q s) \<or> i \<in> set (dev_work s) \<or> i \<in> set (used_q s)"
    if "v_thr s t = WaitIo b wr i j k True" for i j k
    using invD(3)[OF inv, of t] that by (auto simp: thr_ok_def stage_ok_def pending_def)
  assume t: "v_thr s t = WaitDesc b wr True"
  show few: "card {i. i < NUM \<and> v_free s i} < 3" using invD(3)[OF inv, of t] t by (simp add: thr_ok_def)
  have "\<exists>x < NUM. \<not> v_free s x"
  proof (rule ccontr)
    assume "\<not> (\<exists>x < NUM. \<not> v_free s x)"
    then have "{i. i < NUM \<and> v_free s i} = {i. i < NUM}" by auto
    then show False using few by (simp add: NUM_def)
  qed
  then obtain u x where "x \<in> chain (v_thr s u)" using invD(8)[OF inv] by blast
  then show "\<exists>u b' wr' i j k a. v_thr s u = WaitIo b' wr' i j k a" by (cases "v_thr s u") (simp, simp, blast)
qed

theorem virtio_no_lost_wakeup_witness: "virtio_device plain_device \<and> vreach (\<lambda>_ _. 0) plain_device first_request \<and>
   v_thr first_request 0 = WaitIo 0 True 0 1 2 True \<and> vb_disk (v_bufs first_request 0) \<and>
   (0 \<in> set (avail_q first_request) \<or> 0 \<in> set (dev_work first_request) \<or> 0 \<in> set (used_q first_request))"
proof -
  have t: "v_thr first_request 0 = WaitIo 0 True 0 1 2 True" by (simp add: first_request_def submitted_def)
  show ?thesis using virtio_no_lost_wakeup[OF plain_device vreach.step[OF first_reach first_step]] plain_device
    vreach.step[OF first_reach first_step] t by blast
qed

end
