(* ===== verification/User.thy ===== *)
theory User
  imports Prelude "HOL-Library.Monad_Syntax"
begin

text \<open>
  User programs. A program runs against the rest of the system, whose state has an arbitrary type
  \<open>'w\<close>; the system calls it makes are the fields of a record, so that every definition of a program
  takes them as an argument. The model follows one process: \<open>fork\<close> returns what it returns there.
\<close>

section \<open>System calls\<close>

text \<open>\<open>read\<close> returns the result and the bytes it stored; the buffers of \<open>pipe\<close> and \<open>fstat\<close> are results.
  \<open>exec\<close> returns only when it fails.\<close>

record 'w sys =
  u_open :: "byte list \<Rightarrow> u32 \<Rightarrow> 'w \<Rightarrow> int \<times> 'w"
  u_close :: "int \<Rightarrow> 'w \<Rightarrow> int \<times> 'w"
  u_read :: "int \<Rightarrow> nat \<Rightarrow> 'w \<Rightarrow> (int \<times> byte list) \<times> 'w"
  u_write :: "int \<Rightarrow> byte list \<Rightarrow> 'w \<Rightarrow> int \<times> 'w"
  u_fork :: "'w \<Rightarrow> int \<times> 'w"
  u_wait :: "'w \<Rightarrow> int \<times> 'w"
  u_exec :: "byte list \<Rightarrow> byte list list \<Rightarrow> 'w \<Rightarrow> int \<times> 'w"
  u_pipe :: "'w \<Rightarrow> (int \<times> int \<times> int) \<times> 'w"
  u_dup :: "int \<Rightarrow> 'w \<Rightarrow> int \<times> 'w"
  u_chdir :: "byte list \<Rightarrow> 'w \<Rightarrow> int \<times> 'w"
  u_sbrk :: "int \<Rightarrow> 'w \<Rightarrow> u64 \<times> 'w"
  u_fstat :: "int \<Rightarrow> 'w \<Rightarrow> (int \<times> byte list) \<times> 'w"

section \<open>Programs\<close>

text \<open>
  A program returns a value, ends the process by \<open>exit\<close>, or does something the C standard leaves
  undefined (\<open>Fault\<close>); \<^const>\<open>None\<close> is a program that never ends.
\<close>

datatype ('w, 'a) ures = Done 'a 'w | Exited int 'w | Fault string

type_synonym ('w, 'a) prog = "'w \<Rightarrow> ('w, 'a) ures option"

definition uret :: "'a \<Rightarrow> ('w, 'a) prog" where
  "uret x = (\<lambda>w. Some (Done x w))"

definition ubind :: "('w, 'a) prog \<Rightarrow> ('a \<Rightarrow> ('w, 'b) prog) \<Rightarrow> ('w, 'b) prog" where
  "ubind m f = (\<lambda>w. Option.bind (m w) (\<lambda>r. case r of
       Done x w' \<Rightarrow> f x w'
     | Exited n w' \<Rightarrow> Some (Exited n w')
     | Fault e \<Rightarrow> Some (Fault e)))"

definition uexit :: "int \<Rightarrow> ('w, 'a) prog" where
  "uexit n = (\<lambda>w. Some (Exited n w))"

definition ufault :: "string \<Rightarrow> ('w, 'a) prog" where
  "ufault e = (\<lambda>w. Some (Fault e))"

text \<open>A system call, and a computation on buffers that may leave them.\<close>

definition usys :: "('w \<Rightarrow> 'a \<times> 'w) \<Rightarrow> ('w, 'a) prog" where
  "usys f = (\<lambda>w. case f w of (x, w') \<Rightarrow> Some (Done x w'))"

definition umem :: "'a option \<Rightarrow> ('w, 'a) prog" where
  "umem x = (case x of None \<Rightarrow> ufault ''out of bounds'' | Some y \<Rightarrow> uret y)"

lemma uprog_apply [simp]:
  "uret x w = Some (Done x w)" "uexit n w = Some (Exited n w)" "ufault e w = Some (Fault e)"
  "umem (Some y) = uret y" "umem None = ufault ''out of bounds''"
  by (simp_all add: uret_def uexit_def ufault_def umem_def)

lemma usys_apply [simp]: "f w = (x, w') \<Longrightarrow> usys f w = Some (Done x w')"
  by (simp add: usys_def)

lemma ubind_apply [simp]:
  "m w = Some (Done x w') \<Longrightarrow> ubind m f w = f x w'"
  "m w = Some (Exited n w') \<Longrightarrow> ubind m f w = Some (Exited n w')"
  "m w = Some (Fault e) \<Longrightarrow> ubind m f w = Some (Fault e)"
  "m w = None \<Longrightarrow> ubind m f w = None"
  by (simp_all add: ubind_def)

lemma ubind_assoc: "ubind (ubind m f) g = ubind m (\<lambda>x. ubind (f x) g)"
proof
  fix w show "ubind (ubind m f) g w = ubind m (\<lambda>x. ubind (f x) g) w"
    by (cases "m w") (auto simp: ubind_def split: ures.split)
qed

lemma ubind_mono [partial_function_mono]:
  assumes "\<And>w. mono_option (\<lambda>F. B F w)" and "\<And>x w. mono_option (\<lambda>F. C x F w)"
  shows "mono_option (\<lambda>F. ubind (B F) (\<lambda>x. C x F) w)"
  unfolding ubind_def
proof (intro bind_mono assms(1))
  fix r show "mono_option (\<lambda>F. case r of Done x w' \<Rightarrow> C x F w' | Exited n w' \<Rightarrow> Some (Exited n w') | Fault e \<Rightarrow> Some (Fault e))"
    by (cases r) (auto intro: assms(2) option.const_mono)
qed

lemma if_app_mono [partial_function_mono]:
  "mono_option (\<lambda>F. B F w) \<Longrightarrow> mono_option (\<lambda>F. C F w) \<Longrightarrow> mono_option (\<lambda>F. (if b then B F else C F) w)"
  by (cases b) simp_all

text \<open>A loop over a list, and one output per element.\<close>

primrec ueach :: "'i list \<Rightarrow> ('i \<Rightarrow> ('w, unit) prog) \<Rightarrow> ('w, unit) prog" where
  "ueach [] body = uret ()"
| "ueach (i # is) body = ubind (body i) (\<lambda>_. ueach is body)"

section \<open>Streams\<close>

text \<open>
  What programs rely on when they filter one stream into another: \<open>inp\<close> is what is still to be read from
  the descriptor \<open>fd\<close> and \<open>out\<close> what has been written to \<open>ofd\<close>. A \<open>read\<close> returns some of the bytes that
  are left, at least one unless none are left or none were asked for; a \<open>write\<close> appends all its bytes.
\<close>

definition stdio :: "'w sys \<Rightarrow> int \<Rightarrow> int \<Rightarrow> ('w \<Rightarrow> byte list) \<Rightarrow> ('w \<Rightarrow> byte list) \<Rightarrow> bool" where
  "stdio S fd ofd inp out \<longleftrightarrow>
     (\<forall>k w. \<exists>n w'. u_read S fd k w = ((int n, take n (inp w)), w') \<and> n \<le> k \<and> n \<le> length (inp w) \<and>
        (0 < k \<and> inp w \<noteq> [] \<longrightarrow> 0 < n) \<and> inp w' = drop n (inp w) \<and> out w' = out w) \<and>
     (\<forall>bs w. \<exists>w'. u_write S ofd bs w = (int (length bs), w') \<and> inp w' = inp w \<and> out w' = out w @ bs)"

lemma stdio_read:
  assumes "stdio S fd ofd inp out" and "inp w \<noteq> []" and "0 < k"
  shows "\<exists>n w'. u_read S fd k w = ((int n, take n (inp w)), w') \<and> 0 < n \<and> n \<le> k \<and> n \<le> length (inp w) \<and>
    inp w' = drop n (inp w) \<and> out w' = out w"
  using assms unfolding stdio_def by blast

lemma stdio_eof:
  assumes "stdio S fd ofd inp out" and "inp w = []"
  shows "\<exists>w'. u_read S fd k w = ((0, []), w') \<and> inp w' = [] \<and> out w' = out w"
proof -
  obtain n w' where "u_read S fd k w = ((int n, take n (inp w)), w') \<and> n \<le> length (inp w) \<and> inp w' = drop n (inp w) \<and> out w' = out w"
    using assms(1) unfolding stdio_def by meson
  then show ?thesis using assms(2) by auto
qed

lemma stdio_write:
  assumes "stdio S fd ofd inp out"
  shows "\<exists>w'. u_write S ofd bs w = (int (length bs), w') \<and> inp w' = inp w \<and> out w' = out w @ bs"
  using assms unfolding stdio_def by blast

text \<open>A text cut into its lines, and what follows the last newline.\<close>

fun text_lines :: "byte list \<Rightarrow> byte list list \<times> byte list" where
  "text_lines [] = ([], [])"
| "text_lines (c # cs) =
     (let (ls, r) = text_lines cs in
      if c = 10 then ([] # ls, r) else case ls of [] \<Rightarrow> ([], c # r) | l # ls' \<Rightarrow> ((c # l) # ls', r))"

lemma text_lines_line: "10 \<notin> set l \<Longrightarrow> text_lines (l @ 10 # cs) = (l # fst (text_lines cs), snd (text_lines cs))"
  by (induction l) (auto simp: split_beta)

lemma text_lines_rest: "10 \<notin> set l \<Longrightarrow> text_lines l = ([], l)"
  by (induction l) auto

lemma text_lines_none: "10 \<notin> set (snd (text_lines cs))"
  by (induction cs) (auto simp: split_beta split: list.splits)

lemma text_lines_sub: "set (snd (text_lines cs)) \<subseteq> set cs"
  by (induction cs) (auto simp: split_beta split: list.splits)

lemma split_line:
  obtains (rest) "10 \<notin> set cs" | (line) l ds where "cs = l @ 10 # ds" "10 \<notin> set l"
  using split_list_first[of 10 cs] by blast

lemma text_lines_append:
  "text_lines (xs @ ys) = (fst (text_lines xs) @ fst (text_lines (snd (text_lines xs) @ ys)), snd (text_lines (snd (text_lines xs) @ ys)))"
proof (induction "length xs" arbitrary: xs rule: less_induct)
  case less
  show ?case
  proof (cases xs rule: split_line)
    case rest
    then show ?thesis by (simp add: text_lines_rest)
  next
    case (line l ds)
    have "length ds < length xs" using line by simp
    from less[OF this] show ?thesis using line by (simp add: text_lines_line)
  qed
qed

text \<open>A system for examples: descriptor 0 delivers at most three bytes at a time, and every write goes to
  one output; the other calls fail.\<close>

definition small_sys :: "(byte list \<times> byte list) sys" where
  "small_sys = \<lparr>u_open = (\<lambda>_ _ w. (-1, w)), u_close = (\<lambda>_ w. (0, w)),
     u_read = (\<lambda>_ k w. ((int (min (min k 3) (length (fst w))), take (min k 3) (fst w)), (drop (min k 3) (fst w), snd w))),
     u_write = (\<lambda>_ bs w. (int (length bs), (fst w, snd w @ bs))), u_fork = (\<lambda>w. (-1, w)), u_wait = (\<lambda>w. (-1, w)),
     u_exec = (\<lambda>_ _ w. (-1, w)), u_pipe = (\<lambda>w. ((-1, 0, 0), w)), u_dup = (\<lambda>_ w. (-1, w)), u_chdir = (\<lambda>_ w. (-1, w)),
     u_sbrk = (\<lambda>_ w. (-1, w)), u_fstat = (\<lambda>_ w. ((-1, []), w))\<rparr>"

lemma small_stdio: "stdio small_sys fd ofd fst snd"
  unfolding stdio_def
proof (intro conjI allI)
  fix k :: nat and w :: "byte list \<times> byte list"
  show "\<exists>n w'. u_read small_sys fd k w = ((int n, take n (fst w)), w') \<and> n \<le> k \<and> n \<le> length (fst w) \<and>
        (0 < k \<and> fst w \<noteq> [] \<longrightarrow> 0 < n) \<and> fst w' = drop n (fst w) \<and> snd w' = snd w"
    by (rule exI[of _ "min (min k 3) (length (fst w))"]) (auto simp: small_sys_def min_def)
qed (simp add: small_sys_def)

end
