(* ===== verification/Ulib.thy ===== *)
theory Ulib
  imports User CString
begin

text \<open>
  The C library of user programs (\<open>ulib.c\<close>). A pointer to a string is the list of the bytes from there
  to the end of its object; running off that end is \<^const>\<open>None\<close>. The copying routines work on memory,
  as those of the kernel do.
\<close>

section \<open>Strings\<close>

fun strlen :: "byte list \<Rightarrow> nat option" where
  "strlen [] = None"
| "strlen (c # s) = (if c = 0 then Some 0 else map_option Suc (strlen s))"

fun strcmp :: "byte list \<Rightarrow> byte list \<Rightarrow> int option" where
  "strcmp (p # ps) (q # qs) = (if p \<noteq> 0 \<and> p = q then strcmp ps qs else Some (uint p - uint q))"
| "strcmp _ _ = None"

text \<open>\<open>Some None\<close> is the null pointer, \<open>Some (Some i)\<close> a pointer to the byte at index \<open>i\<close>.\<close>

fun strchr :: "byte list \<Rightarrow> byte \<Rightarrow> nat option option" where
  "strchr [] c = None"
| "strchr (x # s) c =
     (if x = 0 then Some None else if x = c then Some (Some 0)
      else map_option (map_option Suc) (strchr s c))"

text \<open>\<open>strcpy\<close>: the bytes of the destination object afterwards.\<close>

fun strcpy :: "byte list \<Rightarrow> byte list \<Rightarrow> byte list option" where
  "strcpy (_ # s) (c # t) = (if c = 0 then Some (c # s) else map_option (Cons c) (strcpy s t))"
| "strcpy _ _ = None"

definition is_digit :: "byte \<Rightarrow> bool" where
  "is_digit c \<longleftrightarrow> 48 \<le> c \<and> c \<le> 57"

fun atoi_from :: "u32 \<Rightarrow> byte list \<Rightarrow> u32 option" where
  "atoi_from n [] = None"
| "atoi_from n (c # s) = (if is_digit c then atoi_from (n * 10 + ucast c - 48) s else Some n)"

definition atoi :: "byte list \<Rightarrow> int option" where
  "atoi s = map_option sint (atoi_from 0 s)"

section \<open>Memory\<close>

definition memset :: "u64 \<Rightarrow> byte \<Rightarrow> nat \<Rightarrow> memory \<Rightarrow> memory" where
  "memset dst c n m = memset_from n 0 dst c m"

definition memmove :: "u64 \<Rightarrow> u64 \<Rightarrow> nat \<Rightarrow> memory \<Rightarrow> memory" where
  "memmove vdst vsrc n m =
     (if vsrc > vdst then copy_fwd n vdst vsrc m
      else copy_bwd n (vdst + of_nat n) (vsrc + of_nat n) m)"

fun memcmp :: "memory \<Rightarrow> u64 \<Rightarrow> u64 \<Rightarrow> nat \<Rightarrow> int" where
  "memcmp m p1 p2 0 = 0"
| "memcmp m p1 p2 (Suc n) =
     (if m p1 \<noteq> m p2 then uint (m p1) - uint (m p2) else memcmp m (p1 + 1) (p2 + 1) n)"

definition memcpy :: "u64 \<Rightarrow> u64 \<Rightarrow> nat \<Rightarrow> memory \<Rightarrow> memory" where
  "memcpy dst src n m = memmove dst src n m"

section \<open>Input\<close>

text \<open>The loop of \<open>gets\<close>; \<open>k\<close> is the room left in the buffer, the result the bytes stored.\<close>

fun gets_loop :: "'w sys \<Rightarrow> nat \<Rightarrow> byte list \<Rightarrow> ('w, byte list) prog" where
  "gets_loop S 0 buf = uret buf"
| "gets_loop S (Suc k) buf =
     ubind (usys (u_read S 0 1)) (\<lambda>r.
     case r of (cc, bs) \<Rightarrow>
     if cc < 1 then uret buf else
     let c = hd bs in
     if c = 10 \<or> c = 13 then uret (buf @ [c]) else gets_loop S k (buf @ [c]))"

definition gets :: "'w sys \<Rightarrow> int \<Rightarrow> ('w, byte list) prog" where
  "gets S mx = ubind (gets_loop S (nat (mx - 1)) []) (\<lambda>buf. uret (buf @ [0]))"

definition O_RDONLY :: u32 where "O_RDONLY = 0"
definition O_WRONLY :: u32 where "O_WRONLY = 1"
definition O_RDWR :: u32 where "O_RDWR = 2"
definition O_CREATE :: u32 where "O_CREATE = 0x200"
definition O_TRUNC :: u32 where "O_TRUNC = 0x400"

definition stat :: "'w sys \<Rightarrow> byte list \<Rightarrow> ('w, int \<times> byte list) prog" where
  "stat S n =
     ubind (usys (u_open S n O_RDONLY)) (\<lambda>fd.
     if fd < 0 then uret (-1, []) else
     ubind (usys (u_fstat S fd)) (\<lambda>r.
     ubind (usys (u_close S fd)) (\<lambda>_.
     uret r)))"

text \<open>\<open>start\<close>: a program that returns from \<open>main\<close> exits with status 0.\<close>

definition start :: "('w, 'a) prog \<Rightarrow> ('w, unit) prog" where
  "start main = ubind main (\<lambda>_. uexit 0)"

section \<open>What the string routines compute\<close>

text \<open>A string in an object: its bytes, none of them zero, the terminator and whatever follows.\<close>

definition c_str :: "byte list \<Rightarrow> byte list" where
  "c_str bs = bs @ [0]"

lemma strlen_str: "0 \<notin> set bs \<Longrightarrow> strlen (bs @ 0 # r) = Some (length bs)"
  by (induction bs) auto

lemma strchr_find:
  "0 \<notin> set bs \<Longrightarrow> strchr (bs @ 0 # r) c = Some (if c \<in> set bs then Some (length (takeWhile (\<lambda>x. x \<noteq> c) bs)) else None)"
  by (induction bs) auto

lemma strcmp_eq: "0 \<notin> set p \<Longrightarrow> 0 \<notin> set q \<Longrightarrow> strcmp (p @ 0 # r) (q @ 0 # r') = Some 0 \<longleftrightarrow> p = q"
proof (induction p arbitrary: q)
  case Nil
  then show ?case by (cases q) (auto simp: uint_0_iff)
next
  case (Cons x p)
  then show ?case by (cases q) (auto simp: word_uint_eq_iff)
qed

text \<open>The order in which \<open>strcmp\<close> sorts: the first byte that differs decides, a prefix comes first.\<close>

fun str_less :: "byte list \<Rightarrow> byte list \<Rightarrow> bool" where
  "str_less p [] = False"
| "str_less [] (y # q) = True"
| "str_less (x # p) (y # q) = (x < y \<or> x = y \<and> str_less p q)"

lemma strcmp_less:
  "0 \<notin> set p \<Longrightarrow> 0 \<notin> set q \<Longrightarrow> \<exists>d. strcmp (p @ 0 # r) (q @ 0 # r') = Some d \<and> (d < 0 \<longleftrightarrow> str_less p q)"
proof (induction p q rule: str_less.induct)
  case (1 p)
  then show ?case by (cases p) (auto simp: uint_0_iff)
next
  case (2 y q)
  then show ?case by (auto simp: order_less_le uint_0_iff)
next
  case (3 x p y q)
  then show ?case by (auto simp: word_less_def word_uint_eq_iff)
qed

lemma str_less_irrefl [simp]: "\<not> str_less p p"
  by (induction p) auto

lemma str_less_trans: "str_less p q \<Longrightarrow> str_less q r \<Longrightarrow> str_less p r"
proof (induction p q arbitrary: r rule: str_less.induct)
  case (2 y q)
  then show ?case by (cases r) auto
next
  case (3 x p y q)
  then show ?case by (cases r) auto
qed simp

lemma str_less_linear: "str_less p q \<or> p = q \<or> str_less q p"
proof (induction p q rule: str_less.induct)
  case (1 p)
  then show ?case by (cases p) auto
qed auto



end
