(* ===== verification/Uprintf.thy ===== *)
theory Uprintf
  imports Ulib
begin

text \<open>
  \<open>printf\<close> of user programs (\<open>printf.c\<close> under \<open>user/\<close>): every character is one \<open>write\<close> of one byte.
  Variadic arguments are a list; reading one of another type, or past the end, is a fault. Format strings
  are their bytes without the terminator; string arguments are objects with it.
\<close>

definition digits :: "byte list" where
  "digits = map of_char ''0123456789ABCDEF''"

definition bytes_of :: "string \<Rightarrow> byte list" where
  "bytes_of s = map of_char s"

definition putc :: "'w sys \<Rightarrow> int \<Rightarrow> byte \<Rightarrow> ('w, unit) prog" where
  "putc S fd c = ubind (usys (u_write S fd [c])) (\<lambda>_. uret ())"

text \<open>The first loop of \<open>printint\<close>: the values of the digits, least significant first.\<close>

function digit_vals :: "nat \<Rightarrow> nat \<Rightarrow> nat list" where
  "digit_vals b x = x mod b # (if 1 < b \<and> x div b \<noteq> 0 then digit_vals b (x div b) else [])"
  by pat_completeness auto
termination
  by (relation "measure snd") (auto simp: div_greater_zero_iff intro!: div_less_dividend)

declare digit_vals.simps [simp del]

definition printint_buf :: "u32 \<Rightarrow> nat \<Rightarrow> bool \<Rightarrow> byte list" where
  "printint_buf xx b sg =
     (let neg = sg \<and> sint xx < 0;
          x = (if neg then - xx else xx)
      in map (nth digits) (digit_vals b (unat x)) @ (if neg then [of_char CHR ''-''] else []))"

definition printint :: "'w sys \<Rightarrow> int \<Rightarrow> u32 \<Rightarrow> nat \<Rightarrow> bool \<Rightarrow> ('w, unit) prog" where
  "printint S fd xx b sg =
     (let buf = printint_buf xx b sg
      in if length buf > 16 then ufault ''printint: buf'' else ueach (rev buf) (putc S fd))"

definition printptr :: "'w sys \<Rightarrow> int \<Rightarrow> u64 \<Rightarrow> ('w, unit) prog" where
  "printptr S fd x =
     ubind (putc S fd (of_char CHR ''0'')) (\<lambda>_.
     ubind (putc S fd (of_char CHR ''x'')) (\<lambda>_.
     ueach [0..<16] (\<lambda>i. putc S fd (digits ! unat (drop_bit 60 (push_bit (4 * i) x))))))"

datatype uarg = UInt u32 | ULong u64 | UStr "byte list option"

text \<open>\<open>va_arg(ap, uint64)\<close> passed to the \<open>int\<close> parameter of \<open>printint\<close> keeps the low 32 bits.\<close>

fun arg_int :: "uarg list \<Rightarrow> (u32 \<times> uarg list) option" where
  "arg_int (UInt w # ap) = Some (w, ap)"
| "arg_int _ = None"

fun arg_long :: "uarg list \<Rightarrow> (u64 \<times> uarg list) option" where
  "arg_long (ULong w # ap) = Some (w, ap)"
| "arg_long _ = None"

fun arg_str :: "uarg list \<Rightarrow> (byte list \<times> uarg list) option" where
  "arg_str (UStr (Some s) # ap) = Some (s, ap)"
| "arg_str (UStr None # ap) = Some (bytes_of ''(null)'' @ [0], ap)"
| "arg_str _ = None"

datatype conv = DInt nat bool | DLong nat bool | DPtr | DStr | DPercent | DUnknown byte

text \<open>The chain of tests after a percent sign, with the number of bytes of the format it takes; \<open>c0\<close> is
  the first of them.\<close>

definition conv_of :: "byte \<Rightarrow> byte list \<Rightarrow> conv \<times> nat" where
  "conv_of c0 fmt =
     (let c1 = (if fmt = [] then 0 else hd fmt);
          c2 = (if length fmt < 2 then 0 else fmt ! 1);
          is = (\<lambda>c ch. c = (of_char ch :: byte))
      in if is c0 CHR ''d'' then (DInt 10 True, 0)
         else if is c0 CHR ''l'' \<and> is c1 CHR ''d'' then (DLong 10 True, 1)
         else if is c0 CHR ''l'' \<and> is c1 CHR ''l'' \<and> is c2 CHR ''d'' then (DLong 10 True, 2)
         else if is c0 CHR ''u'' then (DInt 10 False, 0)
         else if is c0 CHR ''l'' \<and> is c1 CHR ''u'' then (DLong 10 False, 1)
         else if is c0 CHR ''l'' \<and> is c1 CHR ''l'' \<and> is c2 CHR ''u'' then (DLong 10 False, 2)
         else if is c0 CHR ''x'' then (DInt 16 False, 0)
         else if is c0 CHR ''l'' \<and> is c1 CHR ''x'' then (DLong 16 False, 1)
         else if is c0 CHR ''l'' \<and> is c1 CHR ''l'' \<and> is c2 CHR ''x'' then (DLong 16 False, 2)
         else if is c0 CHR ''p'' then (DPtr, 0)
         else if is c0 CHR ''s'' then (DStr, 0)
         else if is c0 CHR ''%'' then (DPercent, 0)
         else (DUnknown c0, 0))"

fun put_conv :: "'w sys \<Rightarrow> int \<Rightarrow> conv \<Rightarrow> uarg list \<Rightarrow> ('w, uarg list) prog" where
  "put_conv S fd (DInt b sg) ap =
     (case arg_int ap of None \<Rightarrow> ufault ''va_arg''
      | Some (x, ap') \<Rightarrow> ubind (printint S fd x b sg) (\<lambda>_. uret ap'))"
| "put_conv S fd (DLong b sg) ap =
     (case arg_long ap of None \<Rightarrow> ufault ''va_arg''
      | Some (x, ap') \<Rightarrow> ubind (printint S fd (ucast x) b sg) (\<lambda>_. uret ap'))"
| "put_conv S fd DPtr ap =
     (case arg_long ap of None \<Rightarrow> ufault ''va_arg''
      | Some (x, ap') \<Rightarrow> ubind (printptr S fd x) (\<lambda>_. uret ap'))"
| "put_conv S fd DStr ap =
     (case arg_str ap of None \<Rightarrow> ufault ''va_arg''
      | Some (str, ap') \<Rightarrow>
          ubind (umem (strlen str)) (\<lambda>n.
          ubind (ueach (take n str) (putc S fd)) (\<lambda>_.
          uret ap')))"
| "put_conv S fd DPercent ap = ubind (putc S fd (of_char CHR ''%'')) (\<lambda>_. uret ap)"
| "put_conv S fd (DUnknown c) ap =
     ubind (putc S fd (of_char CHR ''%'')) (\<lambda>_.
     ubind (putc S fd c) (\<lambda>_.
     uret ap))"

text \<open>The loop of \<open>vprintf\<close>; the flag is \<open>state == '%'\<close>.\<close>

function vprintf_loop :: "'w sys \<Rightarrow> int \<Rightarrow> bool \<Rightarrow> byte list \<Rightarrow> uarg list \<Rightarrow> ('w, unit) prog" where
  "vprintf_loop S fd st [] ap = uret ()"
| "vprintf_loop S fd False (c0 # fmt) ap =
     (if c0 = of_char CHR ''%'' then vprintf_loop S fd True fmt ap
      else ubind (putc S fd c0) (\<lambda>_. vprintf_loop S fd False fmt ap))"
| "vprintf_loop S fd True (c0 # fmt) ap =
     ubind (put_conv S fd (fst (conv_of c0 fmt)) ap) (\<lambda>ap'.
     vprintf_loop S fd False (drop (snd (conv_of c0 fmt)) fmt) ap')"
  by pat_completeness auto
termination by (relation "measure (\<lambda>(_, _, _, fmt, _). length fmt)") auto

definition vprintf :: "'w sys \<Rightarrow> int \<Rightarrow> byte list \<Rightarrow> uarg list \<Rightarrow> ('w, unit) prog" where
  "vprintf S fd fmt ap = vprintf_loop S fd False fmt ap"

definition fprintf :: "'w sys \<Rightarrow> int \<Rightarrow> byte list \<Rightarrow> uarg list \<Rightarrow> ('w, unit) prog" where
  "fprintf S fd fmt ap = vprintf S fd fmt ap"

definition printf :: "'w sys \<Rightarrow> byte list \<Rightarrow> uarg list \<Rightarrow> ('w, unit) prog" where
  "printf S fmt ap = vprintf S 1 fmt ap"

section \<open>What is printed\<close>

text \<open>A descriptor whose writes append to an output and always succeed.\<close>

definition appends :: "'w sys \<Rightarrow> int \<Rightarrow> ('w \<Rightarrow> byte list) \<Rightarrow> bool" where
  "appends S fd out \<longleftrightarrow> (\<forall>bs w. \<exists>w'. u_write S fd bs w = (int (length bs), w') \<and> out w' = out w @ bs)"

lemma putc_appends:
  assumes "appends S fd out"
  shows "\<exists>w'. putc S fd c w = Some (Done () w') \<and> out w' = out w @ [c]"
proof -
  obtain w' where "u_write S fd [c] w = (int (length [c]), w')" "out w' = out w @ [c]"
    using assms unfolding appends_def by blast
  then show ?thesis by (simp add: putc_def)
qed

lemma puts_appends: "appends S fd out \<Longrightarrow> \<exists>w'. ueach cs (putc S fd) w = Some (Done () w') \<and> out w' = out w @ cs"
proof (induction cs arbitrary: w)
  case (Cons c cs)
  obtain w1 where w1: "putc S fd c w = Some (Done () w1)" "out w1 = out w @ [c]" using putc_appends[OF Cons.prems] by blast
  then show ?case using Cons.IH[OF Cons.prems, of w1] by auto
qed simp

end
