(* ===== verification/Grep.thy ===== *)
theory Grep
  imports Ulib Uprintf
begin

text \<open>
  \<open>grep.c\<close>: the matcher for patterns with \<open>^\<close>, \<open>.\<close>, \<open>*\<close> and \<open>$\<close>, and the program around it. Pattern and
  text are the bytes of their strings, without the terminator. The matcher is proved equal to the
  language a pattern denotes, and the program to the filter of the lines of its input, whatever the
  sizes in which \<open>read\<close> delivers it.
\<close>

section \<open>The matcher\<close>

function (sequential) matchhere :: "byte list \<Rightarrow> byte list \<Rightarrow> bool"
  and matchstar :: "byte \<Rightarrow> byte list \<Rightarrow> byte list \<Rightarrow> bool" where
  "matchhere [] tx = True"
| "matchhere (c # re) tx =
     (if re \<noteq> [] \<and> hd re = of_char CHR ''*'' then matchstar c (tl re) tx
      else if c = of_char CHR ''$'' \<and> re = [] then tx = []
      else case tx of [] \<Rightarrow> False | t # ts \<Rightarrow> (c = of_char CHR ''.'' \<or> c = t) \<and> matchhere re ts)"
| "matchstar c re tx =
     (matchhere re tx \<or> (case tx of [] \<Rightarrow> False | t # ts \<Rightarrow> (t = c \<or> c = of_char CHR ''.'') \<and> matchstar c re ts))"
  by pat_completeness auto
termination
  by (relation "measures [\<lambda>x. case x of Inl (re, _) \<Rightarrow> 2 * length re | Inr (_, re, _) \<Rightarrow> 2 * length re + 1,
        \<lambda>x. case x of Inl (_, tx) \<Rightarrow> length tx | Inr (_, _, tx) \<Rightarrow> length tx]") auto

fun match_from :: "byte list \<Rightarrow> byte list \<Rightarrow> bool" where
  "match_from re [] = matchhere re []"
| "match_from re (t # ts) = (matchhere re (t # ts) \<or> match_from re ts)"

definition match :: "byte list \<Rightarrow> byte list \<Rightarrow> bool" where
  "match re tx = (if re \<noteq> [] \<and> hd re = of_char CHR ''^'' then matchhere (tl re) tx else match_from re tx)"

section \<open>The program\<close>

lemma strchr_lt: "strchr (p @ [0]) c = Some (Some i) \<Longrightarrow> i < length p"
proof (induction p arbitrary: i)
  case (Cons x p)
  then show ?case by (cases i) (auto split: if_splits)
qed (simp split: if_splits)

text \<open>The inner loop over the complete lines at \<open>p\<close>; it returns the bytes after the last of them.\<close>

function grep_lines :: "'w sys \<Rightarrow> byte list \<Rightarrow> byte list \<Rightarrow> ('w, byte list) prog" where
  "grep_lines S pat p =
     (case strchr (p @ [0]) 10 of
        Some (Some i) \<Rightarrow>
          ubind (if match pat (take i p) then usys (u_write S 1 (take (i + 1) p)) else uret 0) (\<lambda>_.
          grep_lines S pat (drop (i + 1) p))
      | _ \<Rightarrow> uret p)"
  by pat_completeness auto

termination by (relation "measure (\<lambda>(_, _, p). length p)") (auto dest: strchr_lt)

declare grep_lines.simps [simp del]

text \<open>The loop of \<open>grep\<close>; \<open>pend\<close> is \<open>buf[0..m)\<close>.\<close>

partial_function (option) grep_loop :: "'w sys \<Rightarrow> byte list \<Rightarrow> int \<Rightarrow> byte list \<Rightarrow> 'w \<Rightarrow> ('w, unit) ures option" where
  "grep_loop S pat fd pend w =
     ubind (usys (u_read S fd (1024 - length pend - 1))) (\<lambda>r.
     if fst r > 0 then
       ubind (grep_lines S pat (pend @ snd r)) (\<lambda>rest. grep_loop S pat fd rest)
     else uret ()) w"

definition grep :: "'w sys \<Rightarrow> byte list \<Rightarrow> int \<Rightarrow> ('w, unit) prog" where
  "grep S pat fd = grep_loop S pat fd []"

definition grep_file :: "'w sys \<Rightarrow> byte list \<Rightarrow> byte list \<Rightarrow> ('w, unit) prog" where
  "grep_file S pat name =
     ubind (usys (u_open S (name @ [0]) O_RDONLY)) (\<lambda>fd.
     if fd < 0 then
       ubind (printf S (bytes_of ''grep: cannot open %s\<newline>'') [UStr (Some (name @ [0]))]) (\<lambda>_. uexit 1)
     else
     ubind (grep S pat fd) (\<lambda>_.
     ubind (usys (u_close S fd)) (\<lambda>_.
     uret ())))"

definition main :: "'w sys \<Rightarrow> byte list list \<Rightarrow> ('w, unit) prog" where
  "main S argv =
     (if length argv \<le> 1 then
        ubind (fprintf S 2 (bytes_of ''usage: grep pattern [file ...]\<newline>'') []) (\<lambda>_. uexit 1)
      else if length argv \<le> 2 then
        ubind (grep S (argv ! 1) 0) (\<lambda>_. uexit 0)
      else
        ubind (ueach (drop 2 argv) (grep_file S (argv ! 1))) (\<lambda>_. uexit 0))"

section \<open>The language of a pattern\<close>

text \<open>A pattern read as a sequence of items: one character, or any number of them; the flag says that a
  final \<open>$\<close> ties the match to the end of the text.\<close>

datatype item = One byte | Star byte

fun items :: "byte list \<Rightarrow> item list \<times> bool" where
  "items [] = ([], False)"
| "items (c # re) =
     (if re \<noteq> [] \<and> hd re = of_char CHR ''*'' then let (is, e) = items (tl re) in (Star c # is, e)
      else if c = of_char CHR ''$'' \<and> re = [] then ([], True)
      else let (is, e) = items re in (One c # is, e))"

definition fits_char :: "byte \<Rightarrow> byte \<Rightarrow> bool" where
  "fits_char c t \<longleftrightarrow> c = of_char CHR ''.'' \<or> c = t"

fun lang :: "item list \<Rightarrow> byte list set" where
  "lang [] = {[]}"
| "lang (One c # is) = {t # w |t w. fits_char c t \<and> w \<in> lang is}"
| "lang (Star c # is) = {u @ w |u w. (\<forall>t \<in> set u. fits_char c t) \<and> w \<in> lang is}"

text \<open>The pattern matches at the beginning of the text.\<close>

definition matches_at :: "byte list \<Rightarrow> byte list \<Rightarrow> bool" where
  "matches_at re tx \<longleftrightarrow> (\<exists>u v. tx = u @ v \<and> u \<in> lang (fst (items re)) \<and> (snd (items re) \<longrightarrow> v = []))"

lemma lang_Star_unfold: "lang (Star c # is) = lang is \<union> {t # w |t w. fits_char c t \<and> w \<in> lang (Star c # is)}"
proof -
  have "u @ w \<in> lang is \<union> {t # w |t w. fits_char c t \<and> w \<in> lang (Star c # is)}"
    if "\<forall>t \<in> set u. fits_char c t" "w \<in> lang is" for u w
    using that by (cases u) fastforce+
  moreover have "t # w \<in> lang (Star c # is)" if w: "fits_char c t" "w \<in> lang (Star c # is)" for t w
  proof -
    obtain u v where "w = u @ v" "\<forall>t \<in> set u. fits_char c t" "v \<in> lang is" using w(2) by auto
    then have "t # w = (t # u) @ v \<and> (\<forall>x \<in> set (t # u). fits_char c x) \<and> v \<in> lang is" using w(1) by simp
    then show ?thesis unfolding lang.simps by blast
  qed
  moreover have "w \<in> lang (Star c # is)" if "w \<in> lang is" for w
    using that append_Nil[of w] unfolding lang.simps by force
  ultimately show ?thesis unfolding lang.simps(3) by blast
qed

lemma matchhere_items:
  "matchhere re tx \<longleftrightarrow> matches_at re tx"
  "matchstar c re tx \<longleftrightarrow> (\<exists>u v. tx = u @ v \<and> u \<in> lang (Star c # fst (items re)) \<and> (snd (items re) \<longrightarrow> v = []))"
proof (induction re tx and c re tx rule: matchhere_matchstar.induct)
  case (1 tx)
  show ?case by (simp add: matches_at_def)
next
  case (2 c re tx)
  show ?case
  proof (cases "re \<noteq> [] \<and> hd re = of_char CHR ''*''")
    case True
    then show ?thesis using 2(1) by (simp add: matches_at_def split_beta del: lang.simps)
  next
    case False
    show ?thesis
    proof (cases "c = of_char CHR ''$'' \<and> re = []")
      case True
      then show ?thesis by (simp add: matches_at_def)
    next
      case End: False
      then show ?thesis using False 2(2)[OF False End]
        by (cases tx) (auto simp: matches_at_def split_beta fits_char_def Cons_eq_append_conv)
    qed
  qed
next
  case (3 c re tx)
  let ?E = "snd (items re)" let ?L = "lang (Star c # fst (items re))"
  have "(\<exists>u v. tx = u @ v \<and> u \<in> ?L \<and> (?E \<longrightarrow> v = [])) \<longleftrightarrow> matches_at re tx \<or>
      (\<exists>t ts. tx = t # ts \<and> fits_char c t \<and> (\<exists>u v. ts = u @ v \<and> u \<in> ?L \<and> (?E \<longrightarrow> v = [])))"
    (is "?l \<longleftrightarrow> ?r")
  proof
    assume ?l
    then obtain u v where u: "tx = u @ v" "u \<in> ?L" "?E \<longrightarrow> v = []" by blast
    then consider "u \<in> lang (fst (items re))" | t u' where "u = t # u'" "fits_char c t" "u' \<in> ?L"
      using lang_Star_unfold[of c "fst (items re)"] by blast
    then show ?r using u(1,3) by cases (auto simp: matches_at_def simp del: lang.simps)
  next
    assume ?r
    then consider u v where "tx = u @ v" "u \<in> lang (fst (items re))" "?E \<longrightarrow> v = []"
      | t u v where "tx = (t # u) @ v" "fits_char c t" "u \<in> ?L" "?E \<longrightarrow> v = []"
      unfolding matches_at_def by (metis append_Cons)
    then show ?l
    proof cases
      case (2 t u v)
      then have "t # u \<in> ?L" using lang_Star_unfold[of c "fst (items re)"] by blast
      then show ?thesis using 2 by blast
    qed (use lang_Star_unfold[of c "fst (items re)"] in blast)
  qed
  then show ?case using 3 by (cases tx) (auto simp: fits_char_def simp del: lang.simps)
qed

lemma match_from_suffix: "match_from re tx \<longleftrightarrow> (\<exists>u v. tx = u @ v \<and> matchhere re v)"
  by (induction tx) (auto simp: Cons_eq_append_conv)

text \<open>
  C17: the matcher of \<open>grep\<close> accepts exactly the language of its pattern: \<open>match(re, text)\<close> is true when
  some substring of the text, its beginning if the pattern starts with \<open>^\<close> and its end if it ends in
  \<open>$\<close>, is a sequence of the pattern's items, where \<open>.\<close> stands for any character and \<open>c*\<close> for any number
  of characters that \<open>c\<close> fits.
\<close>

theorem match_language:
  "match re tx \<longleftrightarrow>
    (if re \<noteq> [] \<and> hd re = of_char CHR ''^'' then matches_at (tl re) tx
     else \<exists>u v. tx = u @ v \<and> matches_at re v)"
  by (auto simp: match_def match_from_suffix matchhere_items(1))

section \<open>The program filters lines\<close>

definition grep_output :: "byte list \<Rightarrow> byte list list \<Rightarrow> byte list" where
  "grep_output pat ls = concat (map (\<lambda>l. l @ [10]) (filter (match pat) ls))"

lemma grep_lines_filter:
  assumes io: "stdio S fd 1 inp out"
  shows "0 \<notin> set p \<Longrightarrow> \<exists>w'. grep_lines S pat p w = Some (Done (snd (text_lines p)) w') \<and> inp w' = inp w \<and>
    out w' = out w @ grep_output pat (fst (text_lines p))"
proof (induction "length p" arbitrary: p w rule: less_induct)
  case less
  show ?case
  proof (cases p rule: split_line)
    case rest
    then have "strchr (p @ [0]) 10 = Some None" using strchr_find[OF less.prems, of "[]" 10] by simp
    then show ?thesis using rest by (subst grep_lines.simps) (simp add: text_lines_rest grep_output_def)
  next
    case (line l ds)
    have z: "0 \<notin> set ds" using less.prems line by simp
    have t: "takeWhile (\<lambda>x. x \<noteq> 10) p = l" using line by (auto simp: takeWhile_tail takeWhile_eq_all_conv)
    have s: "strchr (p @ [0]) 10 = Some (Some (length l))" using strchr_find[OF less.prems, of "[]" 10] t line by simp
    have k: "take (length l) p = l" "take (length l + 1) p = l @ [10]" "drop (length l + 1) p = ds" using line by simp_all
    obtain w1 where w1: "(if match pat l then usys (u_write S 1 (l @ [10])) else uret 0) w = Some (Done (if match pat l then int (length l + 1) else 0) w1)"
        "inp w1 = inp w" "out w1 = out w @ (if match pat l then l @ [10] else [])"
      using stdio_write[OF io, of "l @ [10]" w] by (cases "match pat l") auto
    have "length ds < length p" using line by simp
    then obtain w2 where "grep_lines S pat ds w1 = Some (Done (snd (text_lines ds)) w2)" "inp w2 = inp w1"
        "out w2 = out w1 @ grep_output pat (fst (text_lines ds))" using less.hyps z by blast
    then show ?thesis using w1 line(2) unfolding grep_lines.simps[of S pat p] s option.case k
      by (simp add: text_lines_line[of l ds] line(1) grep_output_def)
  qed
qed

text \<open>Lines that fit the buffer, the unterminated last one included.\<close>

definition short_lines :: "byte list \<Rightarrow> bool" where
  "short_lines cs \<longleftrightarrow> (\<forall>l \<in> set (fst (text_lines cs)) \<union> {snd (text_lines cs)}. length l \<le> 1022)"

lemma short_lines_append:
  assumes "short_lines (xs @ ys)"
  shows "short_lines (snd (text_lines xs) @ ys)"
  using assms unfolding short_lines_def text_lines_append[of xs] by auto

lemma pending_short: "10 \<notin> set p \<Longrightarrow> short_lines (p @ cs) \<Longrightarrow> length p \<le> 1022"
proof (cases cs rule: split_line)
  case rest
  assume "10 \<notin> set p" "short_lines (p @ cs)"
  then show ?thesis using rest by (simp add: short_lines_def text_lines_rest)
next
  case (line l ds)
  assume "10 \<notin> set p" "short_lines (p @ cs)"
  then show ?thesis using line text_lines_line[of "p @ l" ds] by (simp add: short_lines_def)
qed

lemma grep_loop_filter:
  assumes io: "stdio S fd 1 inp out"
  shows "0 \<notin> set (p @ inp w) \<Longrightarrow> 10 \<notin> set p \<Longrightarrow> short_lines (p @ inp w) \<Longrightarrow>
    \<exists>w'. grep_loop S pat fd p w = Some (Done () w') \<and> out w' = out w @ grep_output pat (fst (text_lines (p @ inp w)))"
proof (induction "length (inp w)" arbitrary: p w rule: less_induct)
  case less
  let ?k = "1024 - length p - 1"
  have "0 < ?k" using pending_short[OF less.prems(2,3)] by simp
  show ?case
  proof (cases "inp w = []")
    case True
    then obtain w' where "u_read S fd ?k w = ((0, []), w')" "out w' = out w" using stdio_eof[OF io] by blast
    then show ?thesis using True less.prems(2) by (subst grep_loop.simps) (simp add: text_lines_rest grep_output_def)
  next
    case False
    obtain n w1 where r: "u_read S fd ?k w = ((int n, take n (inp w)), w1)" "0 < n" "n \<le> length (inp w)"
        "inp w1 = drop n (inp w)" "out w1 = out w"
      using stdio_read[OF io False \<open>0 < ?k\<close>] by blast
    let ?q = "p @ take n (inp w)" let ?r = "snd (text_lines ?q)"
    have e: "?q @ inp w1 = p @ inp w" using r(4) by simp
    have "0 \<notin> set ?q" using less.prems(1) by (auto dest: in_set_takeD)
    then obtain w2 where g: "grep_lines S pat ?q w1 = Some (Done ?r w2)" "inp w2 = inp w1"
        "out w2 = out w1 @ grep_output pat (fst (text_lines ?q))"
      using grep_lines_filter[OF io] by blast
    have "set ?r \<subseteq> set ?q" by (rule text_lines_sub)
    then have "0 \<notin> set (?r @ inp w2)" using less.prems(1) e g(2) by (auto simp flip: e)
    moreover have "short_lines (?r @ inp w2)" using short_lines_append[of ?q "inp w1"] less.prems(3) e g(2) by simp
    moreover have "length (inp w2) < length (inp w)" using r(2-4) g(2) False by simp
    ultimately obtain w3 where "grep_loop S pat fd ?r w2 = Some (Done () w3)"
        "out w3 = out w2 @ grep_output pat (fst (text_lines (?r @ inp w2)))"
      using less.hyps[of w2 ?r] text_lines_none by blast
    then show ?thesis using r(1,2,5) g text_lines_append[of ?q "inp w1"] e
      by (subst grep_loop.simps) (simp add: grep_output_def)
  qed
qed



end
