(* ===== verification/Texttools.thy ===== *)
theory Texttools
  imports Uprintf "HOL-Library.Multiset"
begin

text \<open>
  The text tools \<open>cat\<close>, \<open>wc\<close>, \<open>echo\<close>, \<open>head\<close>, \<open>tail\<close> and \<open>sort\<close>. A command line is the list of its
  arguments, each the bytes of a string without the terminator. The two-dimensional array \<open>content\<close> of
  \<open>head\<close>, \<open>tail\<close> and \<open>sort\<close> is the list of the rows filled so far, each with the bytes before \<open>j\<close>.
\<close>

section \<open>cat\<close>

partial_function (option) cat :: "'w sys \<Rightarrow> int \<Rightarrow> 'w \<Rightarrow> ('w, unit) ures option" where
  "cat S fd w =
     ubind (usys (u_read S fd 512)) (\<lambda>r.
     if fst r > 0 then
       ubind (usys (u_write S 1 (snd r))) (\<lambda>n.
       if n \<noteq> fst r then ubind (fprintf S 2 (bytes_of ''cat: write error\<newline>'') []) (\<lambda>_. uexit 1)
       else cat S fd)
     else if fst r < 0 then ubind (fprintf S 2 (bytes_of ''cat: read error\<newline>'') []) (\<lambda>_. uexit 1)
     else uret ()) w"

definition cat_file :: "'w sys \<Rightarrow> byte list \<Rightarrow> ('w, unit) prog" where
  "cat_file S name =
     ubind (usys (u_open S (name @ [0]) O_RDONLY)) (\<lambda>fd.
     if fd < 0 then
       ubind (fprintf S 2 (bytes_of ''cat: cannot open %s\<newline>'') [UStr (Some (name @ [0]))]) (\<lambda>_. uexit 1)
     else
     ubind (cat S fd) (\<lambda>_.
     ubind (usys (u_close S fd)) (\<lambda>_.
     uret ())))"

definition cat_main :: "'w sys \<Rightarrow> byte list list \<Rightarrow> ('w, unit) prog" where
  "cat_main S argv =
     (if length argv \<le> 1 then ubind (cat S 0) (\<lambda>_. uexit 0)
      else ubind (ueach (drop 1 argv) (cat_file S)) (\<lambda>_. uexit 0))"

section \<open>wc\<close>

record counts =
  wc_l :: u32
  wc_w :: u32
  wc_c :: u32
  wc_inword :: bool

definition is_blank :: "byte \<Rightarrow> bool" where
  "is_blank c \<longleftrightarrow> strchr (bytes_of '' '' @ [13, 9, 10, 11, 0]) c \<noteq> Some None"

definition wc_byte :: "counts \<Rightarrow> byte \<Rightarrow> counts" where
  "wc_byte k c =
     (let k = k\<lparr>wc_c := wc_c k + 1\<rparr>;
          k = (if c = 10 then k\<lparr>wc_l := wc_l k + 1\<rparr> else k)
      in if is_blank c then k\<lparr>wc_inword := False\<rparr>
         else if \<not> wc_inword k then k\<lparr>wc_w := wc_w k + 1, wc_inword := True\<rparr> else k)"

partial_function (option) wc_loop :: "'w sys \<Rightarrow> int \<Rightarrow> counts \<Rightarrow> 'w \<Rightarrow> ('w, int \<times> counts) ures option" where
  "wc_loop S fd k w =
     ubind (usys (u_read S fd 512)) (\<lambda>r.
     if fst r > 0 then wc_loop S fd (foldl wc_byte k (snd r))
     else uret (fst r, k)) w"

definition wc :: "'w sys \<Rightarrow> int \<Rightarrow> byte list \<Rightarrow> ('w, unit) prog" where
  "wc S fd name =
     ubind (wc_loop S fd \<lparr>wc_l = 0, wc_w = 0, wc_c = 0, wc_inword = False\<rparr>) (\<lambda>r.
     case r of (n, k) \<Rightarrow>
     if n < 0 then ubind (printf S (bytes_of ''wc: read error\<newline>'') []) (\<lambda>_. uexit 1)
     else printf S (bytes_of ''%d %d %d %s\<newline>'') [UInt (wc_l k), UInt (wc_w k), UInt (wc_c k), UStr (Some (name @ [0]))])"

definition wc_file :: "'w sys \<Rightarrow> byte list \<Rightarrow> ('w, unit) prog" where
  "wc_file S name =
     ubind (usys (u_open S (name @ [0]) O_RDONLY)) (\<lambda>fd.
     if fd < 0 then
       ubind (printf S (bytes_of ''wc: cannot open %s\<newline>'') [UStr (Some (name @ [0]))]) (\<lambda>_. uexit 1)
     else
     ubind (wc S fd name) (\<lambda>_.
     ubind (usys (u_close S fd)) (\<lambda>_.
     uret ())))"

definition wc_main :: "'w sys \<Rightarrow> byte list list \<Rightarrow> ('w, unit) prog" where
  "wc_main S argv =
     (if length argv \<le> 1 then ubind (wc S 0 []) (\<lambda>_. uexit 0)
      else ubind (ueach (drop 1 argv) (wc_file S)) (\<lambda>_. uexit 0))"

section \<open>echo\<close>

text \<open>One argument, quotes around it removed. A lone quote is cut to the empty string and then read past
  its terminator, outside the object.\<close>

definition echo_arg :: "'w sys \<Rightarrow> byte list \<Rightarrow> ('w, unit) prog" where
  "echo_arg S a =
     (if a \<noteq> [] \<and> hd a = of_char CHR 0x22 \<and> last a = of_char CHR 0x22
      then (if length a = 1 then ufault ''echo: argv[i] + 1''
            else printf S (bytes_of ''%s'') [UStr (Some (tl (butlast a) @ [0]))])
      else printf S (bytes_of ''%s'') [UStr (Some (a @ [0]))])"

definition echo_main :: "'w sys \<Rightarrow> byte list list \<Rightarrow> ('w, unit) prog" where
  "echo_main S argv =
     (if length argv < 2 then ubind (printf S [10] []) (\<lambda>_. uexit 0)
      else
        ubind (ueach [1..<length argv] (\<lambda>i.
          ubind (echo_arg S (argv ! i)) (\<lambda>_.
          if i < length argv - 1 then printf S (bytes_of '' '') [] else uret ()))) (\<lambda>_.
        ubind (printf S [10] []) (\<lambda>_.
        uexit 0)))"

section \<open>Reading lines\<close>

definition MAXLINES :: nat where "MAXLINES = 1000"
definition MAXLEN :: nat where "MAXLEN = 100"

text \<open>The loop shared by \<open>head\<close>, \<open>tail\<close> and \<open>sort\<close>: the rows that are complete and the row \<open>i\<close> with its \<open>j\<close>
  bytes. Leaving it by \<open>break\<close> keeps \<open>j\<close>.\<close>

partial_function (option) read_loop :: "'w sys \<Rightarrow> int \<Rightarrow> byte list list \<Rightarrow> byte list \<Rightarrow> 'w \<Rightarrow> ('w, byte list list \<times> byte list) ures option" where
  "read_loop S fd rows cur w =
     ubind (usys (u_read S fd 1)) (\<lambda>r.
     if fst r = 1 then
       if hd (snd r) = 10 then
         if length rows + 1 \<ge> MAXLINES then uret (rows @ [cur], cur)
         else read_loop S fd (rows @ [cur]) []
       else read_loop S fd rows (if length cur < MAXLEN - 1 then cur @ [hd (snd r)] else cur)
     else uret (rows, cur)) w"

definition readlines :: "'w sys \<Rightarrow> int \<Rightarrow> ('w, byte list list) prog" where
  "readlines S fd =
     ubind (read_loop S fd [] []) (\<lambda>r.
     case r of (rows, cur) \<Rightarrow>
     if cur \<noteq> [] then
       if length rows \<ge> MAXLINES then ufault ''content[i][j]'' else uret (rows @ [cur])
     else uret rows)"

definition print_line :: "'w sys \<Rightarrow> byte list \<Rightarrow> ('w, unit) prog" where
  "print_line S l = printf S (bytes_of ''%s\<newline>'') [UStr (Some (l @ [0]))]"

section \<open>head and tail\<close>

definition printhead :: "'w sys \<Rightarrow> int \<Rightarrow> byte list list \<Rightarrow> ('w, unit) prog" where
  "printhead S n content =
     (let limit = (if n < int (length content) then n else int (length content))
      in ueach (take (nat limit) content) (print_line S))"

definition printtail :: "'w sys \<Rightarrow> int \<Rightarrow> byte list list \<Rightarrow> ('w, unit) prog" where
  "printtail S n content =
     (let start = (if n > int (length content) then 0 else int (length content) - n)
      in if start > int (length content) then uret ()
         else ueach (drop (nat start) content) (print_line S))"

text \<open>The two programs differ in their name and in what they print.\<close>

definition lines_main :: "'w sys \<Rightarrow> string \<Rightarrow> (int \<Rightarrow> byte list list \<Rightarrow> ('w, unit) prog) \<Rightarrow> byte list list \<Rightarrow> ('w, unit) prog" where
  "lines_main S name put argv =
     (if length argv < 2 then
        ubind (fprintf S 2 (bytes_of (''Usage: '' @ name @ '' [-n] file\<newline>'')) []) (\<lambda>_. uexit 1)
      else
        let dash = argv ! 1 \<noteq> [] \<and> hd (argv ! 1) = of_char CHR ''-''
        in ubind (if dash then umem (atoi (tl (argv ! 1) @ [0])) else uret 10) (\<lambda>n.
           if dash \<and> length argv < 3 then
             ubind (fprintf S 2 (bytes_of (name @ '': missing file operand\<newline>'')) []) (\<lambda>_. uexit 1)
           else
           ubind (usys (u_open S (argv ! (if dash then 2 else 1) @ [0]) O_RDONLY)) (\<lambda>fd.
           if fd < 0 then
             ubind (fprintf S 2 (bytes_of (name @ '': cannot open %s\<newline>'')) [UStr (Some (argv ! 1 @ [0]))]) (\<lambda>_. uexit 1)
           else
           ubind (readlines S fd) (\<lambda>content.
           ubind (put n content) (\<lambda>_.
           ubind (usys (u_close S fd)) (\<lambda>_.
           uexit 0))))))"

definition head_main :: "'w sys \<Rightarrow> byte list list \<Rightarrow> ('w, unit) prog" where
  "head_main S argv = lines_main S ''head'' (printhead S) argv"

definition tail_main :: "'w sys \<Rightarrow> byte list list \<Rightarrow> ('w, unit) prog" where
  "tail_main S argv = lines_main S ''tail'' (printtail S) argv"

section \<open>sort\<close>

definition swap :: "int \<Rightarrow> int \<Rightarrow> 'a list \<Rightarrow> 'a list" where
  "swap i j xs = xs[nat i := xs ! nat j, nat j := xs ! nat i]"

definition line_less :: "byte list \<Rightarrow> byte list \<Rightarrow> bool" where
  "line_less p q = (case strcmp (p @ [0]) (q @ [0]) of Some d \<Rightarrow> d < 0 | None \<Rightarrow> False)"

text \<open>The loop of \<open>qsort\<close>, from \<open>i\<close> on.\<close>

function qsort_part :: "int \<Rightarrow> int \<Rightarrow> int \<Rightarrow> int \<Rightarrow> byte list list \<Rightarrow> int \<times> byte list list" where
  "qsort_part left right i lst xs =
     (if i \<le> right then
        if line_less (xs ! nat i) (xs ! nat left) then qsort_part left right (i + 1) (lst + 1) (swap (lst + 1) i xs)
        else qsort_part left right (i + 1) lst xs
      else (lst, xs))"
  by pat_completeness auto
termination by (relation "measure (\<lambda>(_, r, i, _). nat (r + 1 - i))") auto

declare qsort_part.simps [simp del]

lemma qsort_part_bounds:
  "left \<le> lst \<Longrightarrow> lst < i \<Longrightarrow> i \<le> right + 1 \<Longrightarrow> left \<le> fst (qsort_part left right i lst xs) \<and> fst (qsort_part left right i lst xs) \<le> right"
proof (induction left right i lst xs rule: qsort_part.induct)
  case (1 left right i lst xs)
  show ?case using 1 by (subst (1 2) qsort_part.simps) auto
qed

function qsort :: "int \<Rightarrow> int \<Rightarrow> byte list list \<Rightarrow> byte list list" where
  "qsort left right xs =
     (if left \<ge> right then xs else
      let p = qsort_part left right (left + 1) left (swap left ((left + right) div 2) xs);
          ys = swap left (fst p) (snd p)
      in qsort (fst p + 1) right (qsort left (fst p - 1) ys))"
  by pat_completeness auto
termination
proof (relation "measure (\<lambda>(l, r, _). nat (r - l))", simp)
  fix left right :: int and xs p ys
  assume h: "\<not> right \<le> left" "p = qsort_part left right (left + 1) left (swap left ((left + right) div 2) xs)"
  then have "left \<le> fst p \<and> fst p \<le> right" using qsort_part_bounds[of left left "left + 1" right] by simp
  then show "((left, fst p - 1, ys), left, right, xs) \<in> measure (\<lambda>(l, r, _). nat (r - l))"
    and "((fst p + 1, right, zs), left, right, xs) \<in> measure (\<lambda>(l, r, _). nat (r - l))" for zs
    using h(1) by auto
qed

declare qsort.simps [simp del]

definition sort_main :: "'w sys \<Rightarrow> byte list list \<Rightarrow> ('w, unit) prog" where
  "sort_main S argv =
     ubind (if length argv > 1 then usys (u_open S (argv ! 1 @ [0]) O_RDONLY) else uret 0) (\<lambda>fd.
     if fd < 0 then
       ubind (fprintf S 2 (bytes_of ''sort: cannot open %s\<newline>'') [UStr (Some (argv ! 1 @ [0]))]) (\<lambda>_. uexit 1)
     else
     ubind (readlines S fd) (\<lambda>content.
     ubind (ueach (qsort 0 (int (length content) - 1) content) (print_line S)) (\<lambda>_.
     ubind (usys (u_close S fd)) (\<lambda>_.
     uexit 0))))"

section \<open>sort sorts\<close>

text \<open>The order by the bytes before the first zero byte, which is what \<open>strcmp\<close> compares.\<close>

definition line_key :: "byte list \<Rightarrow> byte list" where
  "line_key l = takeWhile (\<lambda>c. c \<noteq> 0) l"

lemma line_less_key: "line_less p q = str_less (line_key p) (line_key q)"
proof -
  have e: "\<exists>r. l @ [0] = line_key l @ 0 # r" for l :: "byte list"
    by (induction l) (auto simp: line_key_def)
  have z: "0 \<notin> set (line_key l)" for l by (auto simp: line_key_def dest: set_takeWhileD)
  obtain r r' where "p @ [0] = line_key p @ 0 # r" "q @ [0] = line_key q @ 0 # r'" using e by metis
  then show ?thesis using strcmp_less[OF z z, of p r q r'] by (auto simp: line_less_def)
qed

definition line_le :: "byte list \<Rightarrow> byte list \<Rightarrow> bool" where
  "line_le p q \<longleftrightarrow> \<not> line_less q p"

lemma line_le_trans: "line_le p q \<Longrightarrow> line_le q r \<Longrightarrow> line_le p r"
  unfolding line_le_def line_less_key using str_less_linear str_less_trans by metis

lemma line_less_le: "line_less p q \<Longrightarrow> line_le p q"
  unfolding line_le_def line_less_key using str_less_trans str_less_irrefl by blast

text \<open>A rearrangement of the entries from \<open>l\<close> to \<open>r\<close>.\<close>

definition permutes_range :: "int \<Rightarrow> int \<Rightarrow> 'a list \<Rightarrow> 'a list \<Rightarrow> bool" where
  "permutes_range l r xs ys \<longleftrightarrow> length ys = length xs \<and> mset ys = mset xs \<and>
     (\<forall>k < length xs. int k < l \<or> r < int k \<longrightarrow> ys ! k = xs ! k)"

lemma permutes_range_refl [simp]: "permutes_range l r xs xs"
  by (simp add: permutes_range_def)

lemma permutes_range_trans: "permutes_range l r xs ys \<Longrightarrow> permutes_range l r ys zs \<Longrightarrow> permutes_range l r xs zs"
  by (auto simp: permutes_range_def)

lemma permutes_range_mono: "permutes_range l r xs ys \<Longrightarrow> l' \<le> l \<Longrightarrow> r \<le> r' \<Longrightarrow> permutes_range l' r' xs ys"
  by (auto simp: permutes_range_def)

lemma swap_permutes:
  assumes "l \<le> i" "i \<le> r" "l \<le> j" "j \<le> r" "0 \<le> l" "r < int (length xs)"
  shows "permutes_range l r xs (swap i j xs)"
proof -
  have "mset (xs[nat i := xs ! nat j, nat j := xs ! nat i]) = mset xs"
    using assms by (intro mset_swap) auto
  then show ?thesis using assms by (auto simp: permutes_range_def swap_def nth_list_update)
qed

lemma nth_swap: "0 \<le> i \<Longrightarrow> 0 \<le> j \<Longrightarrow> i < int (length xs) \<Longrightarrow> j < int (length xs) \<Longrightarrow> k < length xs \<Longrightarrow>
  swap i j xs ! k = (if int k = j then xs ! nat i else if int k = i then xs ! nat j else xs ! k)"
  by (auto simp: swap_def nth_list_update)

text \<open>The entries of a range that is rearranged stay in the range.\<close>

lemma permutes_range_elem:
  assumes "permutes_range l r xs ys" "0 \<le> l" "r < int (length xs)" "l \<le> int k" "int k \<le> r"
  shows "\<exists>m. l \<le> int m \<and> int m \<le> r \<and> ys ! k = xs ! m"
proof -
  let ?a = "nat l" and ?n = "nat (r + 1) - nat l"
  have len: "length ys = length xs" and ms: "mset ys = mset xs" using assms(1) by (simp_all add: permutes_range_def)
  have "take ?a ys = take ?a xs" "drop (nat (r + 1)) ys = drop (nat (r + 1)) xs"
    using assms(1,2) len by (auto simp: permutes_range_def intro!: nth_equalityI)
  moreover have sp: "zs = take ?a zs @ take ?n (drop ?a zs) @ drop (nat (r + 1)) zs" if "length zs = length xs" for zs :: "'a list"
    using assms(2-5) that append_take_drop_id[of ?a zs] append_take_drop_id[of ?n "drop ?a zs"] by simp
  ultimately have "mset (take ?n (drop ?a ys)) = mset (take ?n (drop ?a xs))"
    using ms sp[OF len] sp[OF refl] by (metis add_left_cancel add_right_cancel mset_append)
  then have st: "set (take ?n (drop ?a ys)) = set (take ?n (drop ?a xs))" by (rule mset_eq_setD)
  have "ys ! k = take ?n (drop ?a ys) ! (k - ?a)" "k - ?a < length (take ?n (drop ?a ys))"
    using assms(2-5) len by auto
  then have "ys ! k \<in> set (take ?n (drop ?a xs))" using st nth_mem by metis
  then obtain i where "i < length (take ?n (drop ?a xs))" "ys ! k = take ?n (drop ?a xs) ! i" by (metis in_set_conv_nth)
  then show ?thesis using assms(2-5) by (intro exI[of _ "?a + i"]) auto
qed

definition split_at :: "int \<Rightarrow> int \<Rightarrow> int \<Rightarrow> byte list list \<Rightarrow> bool" where
  "split_at l m i xs \<longleftrightarrow> (\<forall>k. l < int k \<and> int k \<le> m \<longrightarrow> line_less (xs ! k) (xs ! nat l)) \<and>
     (\<forall>k. m < int k \<and> int k < i \<longrightarrow> \<not> line_less (xs ! k) (xs ! nat l))"

lemma split_at_step:
  assumes "split_at l m i xs" and "0 \<le> l" "l \<le> m" "m < i" "i < int (length xs)"
  shows "line_less (xs ! nat i) (xs ! nat l) \<Longrightarrow> split_at l (m + 1) (i + 1) (swap (m + 1) i xs)"
    and "\<not> line_less (xs ! nat i) (xs ! nat l) \<Longrightarrow> split_at l m (i + 1) xs"
proof -
  have n: "swap (m + 1) i xs ! k = (if int k = i then xs ! nat (m + 1) else if int k = m + 1 then xs ! nat i else xs ! k)" if "int k \<le> i" for k
    using that assms by (intro nth_swap) auto
  have p: "swap (m + 1) i xs ! nat l = xs ! nat l" using n[of "nat l"] assms by simp
  assume less: "line_less (xs ! nat i) (xs ! nat l)"
  have "line_less (swap (m + 1) i xs ! k) (xs ! nat l)" if k: "l < int k" "int k \<le> m + 1" for k
    using n[of k] k less assms by (cases "int k = m + 1") (auto simp: split_at_def)
  moreover have "\<not> line_less (swap (m + 1) i xs ! k) (xs ! nat l)" if k: "m + 1 < int k" "int k < i + 1" for k
  proof (cases "int k = i")
    case True
    then have "int (nat (m + 1)) = m + 1" "m + 1 < i" using assms k by auto
    then show ?thesis using n[of k] True assms(1) unfolding split_at_def by (metis zless_add1_eq order_refl)
  next
    case False
    then show ?thesis using n[of k] k assms(1) by (auto simp: split_at_def)
  qed
  ultimately show "split_at l (m + 1) (i + 1) (swap (m + 1) i xs)" unfolding split_at_def p by simp
next
  assume "\<not> line_less (xs ! nat i) (xs ! nat l)"
  then have "\<not> line_less (xs ! k) (xs ! nat l)" if "m < int k" "int k < i + 1" for k
    using that assms(1) by (cases "int k = i") (auto simp: split_at_def)
  then show "split_at l m (i + 1) xs" using assms(1) by (simp add: split_at_def)
qed

lemma qsort_part_splits:
  assumes "split_at l m i xs" and "0 \<le> l" "l \<le> m" "m < i" "i \<le> r + 1" "r < int (length xs)"
  shows "let p = qsort_part l r i m xs in permutes_range (l + 1) r xs (snd p) \<and> split_at l (fst p) (r + 1) (snd p)"
  using assms
proof (induction l r i m xs rule: qsort_part.induct)
  case (1 l r i m xs)
  show ?case
  proof (cases "i \<le> r")
    case False
    then have "i = r + 1" using 1(7) by simp
    then show ?thesis using 1(3) by (subst qsort_part.simps) (simp add: Let_def)
  next
    case True
    have b: "i < int (length xs)" using True 1(8) by simp
    note step = split_at_step[OF 1(3-6) b]
    have sw: "permutes_range (l + 1) r xs (swap (m + 1) i xs)" using True 1(4-8) by (intro swap_permutes) auto
    then have "length (swap (m + 1) i xs) = length xs" by (simp add: permutes_range_def)
    then show ?thesis using 1 True step sw
      by (subst qsort_part.simps) (auto simp: Let_def intro: permutes_range_trans[OF sw])
  qed
qed

text \<open>What one partition leaves: the pivot in place, smaller lines before it and no smaller ones after it.\<close>

definition pivot_at :: "int \<Rightarrow> int \<Rightarrow> int \<Rightarrow> byte list list \<Rightarrow> bool" where
  "pivot_at l m r ys \<longleftrightarrow> l \<le> m \<and> m \<le> r \<and> (\<forall>k. l \<le> int k \<and> int k < m \<longrightarrow> line_le (ys ! k) (ys ! nat m)) \<and>
     (\<forall>k. m < int k \<and> int k \<le> r \<longrightarrow> line_le (ys ! nat m) (ys ! k))"

lemma partition_pivot:
  assumes "0 \<le> l" and "l < r" and "r < int (length xs)"
  defines "p \<equiv> qsort_part l r (l + 1) l (swap l ((l + r) div 2) xs)"
  shows "permutes_range l r xs (swap l (fst p) (snd p))" and "pivot_at l (fst p) r (swap l (fst p) (snd p))"
proof -
  let ?m = "fst p" let ?x = "swap l ((l + r) div 2) xs" let ?y = "snd p"
  have "l \<le> (l + r) div 2" "(l + r) div 2 \<le> r" using assms(2) by simp_all
  then have x: "permutes_range l r xs ?x" using assms(1-3) by (intro swap_permutes) auto
  then have lx: "length ?x = length xs" by (simp add: permutes_range_def)
  have m: "l \<le> ?m" "?m \<le> r" using qsort_part_bounds[of l l "l + 1" r] assms(2) by (simp_all add: p_def)
  have "split_at l l (l + 1) ?x" by (auto simp: split_at_def)
  then have y: "permutes_range (l + 1) r ?x ?y" "split_at l ?m (r + 1) ?y"
    using qsort_part_splits[of l l "l + 1" ?x r] assms(1-3) lx by (simp_all add: p_def Let_def)
  have ly: "length ?y = length xs" using y(1) lx by (simp add: permutes_range_def)
  have sw: "permutes_range l r ?y (swap l ?m ?y)" using assms(1-3) m ly by (intro swap_permutes) auto
  show "permutes_range l r xs (swap l ?m ?y)"
    using permutes_range_trans[OF x permutes_range_trans[OF permutes_range_mono[OF y(1)] sw]] by simp
  have n: "swap l ?m ?y ! k = (if int k = ?m then ?y ! nat l else if int k = l then ?y ! nat ?m else ?y ! k)" if "int k \<le> r" for k
    using that assms(1-3) m ly by (intro nth_swap) auto
  have pv: "swap l ?m ?y ! nat ?m = ?y ! nat l" using n[of "nat ?m"] m assms(1) by simp
  have "line_less (swap l ?m ?y ! k) (?y ! nat l)" if "l \<le> int k" "int k < ?m" for k
  proof (cases "int k = l")
    case True
    then have "l < int (nat ?m)" "int (nat ?m) \<le> ?m" using that assms(1) by auto
    then show ?thesis using n[of k] True that m y(2) unfolding split_at_def by simp
  next
    case False
    then show ?thesis using n[of k] that m y(2) by (simp add: split_at_def)
  qed
  moreover have "\<not> line_less (swap l ?m ?y ! k) (?y ! nat l)" if "?m < int k" "int k \<le> r" for k
    using n[of k] that m y(2) by (simp add: split_at_def)
  ultimately show "pivot_at l ?m r (swap l ?m ?y)"
    using m line_less_le unfolding pivot_at_def pv line_le_def by blast
qed

definition sorted_range :: "int \<Rightarrow> int \<Rightarrow> byte list list \<Rightarrow> bool" where
  "sorted_range l r xs \<longleftrightarrow> (\<forall>i j. l \<le> int i \<and> i < j \<and> int j \<le> r \<longrightarrow> line_le (xs ! i) (xs ! j))"

lemma pivot_sorted:
  assumes "pivot_at l m r ys" "0 \<le> l" "r < int (length ys)" "permutes_range l (m - 1) ys zs" "sorted_range l (m - 1) zs"
    "permutes_range (m + 1) r zs ws" "sorted_range (m + 1) r ws"
  shows "sorted_range l r ws"
proof -
  have m: "l \<le> m" "m \<le> r" and len: "length zs = length ys" "length ws = length ys"
    using assms(1,4,6) by (simp_all add: pivot_at_def permutes_range_def)
  have lo: "ws ! k = zs ! k" if "int k \<le> m" for k using that assms(3,6) len m by (simp add: permutes_range_def)
  have pv: "ws ! nat m = ys ! nat m" using lo[of "nat m"] assms(2,3,4) m by (simp add: permutes_range_def)
  have left: "line_le (ws ! k) (ws ! nat m)" if k: "l \<le> int k" "int k < m" for k
  proof -
    obtain k' where "l \<le> int k'" "int k' \<le> m - 1" "zs ! k = ys ! k'"
      using permutes_range_elem[OF assms(4,2), of k] k assms(3) m by auto
    then show ?thesis using lo[of k] k assms(1) pv by (simp add: pivot_at_def)
  qed
  have right: "line_le (ws ! nat m) (ws ! k)" if k: "m < int k" "int k \<le> r" for k
  proof -
    obtain k' where "m + 1 \<le> int k'" "int k' \<le> r" "ws ! k = zs ! k'"
      using permutes_range_elem[OF assms(6), of k] k assms(2,3) m len by auto
    moreover from this have "zs ! k' = ys ! k'" using assms(3,4) by (simp add: permutes_range_def)
    ultimately show ?thesis using assms(1) pv by (simp add: pivot_at_def)
  qed
  have "line_le (ws ! i) (ws ! j)" if ij: "l \<le> int i" "i < j" "int j \<le> r" for i j
  proof -
    consider "int j < m" | "int i < m" "m < int j" | "int j = m" | "int i = m" | "m < int i" using ij by linarith
    then show ?thesis
    proof cases
      case 1
      then show ?thesis using ij assms(5) lo[of i] lo[of j] by (simp add: sorted_range_def)
    next
      case 2
      then show ?thesis using line_le_trans[OF left right] ij by simp
    next
      case 3
      then show ?thesis using left[of i] ij by (simp flip: 3)
    next
      case 4
      then show ?thesis using right[of j] ij by (simp flip: 4)
    next
      case 5
      then show ?thesis using ij assms(7) by (simp add: sorted_range_def)
    qed
  qed
  then show ?thesis by (simp add: sorted_range_def)
qed

lemma qsort_range:
  "0 \<le> l \<Longrightarrow> r < int (length xs) \<Longrightarrow> permutes_range l r xs (qsort l r xs) \<and> sorted_range l r (qsort l r xs)"
proof (induction l r xs rule: qsort.induct)
  case (1 l r xs)
  show ?case
  proof (cases "r \<le> l")
    case True
    then show ?thesis by (subst (1 2) qsort.simps) (auto simp: sorted_range_def)
  next
    case False
    define p where "p = qsort_part l r (l + 1) l (swap l ((l + r) div 2) xs)"
    define ys where "ys = swap l (fst p) (snd p)"
    define zs where "zs = qsort l (fst p - 1) ys"
    define ws where "ws = qsort (fst p + 1) r zs"
    have q: "qsort l r xs = ws" using False by (subst qsort.simps) (simp add: Let_def p_def ys_def zs_def ws_def)
    have y: "permutes_range l r xs ys" "pivot_at l (fst p) r ys"
      using partition_pivot[OF 1(3) _ 1(4)] False by (simp_all add: p_def ys_def)
    have ly: "length ys = length xs" and m: "l \<le> fst p" "fst p \<le> r" using y by (simp_all add: permutes_range_def pivot_at_def)
    have z: "permutes_range l (fst p - 1) ys zs" "sorted_range l (fst p - 1) zs"
      using 1(1)[OF False p_def ys_def] 1(3,4) ly m by (simp_all add: zs_def)
    then have lz: "length zs = length xs" using ly by (simp add: permutes_range_def)
    have w: "permutes_range (fst p + 1) r zs ws" "sorted_range (fst p + 1) r ws"
      using 1(2)[OF False p_def ys_def] 1(3,4) lz m by (simp_all add: zs_def ws_def)
    have "sorted_range l r ws" using pivot_sorted[OF y(2) 1(3) _ z w] 1(4) ly by simp
    moreover have "permutes_range l r xs ws"
      using permutes_range_trans[OF y(1)] permutes_range_trans[OF permutes_range_mono[OF z(1)] permutes_range_mono[OF w(1)], of l r] m by simp
    ultimately show ?thesis unfolding q by simp
  qed
qed

text \<open>
  C32: the \<open>qsort\<close> of \<open>sort\<close> sorts: called for all lines it ends with a rearrangement of them in which
  every line is at most its successors in the order of \<open>strcmp\<close>.
\<close>

theorem sort_sorts:
  "mset (qsort 0 (int (length xs) - 1) xs) = mset xs \<and> sorted_wrt line_le (qsort 0 (int (length xs) - 1) xs)"
  using qsort_range[of 0 "int (length xs) - 1" xs] by (auto simp: permutes_range_def sorted_range_def sorted_wrt_iff_nth_less)

section \<open>Reading lines\<close>

abbreviation cut :: "byte list \<Rightarrow> byte list" where
  "cut \<equiv> take (MAXLEN - 1)"

definition lines_read :: "nat \<Rightarrow> byte list \<Rightarrow> byte list list \<times> byte list" where
  "lines_read n cs = (case text_lines cs of (ls, r) \<Rightarrow>
     if length ls < n then (map cut ls, cut r) else (map cut (take n ls), cut (ls ! (n - 1))))"

lemma lines_read_newline:
  assumes "10 \<notin> set p" and "0 < n"
  shows "lines_read n (p @ 10 # cs) =
    (if n = 1 then ([cut p], cut p) else (cut p # fst (lines_read (n - 1) cs), snd (lines_read (n - 1) cs)))"
  using assms by (cases n) (auto simp: lines_read_def text_lines_line split_beta nth_Cons')

lemma stdio_read1:
  assumes "stdio S fd ofd inp out" and "inp w = c # cs"
  shows "\<exists>w'. u_read S fd 1 w = ((1, [c]), w') \<and> inp w' = cs \<and> out w' = out w"
proof -
  obtain n w' where "u_read S fd 1 w = ((int n, take n (inp w)), w')" "0 < n" "n \<le> 1" "inp w' = drop n (inp w)" "out w' = out w"
    using stdio_read[OF assms(1), of w 1] assms(2) by auto
  moreover from this have "n = 1" by simp
  ultimately show ?thesis using assms(2) by auto
qed

lemma read_loop_lines:
  assumes io: "stdio S fd ofd inp out"
  shows "10 \<notin> set p \<Longrightarrow> length rows < MAXLINES \<Longrightarrow>
    \<exists>w'. read_loop S fd rows (cut p) w = Some (Done (rows @ fst (lines_read (MAXLINES - length rows) (p @ inp w)),
      snd (lines_read (MAXLINES - length rows) (p @ inp w))) w') \<and> out w' = out w"
proof (induction "inp w" arbitrary: rows p w)
  case Nil
  obtain w' where w': "u_read S fd 1 w = ((0, []), w')" "out w' = out w" using stdio_eof[OF io] Nil(1) by metis
  have "0 < MAXLINES - length rows" using Nil by simp
  then have l: "lines_read (MAXLINES - length rows) (p @ inp w) = ([], cut p)"
    using Nil by (simp add: lines_read_def text_lines_rest flip: Nil(1))
  show ?case using w' unfolding l by (subst read_loop.simps) simp
next
  case (Cons c cs)
  obtain w1 where w1: "u_read S fd 1 w = ((1, [c]), w1)" "inp w1 = cs" "out w1 = out w"
    using stdio_read1[OF io, of w c cs] Cons(2) by auto
  show ?case
  proof (cases "c = 10")
    case False
    have "(if length (cut p) < MAXLEN - 1 then cut p @ [c] else cut p) = cut (p @ [c])" by (auto simp: MAXLEN_def)
    then have "read_loop S fd rows (cut p) w = read_loop S fd rows (cut (p @ [c])) w1"
      using w1(1) False by (subst read_loop.simps) simp
    moreover have "p @ inp w = (p @ [c]) @ inp w1" using w1(2) by (simp flip: Cons(2))
    ultimately show ?thesis using Cons(1)[OF w1(2)[symmetric], of "p @ [c]" rows] Cons(3,4) False w1(3) by simp
  next
    case True
    have e: "p @ inp w = p @ 10 # inp w1" using w1(2) True by (simp flip: Cons(2))
    have l: "lines_read (MAXLINES - length rows) (p @ inp w) =
      (if length rows + 1 = MAXLINES then ([cut p], cut p)
       else (cut p # fst (lines_read (MAXLINES - length (rows @ [cut p])) (inp w1)), snd (lines_read (MAXLINES - length (rows @ [cut p])) (inp w1))))"
      unfolding e using Cons(3,4) by (subst lines_read_newline) auto
    show ?thesis
    proof (cases "length rows + 1 = MAXLINES")
      case True
      then show ?thesis using w1 \<open>c = 10\<close> unfolding l by (subst read_loop.simps) simp
    next
      case False
      then have "read_loop S fd rows (cut p) w = read_loop S fd (rows @ [cut p]) [] w1"
        using w1(1) True Cons(4) by (subst read_loop.simps) simp
      then show ?thesis using Cons(1)[OF w1(2)[symmetric], of "[]" "rows @ [cut p]"] Cons(4) False w1(3) unfolding l by simp
    qed
  qed
qed

text \<open>
  C33: \<open>readlines\<close> of \<open>head\<close> and \<open>tail\<close>, and the same loop in \<open>sort\<close>, on an input with fewer than 1000
  complete lines return all its lines, the unterminated last one included, each cut to 99 bytes. With 1000
  lines or more they read the first 1000 and then, unless the last of these is empty, write outside the
  array \<open>content\<close>.
\<close>

theorem readlines_bounds:
  assumes "stdio S fd ofd inp out"
  shows "\<exists>w'. readlines S fd w =
    Some (case text_lines (inp w) of (ls, r) \<Rightarrow>
      if length ls < 1000 then Done (map (take 99) (ls @ (if r = [] then [] else [r]))) w'
      else if ls ! 999 = [] then Done (map (take 99) (take 1000 ls)) w' else Fault ''content[i][j]'')"
proof -
  obtain ls r where t: "text_lines (inp w) = (ls, r)" by fastforce
  obtain w' where "read_loop S fd [] [] w = Some (Done (lines_read 1000 (inp w)) w')"
    using read_loop_lines[OF assms, of "[]" "[]" w] by (auto simp: MAXLINES_def)
  then show ?thesis using t by (intro exI[of _ w']) (auto simp: readlines_def lines_read_def MAXLINES_def MAXLEN_def split: if_splits)
qed

lemma readlines_bounds_witness:
  "\<exists>w'. readlines small_sys 0 ([97, 98, 10, 10, 99], []) = Some (Done [[97, 98], [], [99]] w')"
  using readlines_bounds[OF small_stdio, of 0 "([97, 98, 10, 10, 99], [])"] by simp

section \<open>cat copies and wc counts\<close>

lemma cat_copies:
  assumes io: "stdio S fd 1 inp out"
  shows "\<exists>w'. cat S fd w = Some (Done () w') \<and> out w' = out w @ inp w"
proof (induction "length (inp w)" arbitrary: w rule: less_induct)
  case less
  show ?case
  proof (cases "inp w = []")
    case True
    obtain w' where "u_read S fd 512 w = ((0, []), w')" "out w' = out w" using stdio_eof[OF io True] by blast
    then show ?thesis using True by (subst cat.simps) simp
  next
    case False
    obtain n w1 where r: "u_read S fd 512 w = ((int n, take n (inp w)), w1)" "0 < n" "n \<le> length (inp w)"
        "inp w1 = drop n (inp w)" "out w1 = out w" using stdio_read[OF io False, of 512] by auto
    obtain w2 where w2: "u_write S 1 (take n (inp w)) w1 = (int n, w2)" "inp w2 = inp w1" "out w2 = out w1 @ take n (inp w)"
      using stdio_write[OF io, of "take n (inp w)" w1] r(3) by auto
    have "length (inp w2) < length (inp w)" using r w2(2) by simp
    from less[OF this] obtain w3 where "cat S fd w2 = Some (Done () w3)" "out w3 = out w2 @ inp w2" by blast
    then show ?thesis using r w2 by (subst cat.simps) simp
  qed
qed

lemma wc_loop_fold:
  assumes io: "stdio S fd 1 inp out"
  shows "\<exists>w'. wc_loop S fd k w = Some (Done (0, foldl wc_byte k (inp w)) w') \<and> out w' = out w"
proof (induction "length (inp w)" arbitrary: k w rule: less_induct)
  case less
  show ?case
  proof (cases "inp w = []")
    case True
    obtain w' where "u_read S fd 512 w = ((0, []), w')" "out w' = out w" using stdio_eof[OF io True] by blast
    then show ?thesis using True by (subst wc_loop.simps) simp
  next
    case False
    obtain n w1 where r: "u_read S fd 512 w = ((int n, take n (inp w)), w1)" "0 < n" "n \<le> length (inp w)"
        "inp w1 = drop n (inp w)" "out w1 = out w" using stdio_read[OF io False, of 512] by auto
    have "length (inp w1) < length (inp w)" using r by simp
    moreover have "foldl wc_byte (foldl wc_byte k (take n (inp w))) (inp w1) = foldl wc_byte k (inp w)"
      using r(4) foldl_append[of wc_byte k "take n (inp w)" "drop n (inp w)"] by simp
    ultimately show ?thesis using less[of w1 "foldl wc_byte k (take n (inp w))"] r by (subst wc_loop.simps) simp
  qed
qed

text \<open>A text cut at its blanks; its words are the pieces that are not empty.\<close>

fun split_blank :: "byte list \<Rightarrow> byte list list" where
  "split_blank [] = [[]]"
| "split_blank (c # cs) = (if is_blank c then [] # split_blank cs else (c # hd (split_blank cs)) # tl (split_blank cs))"

definition text_words :: "byte list \<Rightarrow> byte list list" where
  "text_words cs = filter (\<lambda>w. w \<noteq> []) (split_blank cs)"

lemma split_blank_ne [simp]: "split_blank cs \<noteq> []"
  by (cases cs) auto

lemma split_blank_snoc:
  "split_blank (cs @ [c]) =
     (if is_blank c then split_blank cs @ [[]] else butlast (split_blank cs) @ [last (split_blank cs) @ [c]])"
proof (induction cs)
  case (Cons x cs)
  obtain a as where "split_blank cs = a # as" by (cases "split_blank cs") auto
  then show ?case using Cons by (cases as rule: rev_cases) (auto simp: butlast_append)
qed simp

lemma text_words_snoc:
  "length (text_words (cs @ [c])) =
     length (text_words cs) + (if \<not> is_blank c \<and> last (split_blank cs) = [] then 1 else 0)"
proof -
  have "split_blank cs = butlast (split_blank cs) @ [last (split_blank cs)]" by simp
  then have "text_words cs = filter (\<lambda>w. w \<noteq> []) (butlast (split_blank cs)) @ filter (\<lambda>w. w \<noteq> []) [last (split_blank cs)]"
    unfolding text_words_def by (metis filter_append)
  then show ?thesis by (simp add: text_words_def split_blank_snoc)
qed

lemma text_lines_snoc: "length (fst (text_lines (cs @ [c]))) = length (fst (text_lines cs)) + (if c = 10 then 1 else 0)"
  using text_lines_none[of cs] by (subst text_lines_append) (auto simp: text_lines_line text_lines_rest)

lemma wc_fold:
  "foldl wc_byte \<lparr>wc_l = 0, wc_w = 0, wc_c = 0, wc_inword = False\<rparr> cs =
    \<lparr>wc_l = of_nat (length (fst (text_lines cs))), wc_w = of_nat (length (text_words cs)), wc_c = of_nat (length cs),
     wc_inword = (last (split_blank cs) \<noteq> [])\<rparr>"
proof (induction cs rule: rev_induct)
  case Nil
  show ?case by (simp add: text_words_def)
next
  case (snoc c cs)
  show ?case unfolding foldl_append snoc foldl.simps
    by (simp add: wc_byte_def text_lines_snoc text_words_snoc split_blank_snoc)
qed

text \<open>
  C34: \<open>wc\<close> counts right: however \<open>read\<close> cuts its input into pieces, words across pieces included, it ends
  with the number of newlines, of words (maximal runs of bytes that are no blanks) and of bytes, each modulo
  \<open>2^32\<close>.
\<close>

theorem wc_counts:
  assumes "stdio S fd 1 inp out"
  shows "\<exists>w' b. wc_loop S fd \<lparr>wc_l = 0, wc_w = 0, wc_c = 0, wc_inword = False\<rparr> w =
    Some (Done (0, \<lparr>wc_l = of_nat (length (fst (text_lines (inp w)))), wc_w = of_nat (length (text_words (inp w))),
      wc_c = of_nat (length (inp w)), wc_inword = b\<rparr>) w')"
  using wc_loop_fold[OF assms, of "\<lparr>wc_l = 0, wc_w = 0, wc_c = 0, wc_inword = False\<rparr>" w] unfolding wc_fold by blast

text \<open>The text \<open>ab c\<close>, a newline and \<open>d\<close>, in two pieces.\<close>

lemma wc_counts_witness:
  "\<exists>w' b. wc_loop small_sys 0 \<lparr>wc_l = 0, wc_w = 0, wc_c = 0, wc_inword = False\<rparr> ([97, 98, 32, 99, 10, 100], []) =
    Some (Done (0, \<lparr>wc_l = 1, wc_w = 3, wc_c = 6, wc_inword = b\<rparr>) w')"
  using wc_counts[OF small_stdio, of 0 "([97, 98, 32, 99, 10, 100], [])"] by (simp add: text_words_def is_blank_def bytes_of_def)

end
