(* ===== verification/Umalloc.thy ===== *)
theory Umalloc
  imports Ulib
begin

text \<open>
  The storage allocator of user programs (\<open>umalloc.c\<close>): a circular list of free blocks in address order.
  Addresses are natural numbers; a block is a header of 16 bytes followed by its storage, and sizes count
  headers. The headers are two functions of their address. The allocator is proved to keep its list sorted
  and its blocks apart, and to move memory between the free set and its callers without loss or overlap.
\<close>

record mheap =
  hptr :: "nat \<Rightarrow> nat"
  hsize :: "nat \<Rightarrow> nat"
  mbase :: nat
  freep :: nat

abbreviation set_ptr :: "nat \<Rightarrow> nat \<Rightarrow> mheap \<Rightarrow> mheap" where
  "set_ptr a p h \<equiv> h\<lparr>hptr := (hptr h)(a := p)\<rparr>"

abbreviation set_size :: "nat \<Rightarrow> nat \<Rightarrow> mheap \<Rightarrow> mheap" where
  "set_size a n h \<equiv> h\<lparr>hsize := (hsize h)(a := n)\<rparr>"

text \<open>The address after the block at \<open>a\<close>: \<open>a + a->s.size\<close> in C.\<close>

definition blk_end :: "mheap \<Rightarrow> nat \<Rightarrow> nat" where
  "blk_end h a = a + 16 * hsize h a"

section \<open>free\<close>

partial_function (option) free_find :: "mheap \<Rightarrow> nat \<Rightarrow> nat \<Rightarrow> nat option" where
  "free_find h bp p =
     (if bp > p \<and> bp < hptr h p then Some p
      else if p \<ge> hptr h p \<and> (bp > p \<or> bp < hptr h p) then Some p
      else free_find h bp (hptr h p))"

definition free_join :: "nat \<Rightarrow> nat \<Rightarrow> mheap \<Rightarrow> mheap" where
  "free_join bp p h =
     (let q = hptr h p;
          h = (if blk_end h bp = q then set_ptr bp (hptr h q) (set_size bp (hsize h bp + hsize h q) h) else set_ptr bp q h);
          h = (if blk_end h p = bp then set_ptr p (hptr h bp) (set_size p (hsize h p + hsize h bp) h) else set_ptr p bp h)
      in h\<lparr>freep := p\<rparr>)"

definition free :: "nat \<Rightarrow> mheap \<Rightarrow> mheap option" where
  "free ap h = (let bp = ap - 16 in map_option (\<lambda>p. free_join bp p h) (free_find h bp (freep h)))"

section \<open>malloc\<close>

text \<open>The argument of \<open>sbrk\<close> is an \<open>int\<close>: the byte count is cut to 32 bits.\<close>

definition morecore :: "'w sys \<Rightarrow> nat \<Rightarrow> mheap \<Rightarrow> ('w, nat \<times> mheap) prog" where
  "morecore S nu h =
     (let nu = (if nu < 4096 then 4096 else nu)
      in ubind (usys (u_sbrk S (sint (of_nat (nu * 16) :: u32)))) (\<lambda>p.
         if p = -1 then uret (0, h)
         else (\<lambda>w. case free (unat p + 16) (set_size (unat p) nu h) of
            None \<Rightarrow> None
          | Some h' \<Rightarrow> Some (Done (freep h', h') w))))"

definition take_block :: "nat \<Rightarrow> nat \<Rightarrow> nat \<Rightarrow> mheap \<Rightarrow> nat \<times> mheap" where
  "take_block nunits prevp p h =
     (if hsize h p = nunits then (p + 16, (set_ptr prevp (hptr h p) h)\<lparr>freep := prevp\<rparr>)
      else
        let h = set_size p (hsize h p - nunits) h;
            r = blk_end h p;
            h = set_size r nunits h
        in (r + 16, h\<lparr>freep := prevp\<rparr>))"

partial_function (option) malloc_loop :: "'w sys \<Rightarrow> nat \<Rightarrow> nat \<Rightarrow> nat \<Rightarrow> mheap \<Rightarrow> 'w \<Rightarrow> ('w, nat \<times> mheap) ures option" where
  "malloc_loop S nunits prevp p h w =
     (if hsize h p \<ge> nunits then uret (take_block nunits prevp p h)
      else if p = freep h then
        ubind (morecore S nunits h) (\<lambda>r.
        if fst r = 0 then uret (0, snd r) else malloc_loop S nunits (fst r) (hptr (snd r) (fst r)) (snd r))
      else malloc_loop S nunits p (hptr h p) h) w"

definition malloc :: "'w sys \<Rightarrow> u32 \<Rightarrow> mheap \<Rightarrow> ('w, nat \<times> mheap) prog" where
  "malloc S nbytes h =
     (let nunits = (unat nbytes + 16 - 1) div 16 + 1;
          h = (if freep h = 0 then h\<lparr>hptr := (hptr h)(mbase h := mbase h), freep := mbase h, hsize := (hsize h)(mbase h := 0)\<rparr> else h)
      in malloc_loop S nunits (freep h) (hptr h (freep h)) h)"

section \<open>The free list\<close>

fun linked :: "mheap \<Rightarrow> nat list \<Rightarrow> nat \<Rightarrow> bool" where
  "linked h [] e = True"
| "linked h (x # xs) e = (hptr h x = (if xs = [] then e else hd xs) \<and> linked h xs e)"

lemma linked_append: "linked h (xs @ y # ys) e \<longleftrightarrow> linked h xs y \<and> linked h (y # ys) e"
  by (induction xs) (auto simp: hd_append split: if_splits)

lemma linked_cong: "(\<And>x. x \<in> set xs \<Longrightarrow> hptr h' x = hptr h x) \<Longrightarrow> linked h' xs e = linked h xs e"
  by (induction xs) auto

definition blk_before :: "mheap \<Rightarrow> nat \<Rightarrow> nat \<Rightarrow> bool" where
  "blk_before h x y \<longleftrightarrow> x < y \<and> blk_end h x \<le> y"

text \<open>\<open>ns\<close> are the nodes of the list: the empty block \<open>base\<close>, below all others, and the free blocks.\<close>

definition flist :: "mheap \<Rightarrow> nat list \<Rightarrow> bool" where
  "flist h ns \<longleftrightarrow> (\<exists>xs. ns = mbase h # xs \<and> (\<forall>x \<in> set xs. 0 < hsize h x)) \<and> linked h ns (mbase h) \<and>
     sorted_wrt (blk_before h) ns \<and> hsize h (mbase h) = 0 \<and> 0 < mbase h \<and> freep h \<in> set ns"

definition blk_mem :: "mheap \<Rightarrow> nat \<Rightarrow> nat set" where
  "blk_mem h a = {a..<blk_end h a}"

definition free_mem :: "mheap \<Rightarrow> nat list \<Rightarrow> nat set" where
  "free_mem h ns = (\<Union>x \<in> set ns. blk_mem h x)"

lemma blk_cong: "hsize h' a = hsize h a \<Longrightarrow> blk_end h' a = blk_end h a \<and> blk_mem h' a = blk_mem h a"
  by (simp add: blk_end_def blk_mem_def)

lemma flistD:
  assumes "flist h ns"
  shows "linked h ns (mbase h)" and "sorted_wrt (blk_before h) ns" and "hsize h (mbase h) = 0" and "0 < mbase h"
    and "freep h \<in> set ns" and "ns \<noteq> []" and "hd ns = mbase h" and "distinct ns" and "\<And>x. x \<in> set ns \<Longrightarrow> mbase h \<le> x"
    and "\<And>x. x \<in> set ns \<Longrightarrow> x \<noteq> mbase h \<Longrightarrow> 0 < hsize h x" and "\<And>x. x \<in> set (tl ns) \<Longrightarrow> 0 < hsize h x"
proof -
  obtain xs where ns: "ns = mbase h # xs" and sz: "\<forall>x \<in> set xs. 0 < hsize h x" using assms by (auto simp: flist_def)
  show s: "linked h ns (mbase h)" "sorted_wrt (blk_before h) ns" "hsize h (mbase h) = 0" "0 < mbase h" "freep h \<in> set ns"
    using assms by (simp_all add: flist_def)
  show "ns \<noteq> []" "hd ns = mbase h" using ns by simp_all
  have "sorted_wrt (<) ns" using s(2) by (rule sorted_wrt_mono_rel[rotated]) (simp add: blk_before_def)
  then show "distinct ns" by (simp add: strict_sorted_iff)
  show "mbase h \<le> x" if "x \<in> set ns" for x using that s(2) ns by (auto simp: blk_before_def)
  show "0 < hsize h x" if "x \<in> set ns" "x \<noteq> mbase h" for x using that sz ns by auto
  show "0 < hsize h x" if "x \<in> set (tl ns)" for x using that sz ns by auto
qed

lemma flistI:
  assumes "linked h ns (mbase h)" and "sorted_wrt (blk_before h) ns" and "hsize h (mbase h) = 0" and "0 < mbase h"
    and "freep h \<in> set ns" and "ns \<noteq> []" and "hd ns = mbase h" and "\<And>x. x \<in> set (tl ns) \<Longrightarrow> 0 < hsize h x"
  shows "flist h ns"
  using assms by (cases ns) (auto simp: flist_def)

text \<open>The address of a block to be freed lies after the node \<open>t\<close> and before the nodes \<open>bs\<close>.\<close>

definition place :: "nat list \<Rightarrow> nat \<Rightarrow> nat \<Rightarrow> nat list \<Rightarrow> bool" where
  "place ns bp t bs \<longleftrightarrow> (\<exists>as. ns = as @ t # bs) \<and> t < bp \<and> (\<forall>y \<in> set bs. bp < y)"

lemma free_find_at:
  assumes "flist h ns" and "place ns bp t bs"
  shows "free_find h bp t = Some t"
proof -
  obtain as where ns: "ns = as @ t # bs" using assms(2) by (auto simp: place_def)
  have "hptr h t = (if bs = [] then mbase h else hd bs)" using flistD(1)[OF assms(1)] unfolding ns by (simp add: linked_append)
  moreover have "mbase h \<le> t" using flistD(9)[OF assms(1)] ns by simp
  ultimately show ?thesis using assms(2) by (subst free_find.simps) (auto simp: place_def)
qed

lemma free_find_forward:
  assumes fl: "flist h ns" and pl: "place ns bp t bs"
  shows "ns = as1 @ as2 @ t # bs \<Longrightarrow> as2 \<noteq> [] \<Longrightarrow> free_find h bp (hd as2) = Some t"
proof (induction as2 arbitrary: as1)
  case (Cons p as2)
  let ?q = "hd (as2 @ [t])"
  have q: "hptr h p = ?q" using flistD(1)[OF fl] unfolding Cons.prems(1) by (auto simp: linked_append hd_append)
  have "?q \<in> set (as2 @ [t])" by (intro hd_in_set) simp
  then have le: "p < ?q" "?q \<le> t" using flistD(2)[OF fl] unfolding Cons.prems(1) by (auto simp: sorted_wrt_append blk_before_def)
  then have "free_find h bp p = free_find h bp ?q" using pl q by (subst free_find.simps) (auto simp: place_def)
  also have "\<dots> = Some t" using Cons.IH[of "as1 @ [p]"] Cons.prems(1) free_find_at[OF fl pl] by (cases as2) auto
  finally show ?case by simp
qed simp

lemma free_find_around:
  assumes fl: "flist h ns" and pl: "place ns bp t bs"
  shows "bs = bs1 @ bs2 \<Longrightarrow> bs2 \<noteq> [] \<Longrightarrow> free_find h bp (hd bs2) = Some t"
proof (induction bs2 arbitrary: bs1)
  case (Cons p bs2)
  obtain as where ns: "ns = as @ t # bs" using pl by (auto simp: place_def)
  have q: "hptr h p = (if bs2 = [] then mbase h else hd bs2)"
    using flistD(1)[OF fl] linked_append[of h "as @ t # bs1" p bs2 "mbase h"] unfolding ns Cons.prems(1) by simp
  have b: "mbase h \<le> t" "bp < p" "t < bp" using flistD(9)[OF fl] ns pl Cons.prems by (auto simp: place_def)
  have "hd bs2 > p" if "bs2 \<noteq> []" using flistD(2)[OF fl] that unfolding ns Cons.prems(1) by (auto simp: sorted_wrt_append blk_before_def)
  then have st: "free_find h bp p = free_find h bp (hptr h p)" using b q by (subst free_find.simps) (auto split: if_splits)
  show ?case
  proof (cases "bs2 = []")
    case True
    have "hd ns = mbase h" using flistD(7)[OF fl] .
    then have "free_find h bp (mbase h) = Some t"
      using free_find_forward[OF fl pl, of "[]" as] free_find_at[OF fl pl] ns by (cases as) auto
    then show ?thesis using st q True by simp
  next
    case False
    then show ?thesis using st q Cons.IH[of "bs1 @ [p]"] Cons.prems(1) by simp
  qed
qed simp

lemma free_find_place:
  assumes fl: "flist h ns" and pl: "place ns bp t bs" and p: "p \<in> set ns"
  shows "free_find h bp p = Some t"
proof -
  obtain as where ns: "ns = as @ t # bs" using pl by (auto simp: place_def)
  then consider as1 as2 where "as = as1 @ p # as2" | "p = t" | bs1 bs2 where "bs = bs1 @ p # bs2"
    using p by (auto dest: split_list)
  then show ?thesis
  proof cases
    case 1
    then show ?thesis using free_find_forward[OF fl pl, of as1 "p # as2"] ns by simp
  next
    case 2
    then show ?thesis using free_find_at[OF fl pl] by simp
  next
    case 3
    then show ?thesis using free_find_around[OF fl pl, of bs1 "p # bs2"] by simp
  qed
qed

section \<open>What free does\<close>

text \<open>A node of the list can be replaced by a list of nodes, as far as links and order are concerned.\<close>

lemma flist_parts:
  assumes "flist h (as @ t # bs)"
  shows "linked h as t" and "hptr h t = (if bs = [] then mbase h else hd bs)" and "linked h bs (mbase h)"
    and "sorted_wrt (blk_before h) as" and "sorted_wrt (blk_before h) bs" and "\<forall>x \<in> set as. blk_before h x t"
    and "\<forall>y \<in> set bs. blk_before h t y" and "\<forall>x \<in> set as. \<forall>y \<in> set bs. blk_before h x y"
    and "as = [] \<Longrightarrow> t = mbase h" and "as \<noteq> [] \<Longrightarrow> hd as = mbase h" and "mbase h \<notin> set bs"
    and "as \<noteq> [] \<Longrightarrow> mbase h < t"
proof -
  note d = flistD[OF assms]
  show "linked h as t" "hptr h t = (if bs = [] then mbase h else hd bs)" "linked h bs (mbase h)"
    using d(1) by (simp_all add: linked_append)
  show "sorted_wrt (blk_before h) as" "sorted_wrt (blk_before h) bs" "\<forall>x \<in> set as. blk_before h x t"
    "\<forall>y \<in> set bs. blk_before h t y" "\<forall>x \<in> set as. \<forall>y \<in> set bs. blk_before h x y"
    using d(2) by (auto simp: sorted_wrt_append)
  show "as = [] \<Longrightarrow> t = mbase h" "as \<noteq> [] \<Longrightarrow> hd as = mbase h" using d(7) by auto
  show "mbase h \<notin> set bs" using d(7,8) by (cases as) auto
  show "as \<noteq> [] \<Longrightarrow> mbase h < t" using d(2,7) by (cases as) (auto simp: blk_before_def)
qed

text \<open>Inserting a block between two nodes, before the blocks that touch are joined.\<close>

definition fits_after :: "mheap \<Rightarrow> nat list \<Rightarrow> nat \<Rightarrow> nat \<Rightarrow> nat list \<Rightarrow> bool" where
  "fits_after h as t bp bs \<longleftrightarrow> flist h (as @ t # bs) \<and> 0 < hsize h bp \<and> t < bp \<and> blk_end h t \<le> bp \<and> (\<forall>y \<in> set bs. blk_end h bp \<le> y)"

lemma insert_block:
  assumes f: "fits_after h as t bp bs" and fr: "freep h = t"
  shows "flist (set_ptr t bp (set_ptr bp (hptr h t) h)) (as @ t # bp # bs)"
proof -
  have fl: "flist h (as @ t # bs)" using f by (simp add: fits_after_def)
  note d = flist_parts[OF fl] and e = flistD[OF fl]
  have b: "0 < hsize h bp" "t < bp" "blk_end h t \<le> bp" "\<forall>y \<in> set bs. bp < y \<and> blk_end h bp \<le> y"
    using f by (auto simp: fits_after_def blk_end_def)
  have n: "t \<notin> set as" "bp \<notin> set as" "t \<notin> set bs" "bp \<notin> set bs" using d(6,7) b by (auto simp: blk_before_def)
  let ?h = "set_ptr t bp (set_ptr bp (hptr h t) h)"
  have le: "mbase h \<le> t" using e(9) by simp
  show ?thesis
  proof (rule flistI)
    have "linked ?h as t = linked h as t" "linked ?h bs (mbase h) = linked h bs (mbase h)" using n by (intro linked_cong; auto)+
    then show "linked ?h (as @ t # bp # bs) (mbase ?h)" using d(1-3) b(2) by (simp add: linked_append)
    show "sorted_wrt (blk_before ?h) (as @ t # bp # bs)"
      using d(4-8) b unfolding sorted_wrt_append blk_before_def blk_end_def by fastforce
    show "0 < hsize ?h x" if "x \<in> set (tl (as @ t # bp # bs))" for x
      using that e(11)[of x] b(1) by (cases as) auto
  qed (use e b fr in \<open>auto simp: hd_append\<close>)
qed

text \<open>Joining a block with the next one.\<close>

lemma join_blocks:
  assumes fl: "flist h (as @ t # q # bs)" and touch: "blk_end h t = q" and fr: "freep h \<noteq> q" and nb: "t \<noteq> mbase h"
  defines "h' \<equiv> set_ptr t (hptr h q) (set_size t (hsize h t + hsize h q) h)"
  shows "flist h' (as @ t # bs)" and "free_mem h' (as @ t # bs) = free_mem h (as @ t # q # bs)"
proof -
  note d = flist_parts[OF fl] and e = flistD[OF fl]
  have q: "hptr h q = (if bs = [] then mbase h else hd bs)" "linked h bs (mbase h)" "sorted_wrt (blk_before h) bs"
    "\<forall>y \<in> set bs. blk_before h q y" using d(3,5) by simp_all
  have n: "t \<notin> set as" "t \<notin> set bs" "mbase h \<noteq> q" using e(8) d(11) by auto
  have be: "blk_end h' t = blk_end h q" using touch by (simp add: h'_def blk_end_def)
  have bo: "blk_end h' x = blk_end h x" if "x \<noteq> t" for x using that by (simp add: h'_def blk_end_def)
  have lt: "t < q" using d(7) by (simp add: blk_before_def)
  show "flist h' (as @ t # bs)"
  proof (rule flistI)
    have "linked h' as t = linked h as t" "linked h' bs (mbase h) = linked h bs (mbase h)" using n by (intro linked_cong; auto simp: h'_def)+
    then show "linked h' (as @ t # bs) (mbase h')" using d(1) q(1,2) by (simp add: linked_append h'_def)
    have o: "blk_before h' x y = blk_before h x y" if "x \<in> set as \<union> set bs" for x y using that n bo[of x] by (metis UnE blk_before_def)
    have "sorted_wrt (blk_before h') as" using d(4) by (rule sorted_wrt_mono_rel[rotated]) (simp add: o)
    moreover have "sorted_wrt (blk_before h') bs" using q(3) by (rule sorted_wrt_mono_rel[rotated]) (simp add: o)
    moreover have "blk_before h' t y" if "y \<in> set bs" for y using that q(4) be lt by (auto simp: blk_before_def)
    ultimately show "sorted_wrt (blk_before h') (as @ t # bs)" using d(6,8) o by (auto simp: sorted_wrt_append)
    show "0 < hsize h' x" if "x \<in> set (tl (as @ t # bs))" for x
      using that e(11)[of x] by (cases as) (auto simp: h'_def)
    show "freep h' \<in> set (as @ t # bs)" using e(5) fr by (auto simp: h'_def)
  qed (use e nb in \<open>auto simp: h'_def hd_append\<close>)
  have "blk_mem h' t = blk_mem h t \<union> blk_mem h q" using be touch lt unfolding blk_mem_def by (auto simp: blk_end_def)
  moreover have "blk_mem h' x = blk_mem h x" if "x \<noteq> t" for x using bo[OF that] by (simp add: blk_mem_def)
  then have "(\<Union>x \<in> set as. blk_mem h' x) = (\<Union>x \<in> set as. blk_mem h x)" "(\<Union>x \<in> set bs. blk_mem h' x) = (\<Union>x \<in> set bs. blk_mem h x)"
    using n by (intro SUP_cong; metis)+
  ultimately show "free_mem h' (as @ t # bs) = free_mem h (as @ t # q # bs)" unfolding free_mem_def by auto
qed

lemma freep_cong [simp]:
  "blk_end (h\<lparr>freep := t\<rparr>) = blk_end h" "blk_before (h\<lparr>freep := t\<rparr>) = blk_before h" "linked (h\<lparr>freep := t\<rparr>) = linked h"
  "blk_mem (h\<lparr>freep := t\<rparr>) = blk_mem h" "free_mem (h\<lparr>freep := t\<rparr>) = free_mem h"
proof -
  show "linked (h\<lparr>freep := t\<rparr>) = linked h" by (intro ext linked_cong) simp
qed (simp_all add: fun_eq_iff blk_end_def blk_before_def blk_mem_def free_mem_def)

lemma flist_freep: "flist h ns \<Longrightarrow> t \<in> set ns \<Longrightarrow> flist (h\<lparr>freep := t\<rparr>) ns"
  by (simp add: flist_def)

lemma free_join_flist:
  assumes f: "fits_after h as t bp bs"
  shows "\<exists>ns. flist (free_join bp t h) ns \<and> free_mem (free_join bp t h) ns = free_mem h (as @ t # bs) \<union> blk_mem h bp \<and>
    mbase (free_join bp t h) = mbase h \<and> (\<exists>x \<in> set ns. hsize h bp \<le> hsize (free_join bp t h) x)"
proof -
  let ?g = "h\<lparr>freep := t\<rparr>" let ?q = "hptr h t"
  have fl: "flist h (as @ t # bs)" using f by (simp add: fits_after_def)
  have b: "0 < hsize h bp" "t < bp" "blk_end h t \<le> bp" "\<forall>y \<in> set bs. blk_end h bp \<le> y" using f by (auto simp: fits_after_def)
  have "fits_after ?g as t bp bs" using f by (simp add: fits_after_def flist_freep)
  from insert_block[OF this] have ins: "flist (set_ptr t bp (set_ptr bp ?q ?g)) (as @ t # bp # bs)" by simp
  let ?h1 = "set_ptr t bp (set_ptr bp ?q ?g)"
  have bp: "bp \<noteq> t" "bp \<noteq> mbase h" using b(2) flistD(9)[OF fl, of t] by auto
  have m1: "free_mem ?h1 (as @ t # bp # bs) = free_mem h (as @ t # bs) \<union> blk_mem h bp"
    by (auto simp: free_mem_def blk_mem_def blk_end_def)
  \<comment> \<open>the block joined with the node after it\<close>
  obtain h2 cs where h2: "flist h2 (as @ t # bp # cs)" "free_mem h2 (as @ t # bp # cs) = free_mem h (as @ t # bs) \<union> blk_mem h bp"
      "freep h2 = t" "mbase h2 = mbase h"
      "h2 = (if blk_end h bp = ?q then set_ptr bp (hptr h ?q) (set_size bp (hsize h bp + hsize h ?q) ?h1) else ?h1)"
  proof (cases "blk_end h bp = ?q")
    case True
    have "bs \<noteq> []" using True flist_parts(2)[OF fl] b(1,2) flistD(9)[OF fl, of t] by (auto simp: blk_end_def)
    then obtain q cs where bs: "bs = q # cs" by (cases bs) auto
    have q: "?q = q" using flist_parts(2)[OF fl] bs by simp
    have ne: "q \<noteq> t" "q \<noteq> bp" using b bs by (auto simp: blk_end_def)
    have "flist ?h1 ((as @ [t]) @ bp # q # cs)" using ins bs by simp
    from join_blocks[OF this] have
      "flist (set_ptr bp (hptr ?h1 q) (set_size bp (hsize ?h1 bp + hsize ?h1 q) ?h1)) (as @ t # bp # cs)"
      "free_mem (set_ptr bp (hptr ?h1 q) (set_size bp (hsize ?h1 bp + hsize ?h1 q) ?h1)) (as @ t # bp # cs) = free_mem ?h1 (as @ t # bp # bs)"
      using True q ne bp bs by (simp_all add: blk_end_def)
    then show ?thesis using that[of "set_ptr bp (hptr h q) (set_size bp (hsize h bp + hsize h q) ?h1)" cs] True q ne m1 by simp
  next
    case False
    then show ?thesis using that[of ?h1 bs] ins m1 by simp
  qed
  \<comment> \<open>and then with the node before it\<close>
  have e2: "free_join bp t h = (if blk_end h2 t = bp then set_ptr t (hptr h2 bp) (set_size t (hsize h2 t + hsize h2 bp) h2) else h2)"
    using bp by (cases "blk_end h bp = ?q") (auto simp: h2(5) free_join_def Let_def blk_end_def fun_upd_twist)
  have sz: "hsize h bp \<le> hsize h2 bp" by (simp add: h2(5))
  show ?thesis
  proof (cases "blk_end h2 t = bp")
    case True
    have "t \<noteq> mbase h2" using True flistD(3)[OF h2(1)] bp(1) by (auto simp: blk_end_def)
    from join_blocks[OF h2(1) True _ this] show ?thesis using h2 True bp(1) sz unfolding e2 by (intro exI[of _ "as @ t # cs"]) simp
  next
    case False
    then show ?thesis using h2 sz unfolding e2 by (intro exI[of _ "as @ t # bp # cs"]) simp
  qed
qed

lemma blk_mem_ne: "0 < hsize h x \<Longrightarrow> x \<in> blk_mem h x"
  by (simp add: blk_mem_def blk_end_def)

lemma find_place:
  assumes fl: "flist h ns" and bp: "mbase h < bp" "0 < hsize h bp" and dis: "blk_mem h bp \<inter> free_mem h ns = {}"
  shows "\<exists>as t bs. ns = as @ t # bs \<and> fits_after h as t bp bs \<and> place ns bp t bs"
proof -
  define us where "us = takeWhile (\<lambda>x. x < bp) ns" define bs where "bs = dropWhile (\<lambda>x. x < bp) ns"
  note d = flistD[OF fl]
  have ns: "ns = us @ bs" by (simp add: us_def bs_def)
  have "us \<noteq> []" using d(6,7) bp(1) by (cases ns) (auto simp: us_def)
  then obtain as t where us: "us = as @ [t]" by (cases us rule: rev_cases) auto
  have eq: "ns = as @ t # bs" using ns us by simp
  have "t \<in> set us" using us by simp
  then have t: "t < bp" unfolding us_def by (rule set_takeWhileD[THEN conjunct2])
  have "bp \<in> blk_mem h bp" using blk_mem_ne[of h bp] bp(2) by simp
  then have "bp \<notin> blk_mem h t" using dis eq by (auto simp: free_mem_def)
  then have te: "blk_end h t \<le> bp" using t by (simp add: blk_mem_def)
  have sorted: "sorted_wrt (<) ns" using d(2) by (rule sorted_wrt_mono_rel[rotated]) (simp add: blk_before_def)
  have y: "bp < y \<and> blk_end h bp \<le> y" if "y \<in> set bs" for y
  proof -
    have "bs \<noteq> []" using that by auto
    then have "bs \<noteq> []" "\<not> hd bs < bp" using hd_dropWhile[of "\<lambda>x. x < bp" ns] unfolding bs_def by blast+
    then have ge: "bp \<le> y" using that sorted unfolding ns by (cases bs) (auto simp: sorted_wrt_append)
    have "y \<noteq> mbase h" using ge bp(1) by simp
    then have "y \<in> blk_mem h y" using d(10)[of y] that ns by (simp add: blk_mem_ne)
    then have "y \<notin> blk_mem h bp" using dis that ns by (auto simp: free_mem_def)
    then show ?thesis using ge bp(2) by (auto simp: blk_mem_def blk_end_def)
  qed
  have "fits_after h as t bp bs" using fl bp(2) t te y by (simp add: fits_after_def flip: eq)
  moreover have "place ns bp t bs" using t y eq by (auto simp: place_def)
  ultimately show ?thesis using eq by blast
qed

lemma free_Some:
  assumes fl: "flist h ns" and bp: "mbase h < bp" "0 < hsize h bp" and dis: "blk_mem h bp \<inter> free_mem h ns = {}"
  shows "\<exists>h' ns'. free (bp + 16) h = Some h' \<and> flist h' ns' \<and> free_mem h' ns' = free_mem h ns \<union> blk_mem h bp \<and>
    mbase h' = mbase h \<and> (\<exists>x \<in> set ns'. hsize h bp \<le> hsize h' x)"
proof -
  obtain as t bs where p: "ns = as @ t # bs" "fits_after h as t bp bs" "place ns bp t bs" using find_place[OF assms] by blast
  have "free (bp + 16) h = Some (free_join bp t h)"
    using free_find_place[OF fl p(3) flistD(5)[OF fl]] by (simp add: free_def)
  then show ?thesis using free_join_flist[OF p(2)] p(1) by blast
qed

section \<open>What malloc does\<close>

lemma blocks_apart:
  assumes "flist h ns" and "x \<in> set ns" "y \<in> set ns" "x \<noteq> y"
  shows "blk_mem h x \<inter> blk_mem h y = {}"
proof -
  have "blk_before h x y \<or> blk_before h y x" using flistD(2)[OF assms(1)] assms(2-4)
    by (metis in_set_conv_nth linorder_neqE_nat sorted_wrt_iff_nth_less)
  then show ?thesis by (auto simp: blk_before_def blk_mem_def)
qed

text \<open>What a caller gets: a block of \<open>n\<close> headers at \<open>a\<close>, taken out of the memory \<open>M\<close>.\<close>

definition gives :: "nat \<Rightarrow> nat set \<Rightarrow> nat \<times> mheap \<Rightarrow> bool" where
  "gives n M r \<longleftrightarrow> (\<exists>ns. flist (snd r) ns \<and> 16 < fst r \<and> hsize (snd r) (fst r - 16) = n \<and>
     blk_mem (snd r) (fst r - 16) \<inter> free_mem (snd r) ns = {} \<and> blk_mem (snd r) (fst r - 16) \<union> free_mem (snd r) ns = M)"

lemma take_block_exact:
  assumes fl: "flist h (as @ prev # p # bs)" and n: "hsize h p = n" "0 < n"
  shows "gives n (free_mem h (as @ prev # p # bs)) (take_block n prev p h)"
proof -
  let ?h = "(set_ptr prev (hptr h p) h)\<lparr>freep := prev\<rparr>"
  note d = flist_parts[OF fl] and e = flistD[OF fl]
  have nin: "prev \<notin> set as" "prev \<notin> set bs" "p \<notin> set as" "p \<notin> set bs" "prev \<noteq> p" "mbase h \<noteq> p" using e(8) d(11) by auto
  have f: "flist ?h (as @ prev # bs)"
  proof (rule flistI)
    have "linked (set_ptr prev (hptr h p) h) as prev = linked h as prev"
      "linked (set_ptr prev (hptr h p) h) bs (mbase h) = linked h bs (mbase h)" using nin by (intro linked_cong; auto)+
    then show "linked ?h (as @ prev # bs) (mbase ?h)" using d(1,3) by (simp add: linked_append)
    have "blk_before (set_ptr prev (hptr h p) h) = blk_before h" by (simp add: fun_eq_iff blk_before_def blk_end_def)
    then show "sorted_wrt (blk_before ?h) (as @ prev # bs)" using e(2) by (simp add: sorted_wrt_append)
    show "0 < hsize ?h x" if "x \<in> set (tl (as @ prev # bs))" for x using that e(11)[of x] by (cases as) auto
  qed (use e in \<open>auto simp: hd_append\<close>)
  have m: "free_mem ?h (as @ prev # bs) = (\<Union>x \<in> set as \<union> {prev} \<union> set bs. blk_mem h x)" "blk_mem ?h p = blk_mem h p"
    by (auto simp: free_mem_def blk_mem_def blk_end_def)
  have "blk_mem h p \<inter> blk_mem h x = {}" if "x \<in> set as \<union> {prev} \<union> set bs" for x
    using that nin by (intro blocks_apart[OF fl]) auto
  then have "blk_mem h p \<inter> free_mem ?h (as @ prev # bs) = {}" unfolding m by blast
  moreover have "blk_mem h p \<union> free_mem ?h (as @ prev # bs) = free_mem h (as @ prev # p # bs)"
    unfolding m by (auto simp: free_mem_def)
  moreover have "0 < p" using e(4) e(9)[of p] by simp
  ultimately show ?thesis using f m(2) n unfolding gives_def take_block_def by (intro exI[of _ "as @ prev # bs"]) simp
qed

lemma take_block_split:
  assumes fl: "flist h ns" and p: "p \<in> set ns" "prev \<in> set ns" and n: "n < hsize h p" "0 < n"
  shows "gives n (free_mem h ns) (take_block n prev p h)"
proof -
  let ?k = "hsize h p - n" let ?r = "p + 16 * ?k"
  let ?h = "(set_size ?r n (set_size p ?k h))\<lparr>freep := prev\<rparr>"
  note e = flistD[OF fl]
  have r: "p < ?r" "?r + 16 * n = blk_end h p" using n by (auto simp: blk_end_def algebra_simps)
  have pb: "p \<noteq> mbase h" using n e(3) by auto
  have rin: "?r \<in> blk_mem h p" using r n by (simp add: blk_mem_def)
  have rn: "?r \<noteq> x" if "x \<in> set ns" "x \<noteq> mbase h" for x
    using that blocks_apart[OF fl that(1) p(1)] blk_mem_ne[of h x] e(10)[OF that] rin r(1) by (cases "x = p") auto
  have rb: "?r \<noteq> mbase h" using r(1) e(9)[OF p(1)] by simp
  have rn': "?r \<notin> set ns" using rn rb by metis
  have sz: "hsize ?h x = (if x = p then ?k else hsize h x)" if "x \<in> set ns" for x using that rn' by auto
  have be: "blk_end ?h x = (if x = p then ?r else blk_end h x)" if "x \<in> set ns" for x using sz[OF that] by (simp add: blk_end_def)
  have bf: "blk_before ?h x y" if "x \<in> set ns" "blk_before h x y" for x y
    using that be[OF that(1)] r n by (cases "x = p") (auto simp: blk_before_def blk_end_def)
  have f: "flist ?h ns"
  proof (rule flistI)
    have "linked ?h ns (mbase h) = linked h ns (mbase h)" by (rule linked_cong) simp
    then show "linked ?h ns (mbase ?h)" using e(1) by simp
    show "sorted_wrt (blk_before ?h) ns" using e(2) by (rule sorted_wrt_mono_rel[rotated]) (rule bf)
    show "hsize ?h (mbase ?h) = 0" using e(3) pb rb by simp
    show "0 < hsize ?h x" if "x \<in> set (tl ns)" for x
      using sz[of x] e(11)[OF that] that n by (cases ns) auto
  qed (use e p in auto)
  have m: "blk_mem ?h x = (if x = p then {p..<?r} else blk_mem h x)" if "x \<in> set ns" for x
    using be[OF that] unfolding blk_mem_def by auto
  have br: "blk_mem ?h ?r = {?r..<blk_end h p}" using r(2) by (auto simp: blk_mem_def blk_end_def)
  have pm: "blk_mem h p = {p..<?r} \<union> {?r..<blk_end h p}" using r by (auto simp: blk_mem_def)
  have fm: "free_mem ?h ns = {p..<?r} \<union> (\<Union>x \<in> set ns - {p}. blk_mem h x)" using m p(1) unfolding free_mem_def by auto
  have "free_mem h ns = blk_mem h p \<union> (\<Union>x \<in> set ns - {p}. blk_mem h x)" using p(1) unfolding free_mem_def by auto
  then have u: "blk_mem ?h ?r \<union> free_mem ?h ns = free_mem h ns" unfolding fm br pm by auto
  have "blk_mem h p \<inter> blk_mem h x = {}" if "x \<in> set ns - {p}" for x using that blocks_apart[OF fl p(1), of x] by auto
  then have i: "blk_mem ?h ?r \<inter> free_mem ?h ns = {}" unfolding fm br using pm by fastforce
  have "take_block n prev p h = (?r + 16, ?h)" using n by (simp add: take_block_def Let_def blk_end_def)
  then show ?thesis using f u i e(4) e(9)[OF p(1)] unfolding gives_def by (intro exI[of _ ns]) simp
qed

lemma take_block_gives:
  assumes fl: "flist h ns" and pr: "prev \<in> set ns" "hptr h prev = p" and n: "n \<le> hsize h p" "0 < n"
  shows "gives n (free_mem h ns) (take_block n prev p h)"
proof -
  obtain as bs where ns: "ns = as @ prev # bs" using split_list[OF pr(1)] by blast
  have "p \<noteq> mbase h" using n flistD(3)[OF fl] by auto
  then obtain cs where bs: "bs = p # cs" using flist_parts(2)[OF fl[unfolded ns]] pr(2) by (cases bs) auto
  then have p: "p \<in> set ns" using ns by simp
  show ?thesis
  proof (cases "hsize h p = n")
    case True
    then show ?thesis using take_block_exact[OF fl[unfolded ns bs]] n ns bs by simp
  next
    case False
    then show ?thesis using take_block_split[OF fl p pr(1)] n by simp
  qed
qed

text \<open>The search goes once around the circle, from the node after \<open>q\<close> to the node \<open>freep\<close>.\<close>

lemma malloc_loop_fit:
  assumes fl: "flist h ns" and n: "0 < n"
  shows "linked h (q # cs) e \<Longrightarrow> set (q # cs) \<subseteq> set ns \<Longrightarrow> cs \<noteq> [] \<Longrightarrow> freep h \<notin> set (butlast cs) \<Longrightarrow> \<exists>x \<in> set cs. n \<le> hsize h x \<Longrightarrow>
    \<exists>r. malloc_loop S n q (hd cs) h w = Some (Done r w) \<and> gives n (free_mem h ns) r"
proof (induction cs arbitrary: q)
  case (Cons p cs)
  show ?case
  proof (cases "n \<le> hsize h p")
    case True
    then have "malloc_loop S n q p h w = Some (Done (take_block n q p h) w)" by (subst malloc_loop.simps) simp
    then show ?thesis using take_block_gives[OF fl _ _ True n, of q] Cons.prems by simp
  next
    case False
    then have ne: "cs \<noteq> []" using Cons.prems(5) by auto
    then have "p \<noteq> freep h" using Cons.prems(4) by auto
    then have "malloc_loop S n q p h w = malloc_loop S n p (hptr h p) h w" using False by (subst malloc_loop.simps) simp
    moreover have "hptr h p = hd cs" using Cons.prems(1) ne by simp
    ultimately show ?thesis using Cons.IH[of p] Cons.prems ne False by auto
  qed
qed simp

lemma malloc_loop_none:
  shows "linked h (q # cs) e \<Longrightarrow> cs \<noteq> [] \<Longrightarrow> freep h \<notin> set (butlast cs) \<Longrightarrow> last cs = freep h \<Longrightarrow> \<forall>x \<in> set cs. hsize h x < n \<Longrightarrow>
    malloc_loop S n q (hd cs) h w = ubind (morecore S n h) (\<lambda>r.
        if fst r = 0 then uret (0, snd r) else malloc_loop S n (fst r) (hptr (snd r) (fst r)) (snd r)) w"
proof (induction cs arbitrary: q)
  case (Cons p cs)
  show ?case
  proof (cases "cs = []")
    case True
    then show ?thesis using Cons.prems by (subst malloc_loop.simps) simp
  next
    case False
    then have "p \<noteq> freep h" using Cons.prems(3) by auto
    then have "malloc_loop S n q p h w = malloc_loop S n p (hptr h p) h w" using Cons.prems(5) by (subst malloc_loop.simps) simp
    moreover have "hptr h p = hd cs" using Cons.prems(1) False by simp
    ultimately show ?thesis using Cons.IH[of p] Cons.prems False by simp
  qed
qed simp

lemma circle:
  assumes fl: "flist h ns"
  shows "\<exists>cs e. linked h (freep h # cs) e \<and> set cs = set ns \<and> cs \<noteq> [] \<and> freep h \<notin> set (butlast cs) \<and> last cs = freep h \<and> hd cs = hptr h (freep h)"
proof -
  note d = flistD[OF fl]
  obtain as bs where ns: "ns = as @ freep h # bs" using split_list[OF d(5)] by blast
  note p = flist_parts[OF fl[unfolded ns]]
  let ?cs = "bs @ as @ [freep h]"
  have "linked h ((freep h # bs) @ hd (as @ [freep h]) # tl (as @ [freep h])) (hptr h (freep h))"
    unfolding linked_append
  proof
    have "hd (as @ [freep h]) = mbase h" using d(7) ns by (cases as) auto
    then show "linked h (freep h # bs) (hd (as @ [freep h]))" using d(1) unfolding ns linked_append by simp
    have "linked h (as @ [freep h]) (hptr h (freep h))" using p(1) by (simp add: linked_append)
    then show "linked h (hd (as @ [freep h]) # tl (as @ [freep h])) (hptr h (freep h))" by (cases as) simp_all
  qed
  moreover have "(freep h # bs) @ hd (as @ [freep h]) # tl (as @ [freep h]) = freep h # ?cs" by (cases as) simp_all
  ultimately have l: "linked h (freep h # ?cs) (hptr h (freep h))" by metis
  have "freep h \<notin> set (butlast ?cs)" using d(8) ns by (simp add: butlast_append)
  moreover have "hd ?cs = hptr h (freep h)" using l by (auto split: if_splits)
  ultimately show ?thesis using l ns by (intro exI[of _ ?cs] exI[of _ "hptr h (freep h)"]) auto
qed

lemma malloc_loop_finds:
  assumes fl: "flist h ns" and n: "0 < n" and x: "x \<in> set ns" "n \<le> hsize h x"
  shows "\<exists>r. malloc_loop S n (freep h) (hptr h (freep h)) h w = Some (Done r w) \<and> gives n (free_mem h ns) r"
proof -
  obtain cs e where c: "linked h (freep h # cs) e" "set cs = set ns" "cs \<noteq> []" "freep h \<notin> set (butlast cs)" "hd cs = hptr h (freep h)"
    using circle[OF fl] by blast
  then show ?thesis using malloc_loop_fit[OF fl n c(1), of S w] x flistD(5)[OF fl] by auto
qed

text \<open>\<open>sbrk\<close> fails or returns new memory above everything the allocator has.\<close>

definition sbrk_grows :: "'w sys \<Rightarrow> mheap \<Rightarrow> nat list \<Rightarrow> 'w \<Rightarrow> bool" where
  "sbrk_grows S h ns w \<longleftrightarrow> (\<forall>n. fst (u_sbrk S n w) \<noteq> -1 \<longrightarrow>
     mbase h < unat (fst (u_sbrk S n w)) \<and> (\<forall>x \<in> set ns. blk_end h x \<le> unat (fst (u_sbrk S n w))))"

lemma morecore_adds:
  assumes fl: "flist h ns" and g: "sbrk_grows S h ns w" and n: "0 < n"
  shows "\<exists>w' h' ns'. flist h' ns' \<and> ((morecore S n h w = Some (Done (0, h) w') \<and> h' = h \<and> ns' = ns) \<or>
    (morecore S n h w = Some (Done (freep h', h') w') \<and> (\<exists>x \<in> set ns'. n \<le> hsize h' x) \<and>
     (\<exists>a. free_mem h' ns' = free_mem h ns \<union> {a..<a + 16 * max n 4096} \<and> (\<forall>x \<in> set ns. blk_end h x \<le> a) \<and>
        a = unat (fst (u_sbrk S (sint (of_nat (max n 4096 * 16) :: u32)) w)))))"
proof -
  let ?nu = "max n 4096"
  have nu: "(if n < 4096 then 4096 else n) = ?nu" by auto
  obtain a w' where a: "u_sbrk S (sint (of_nat (?nu * 16) :: u32)) w = (a, w')" by fastforce
  show ?thesis
  proof (cases "a = -1")
    case True
    then have "morecore S n h w = Some (Done (0, h) w')" using a by (simp add: morecore_def nu Let_def)
    then show ?thesis using fl by blast
  next
    case False
    let ?a = "unat a" let ?g = "set_size ?a ?nu h"
    have up: "mbase h < ?a" "\<forall>x \<in> set ns. blk_end h x \<le> ?a" using g False a unfolding sbrk_grows_def by (metis fst_conv)+
    have new: "?a \<notin> set ns"
      using up flistD(10)[OF fl] by (metis add_le_same_cancel1 blk_end_def le_zero_eq mult_is_0 nat_less_le not_less zero_neq_numeral)
    have lk: "linked ?g ns (mbase h) = linked h ns (mbase h)" by (rule linked_cong) simp
    have be: "blk_end ?g x = blk_end h x" "blk_mem ?g x = blk_mem h x" if "x \<in> set ns" for x
      using that new by (auto simp: blk_end_def blk_mem_def)
    have "sorted_wrt (blk_before ?g) ns"
      using flistD(2)[OF fl] by (rule sorted_wrt_mono_rel[rotated]) (simp add: blk_before_def be)
    then have f: "flist ?g ns"
      using fl lk new up(1) unfolding flist_def by auto
    have fm: "free_mem ?g ns = free_mem h ns" using be unfolding free_mem_def by simp
    have bm: "blk_mem ?g ?a = {?a..<?a + 16 * ?nu}" by (simp add: blk_mem_def blk_end_def)
    have "x \<notin> {?a..<?a + 16 * ?nu}" if "x \<in> blk_mem h y" "y \<in> set ns" for x y using that up(2) by (fastforce simp: blk_mem_def)
    then have dis: "blk_mem ?g ?a \<inter> free_mem ?g ns = {}" unfolding fm bm by (auto simp: free_mem_def)
    obtain h' ns' where h': "free (?a + 16) ?g = Some h'" "flist h' ns'" "free_mem h' ns' = free_mem ?g ns \<union> blk_mem ?g ?a"
        "\<exists>x \<in> set ns'. hsize ?g ?a \<le> hsize h' x"
      using free_Some[OF f _ _ dis] up(1) by (auto simp: less_max_iff_disj)
    have "\<exists>x \<in> set ns'. n \<le> hsize h' x" using h'(4) by (auto intro: order_trans)
    moreover have "morecore S n h w = Some (Done (freep h', h') w')" using a False h'(1) by (simp add: morecore_def nu Let_def)
    ultimately show ?thesis using h'(2,3) fm bm up(2) a by (intro exI[of _ w'] exI[of _ h'] exI[of _ ns']) auto
  qed
qed


text \<open>A heap with one free block, of eight headers at address 4096.\<close>

definition small_heap :: mheap where
  "small_heap = \<lparr>hptr = (\<lambda>_. 0)(16 := 4096, 4096 := 16), hsize = (\<lambda>_. 0)(4096 := 8, 8192 := 4), mbase = 16, freep = 16\<rparr>"

lemma small_heap_list: "flist small_heap [16, 4096]"
  by (rule flistI) (auto simp: small_heap_def blk_before_def blk_end_def)




end
