(* ===== verification/Shell.thy ===== *)
theory Shell
  imports Uprintf
begin

text \<open>
  The shell (\<open>sh.c\<close>): the parser of command lines and the interpreter of parsed commands. A command
  line is the list of its bytes before the terminator, and the pointers of the parser are positions in
  it; a position at the end reads the terminator. Allocation of the nodes of a parsed command is assumed
  to succeed, as \<open>sh.c\<close> does.
\<close>

section \<open>Commands\<close>

text \<open>The pairs are the pointers \<open>argv[i]\<close> and \<open>eargv[i]\<close>, \<open>file\<close> and \<open>efile\<close>.\<close>

datatype cmd =
    EXEC "(nat \<times> nat) list"
  | REDIR cmd "nat \<times> nat" u32 int
  | PIPE cmd cmd
  | LIST cmd cmd
  | BACK cmd
  | SCRIPT "byte list"

definition MAXARGS :: nat where "MAXARGS = 10"
definition MAXSCRIPT :: nat where "MAXSCRIPT = 1024"

section \<open>Tokens\<close>

definition whitespace :: "byte list" where
  "whitespace = [32, 9, 13, 10, 11, 0]"

definition symbols :: "byte list" where
  "symbols = bytes_of ''<|>&;()'' @ [0]"

definition is_in :: "byte list \<Rightarrow> byte \<Rightarrow> bool" where
  "is_in cs c \<longleftrightarrow> strchr cs c \<noteq> Some None"

text \<open>The byte at a position: the terminator at the end.\<close>

definition at :: "byte list \<Rightarrow> nat \<Rightarrow> byte" where
  "at buf s = (if s < length buf then buf ! s else 0)"

function skip_ws :: "byte list \<Rightarrow> nat \<Rightarrow> nat" where
  "skip_ws buf s = (if s < length buf \<and> is_in whitespace (at buf s) then skip_ws buf (s + 1) else s)"
  by pat_completeness auto
termination by (relation "measure (\<lambda>(buf, s). length buf - s)") auto

function skip_word :: "byte list \<Rightarrow> nat \<Rightarrow> nat" where
  "skip_word buf s =
     (if s < length buf \<and> \<not> is_in whitespace (at buf s) \<and> \<not> is_in symbols (at buf s) then skip_word buf (s + 1) else s)"
  by pat_completeness auto
termination by (relation "measure (\<lambda>(buf, s). length buf - s)") auto

declare skip_ws.simps [simp del] skip_word.simps [simp del]

text \<open>The result of \<open>gettoken\<close> with the token's bounds and the new position.\<close>

record token =
  tk_ret :: byte
  tk_q :: nat
  tk_eq :: nat
  tk_s :: nat

definition gettoken :: "byte list \<Rightarrow> nat \<Rightarrow> token" where
  "gettoken buf ps =
     (let q = skip_ws buf ps;
          c = at buf q;
          (ret, s) =
            (if c = 0 then (c, q)
             else if c \<in> set (bytes_of ''|();&<'') then (c, q + 1)
             else if c = of_char CHR ''>'' then
               (if at buf (q + 1) = of_char CHR ''>'' then (of_char CHR ''+'', q + 2) else (c, q + 1))
             else (of_char CHR ''a'', skip_word buf q))
      in \<lparr>tk_ret = ret, tk_q = q, tk_eq = s, tk_s = skip_ws buf s\<rparr>)"

definition peek :: "byte list \<Rightarrow> nat \<Rightarrow> byte list \<Rightarrow> bool \<times> nat" where
  "peek buf ps toks =
     (let s = skip_ws buf ps
      in (at buf s \<noteq> 0 \<and> is_in (toks @ [0]) (at buf s), s))"

section \<open>The parser\<close>

text \<open>
  A parsing function returns the message of a \<open>panic\<close>, or its result and the new position. The recursion
  of the parser is bounded by fuel; running out of it is \<^const>\<open>None\<close>.
\<close>

type_synonym 'a parse = "(string + 'a \<times> nat) option"

definition pbind :: "'a parse \<Rightarrow> ('a \<Rightarrow> nat \<Rightarrow> 'b parse) \<Rightarrow> 'b parse" where
  "pbind m f = (case m of None \<Rightarrow> None | Some (Inl e) \<Rightarrow> Some (Inl e) | Some (Inr (x, s)) \<Rightarrow> f x s)"

definition pret :: "'a \<Rightarrow> nat \<Rightarrow> 'a parse" where
  "pret x s = Some (Inr (x, s))"

definition ppanic :: "string \<Rightarrow> 'a parse" where
  "ppanic e = Some (Inl e)"

text \<open>A redirection, to be wrapped around the command that \<open>parseredirs\<close> is called with.\<close>

type_synonym redir = "(nat \<times> nat) \<times> u32 \<times> int"

definition wrap :: "cmd \<Rightarrow> redir list \<Rightarrow> cmd" where
  "wrap c rs = foldl (\<lambda>c r. REDIR c (fst r) (fst (snd r)) (snd (snd r))) c rs"

definition redir_of :: "byte \<Rightarrow> nat \<times> nat \<Rightarrow> redir list" where
  "redir_of tok qe =
     (if tok = of_char CHR ''<'' then [(qe, O_RDONLY, 0)]
      else if tok = of_char CHR ''>'' then [(qe, O_WRONLY OR O_CREATE OR O_TRUNC, 1)]
      else if tok = of_char CHR ''+'' then [(qe, O_WRONLY OR O_CREATE, 1)]
      else [])"

fun parseredirs :: "nat \<Rightarrow> byte list \<Rightarrow> redir list \<Rightarrow> nat \<Rightarrow> redir list parse" where
  "parseredirs 0 buf rs ps = None"
| "parseredirs (Suc n) buf rs ps =
     (let (more, ps) = peek buf ps (bytes_of ''<>'')
      in if more then
           let t = gettoken buf ps;
               f = gettoken buf (tk_s t)
           in if tk_ret f \<noteq> of_char CHR ''a'' then ppanic ''missing file for redirection''
              else parseredirs n buf (rs @ redir_of (tk_ret t) (tk_q f, tk_eq f)) (tk_s f)
         else pret rs ps)"

text \<open>The loop of \<open>parseexec\<close> over the arguments, with the redirections met so far.\<close>

fun parseargs :: "nat \<Rightarrow> byte list \<Rightarrow> (nat \<times> nat) list \<Rightarrow> redir list \<Rightarrow> nat \<Rightarrow> cmd parse" where
  "parseargs 0 buf args rs ps = None"
| "parseargs (Suc n) buf args rs ps =
     (let (stop, ps) = peek buf ps (bytes_of ''|)&;'')
      in if stop then pret (wrap (EXEC args) rs) ps
         else
           let t = gettoken buf ps
           in if tk_ret t = 0 then pret (wrap (EXEC args) rs) (tk_s t)
              else if tk_ret t \<noteq> of_char CHR ''a'' then ppanic ''syntax''
              else if length args + 1 \<ge> MAXARGS then ppanic ''too many args''
              else pbind (parseredirs n buf rs (tk_s t)) (\<lambda>rs ps.
                   parseargs n buf (args @ [(tk_q t, tk_eq t)]) rs ps))"

text \<open>The loop of \<open>parseline\<close> over \<open>&\<close>.\<close>

fun parseback :: "nat \<Rightarrow> byte list \<Rightarrow> cmd \<Rightarrow> nat \<Rightarrow> cmd parse" where
  "parseback 0 buf c ps = None"
| "parseback (Suc n) buf c ps =
     (let (more, ps) = peek buf ps (bytes_of ''&'')
      in if more then parseback n buf (BACK c) (tk_s (gettoken buf ps)) else pret c ps)"

fun parseline :: "nat \<Rightarrow> byte list \<Rightarrow> nat \<Rightarrow> cmd parse"
  and parsepipe :: "nat \<Rightarrow> byte list \<Rightarrow> nat \<Rightarrow> cmd parse"
  and parseexec :: "nat \<Rightarrow> byte list \<Rightarrow> nat \<Rightarrow> cmd parse"
  and parseblock :: "nat \<Rightarrow> byte list \<Rightarrow> nat \<Rightarrow> cmd parse" where
  "parseline 0 buf ps = None"
| "parseline (Suc n) buf ps =
     pbind (parsepipe n buf ps) (\<lambda>c ps.
     pbind (parseback n buf c ps) (\<lambda>c ps.
     let (more, ps) = peek buf ps (bytes_of '';'')
     in if more then
          pbind (parseline n buf (tk_s (gettoken buf ps))) (\<lambda>d ps.
          pret (LIST c d) ps)
        else pret c ps))"
| "parsepipe 0 buf ps = None"
| "parsepipe (Suc n) buf ps =
     pbind (parseexec n buf ps) (\<lambda>c ps.
     let (more, ps) = peek buf ps (bytes_of ''|'')
     in if more then
          pbind (parsepipe n buf (tk_s (gettoken buf ps))) (\<lambda>d ps.
          pret (PIPE c d) ps)
        else pret c ps)"
| "parseexec 0 buf ps = None"
| "parseexec (Suc n) buf ps =
     (let (block, ps) = peek buf ps (bytes_of ''('')
      in if block then parseblock n buf ps
         else
           pbind (parseredirs n buf [] ps) (\<lambda>rs ps.
           parseargs n buf [] rs ps))"
| "parseblock 0 buf ps = None"
| "parseblock (Suc n) buf ps =
     (let (block, ps) = peek buf ps (bytes_of ''('')
      in if \<not> block then ppanic ''parseblock''
         else
           pbind (parseline n buf (tk_s (gettoken buf ps))) (\<lambda>c ps.
           let (close, ps) = peek buf ps (bytes_of '')'')
           in if \<not> close then ppanic ''syntax - missing )''
              else
                pbind (parseredirs n buf [] (tk_s (gettoken buf ps))) (\<lambda>rs ps.
                pret (wrap c rs) ps)))"

text \<open>\<open>nulterminate\<close>: the line with a terminator after every word of the command.\<close>

fun nulterminate :: "cmd \<Rightarrow> byte list \<Rightarrow> byte list" where
  "nulterminate (EXEC args) buf = foldl (\<lambda>buf a. buf[snd a := 0]) buf args"
| "nulterminate (REDIR c f mode fd) buf = (nulterminate c buf)[snd f := 0]"
| "nulterminate (PIPE l r) buf = nulterminate r (nulterminate l buf)"
| "nulterminate (LIST l r) buf = nulterminate r (nulterminate l buf)"
| "nulterminate (BACK c) buf = nulterminate c buf"
| "nulterminate (SCRIPT f) buf = buf"

definition parse_fuel :: "byte list \<Rightarrow> nat" where
  "parse_fuel buf = 4 * length buf + 4"

text \<open>\<open>parsecmd\<close> on the line \<open>buf\<close>: a syntax error, or the command and the line with its terminators.\<close>

definition parsecmd :: "byte list \<Rightarrow> (string + cmd \<times> byte list) option" where
  "parsecmd buf =
     (case parseline (parse_fuel buf) buf 0 of
        None \<Rightarrow> None
      | Some (Inl e) \<Rightarrow> Some (Inl e)
      | Some (Inr (c, s)) \<Rightarrow>
          (if snd (peek buf s []) \<noteq> length buf then Some (Inl ''syntax'')
           else Some (Inr (c, nulterminate c (buf @ [0])))))"

section \<open>The interpreter\<close>

definition sh_panic :: "'w sys \<Rightarrow> byte list \<Rightarrow> ('w, 'a) prog" where
  "sh_panic S msg = ubind (fprintf S 2 (bytes_of ''%s\<newline>'') [UStr (Some (msg @ [0]))]) (\<lambda>_. uexit 1)"

definition fork1 :: "'w sys \<Rightarrow> ('w, int) prog" where
  "fork1 S = ubind (usys (u_fork S)) (\<lambda>pid. if pid = -1 then sh_panic S (bytes_of ''fork'') else uret pid)"

text \<open>The string at a position of the terminated line.\<close>

definition str_at :: "byte list \<Rightarrow> nat \<Rightarrow> byte list" where
  "str_at buf q = takeWhile (\<lambda>c. c \<noteq> 0) (drop q buf)"

text \<open>\<open>runcmd\<close> ends the process; \<open>E\<close> is \<open>execscript\<close>.\<close>

primrec runcmd :: "'w sys \<Rightarrow> (byte list \<Rightarrow> ('w, unit) prog) \<Rightarrow> byte list \<Rightarrow> cmd \<Rightarrow> ('w, unit) prog" where
  "runcmd S E buf (EXEC args) =
     (if args = [] then uexit 1
      else
        ubind (usys (u_exec S (str_at buf (fst (hd args)) @ [0]) (map (\<lambda>a. str_at buf (fst a) @ [0]) args))) (\<lambda>_.
        ubind (fprintf S 2 (bytes_of ''exec %s failed\<newline>'') [UStr (Some (str_at buf (fst (hd args)) @ [0]))]) (\<lambda>_.
        uexit 0)))"
| "runcmd S E buf (REDIR c f mode fd) =
     ubind (usys (u_close S fd)) (\<lambda>_.
     ubind (usys (u_open S (str_at buf (fst f) @ [0]) mode)) (\<lambda>r.
     if r < 0 then
       ubind (fprintf S 2 (bytes_of ''open %s failed\<newline>'') [UStr (Some (str_at buf (fst f) @ [0]))]) (\<lambda>_. uexit 1)
     else ubind (runcmd S E buf c) (\<lambda>_. uexit 0)))"
| "runcmd S E buf (PIPE l r) =
     ubind (usys (u_pipe S)) (\<lambda>p.
     case p of (res, p0, p1) \<Rightarrow>
     if res < 0 then sh_panic S (bytes_of ''pipe'')
     else
     ubind (fork1 S) (\<lambda>pid.
     ubind (if pid = 0 then
         ubind (usys (u_close S 1)) (\<lambda>_.
         ubind (usys (u_dup S p1)) (\<lambda>_.
         ubind (usys (u_close S p0)) (\<lambda>_.
         ubind (usys (u_close S p1)) (\<lambda>_.
         runcmd S E buf l))))
       else uret ()) (\<lambda>_.
     ubind (fork1 S) (\<lambda>pid.
     ubind (if pid = 0 then
         ubind (usys (u_close S 0)) (\<lambda>_.
         ubind (usys (u_dup S p0)) (\<lambda>_.
         ubind (usys (u_close S p0)) (\<lambda>_.
         ubind (usys (u_close S p1)) (\<lambda>_.
         runcmd S E buf r))))
       else uret ()) (\<lambda>_.
     ubind (usys (u_close S p0)) (\<lambda>_.
     ubind (usys (u_close S p1)) (\<lambda>_.
     ubind (usys (u_wait S)) (\<lambda>_.
     ubind (usys (u_wait S)) (\<lambda>_.
     uexit 0)))))))))"
| "runcmd S E buf (LIST l r) =
     ubind (fork1 S) (\<lambda>pid.
     ubind (if pid = 0 then runcmd S E buf l else uret ()) (\<lambda>_.
     ubind (usys (u_wait S)) (\<lambda>_.
     ubind (runcmd S E buf r) (\<lambda>_.
     uexit 0))))"
| "runcmd S E buf (BACK c) =
     ubind (fork1 S) (\<lambda>pid.
     ubind (if pid = 0 then runcmd S E buf c else uret ()) (\<lambda>_.
     uexit 0))"
| "runcmd S E buf (SCRIPT f) = ubind (E f) (\<lambda>_. uexit 0)"

text \<open>\<open>runcmd(parsecmd(buf))\<close>, which ends the process.\<close>

definition run_line :: "'w sys \<Rightarrow> (byte list \<Rightarrow> ('w, unit) prog) \<Rightarrow> byte list \<Rightarrow> ('w, unit) prog" where
  "run_line S E line =
     (case parsecmd line of
        None \<Rightarrow> (\<lambda>w. None)
      | Some (Inl msg) \<Rightarrow> sh_panic S (bytes_of msg)
      | Some (Inr (c, buf)) \<Rightarrow> runcmd S E buf c)"

lemma runcmd_mono:
  assumes "\<And>f w. mono_option (\<lambda>F. E F f w)"
  shows "mono_option (\<lambda>F. runcmd S (E F) buf c w)"
proof (induction c arbitrary: w)
  case (PIPE l r)
  show ?case unfolding runcmd.simps
    by (intro ubind_mono if_app_mono PIPE option.const_mono) (auto intro!: ubind_mono if_app_mono PIPE option.const_mono split: prod.split)
qed (auto intro!: ubind_mono if_app_mono assms option.const_mono)

lemma run_line_mono [partial_function_mono]:
  assumes "\<And>f w. mono_option (\<lambda>F. E F f w)"
  shows "mono_option (\<lambda>F. run_line S (E F) line w)"
proof (cases "parsecmd line")
  case (Some r)
  then show ?thesis using runcmd_mono[of E, OF assms] by (cases r) (auto simp: run_line_def option.const_mono split_beta)
qed (simp add: run_line_def option.const_mono)

lemma case_app_mono [partial_function_mono]:
  "mono_option (\<lambda>F. B F w) \<Longrightarrow> (\<And>x. mono_option (\<lambda>F. C x F w)) \<Longrightarrow>
   mono_option (\<lambda>F. (case r of None \<Rightarrow> B F | Some x \<Rightarrow> C x F) w)"
  by (cases r) simp_all

definition open_script :: "'w sys \<Rightarrow> byte list \<Rightarrow> (int \<Rightarrow> ('w, unit) prog) \<Rightarrow> ('w, unit) prog" where
  "open_script S f body =
     ubind (usys (u_open S (f @ [0]) O_RDONLY)) (\<lambda>fd.
     if fd < 0 then ubind (fprintf S 2 (bytes_of ''cannot open script %s\<newline>'') [UStr (Some (f @ [0]))]) (\<lambda>_. uexit 1)
     else body fd)"

lemma open_script_mono [partial_function_mono]:
  "(\<And>fd w. mono_option (\<lambda>F. B F fd w)) \<Longrightarrow> mono_option (\<lambda>F. open_script S f (B F) w)"
  unfolding open_script_def by (intro ubind_mono if_app_mono option.const_mono)

text \<open>The loop of \<open>execscript\<close>; \<open>cur\<close> are the bytes of \<open>buf\<close> before \<open>p\<close>.\<close>

partial_function (option) script_loop :: "'w sys \<Rightarrow> int \<Rightarrow> byte list \<Rightarrow> 'w \<Rightarrow> ('w, unit) ures option" where
  "script_loop S fd cur w =
     ubind (usys (u_read S fd 1)) (\<lambda>r.
     if fst r > 0 then
       if hd (snd r) = 10 then
         ubind (if str_at (cur @ [0]) 0 \<noteq> [] then
             ubind (fork1 S) (\<lambda>pid.
             ubind (if pid = 0 then run_line S (\<lambda>f. open_script S f (\<lambda>fd. script_loop S fd [])) (str_at (cur @ [0]) 0) else uret ()) (\<lambda>_.
             usys (u_wait S)))
           else uret 0) (\<lambda>_.
         script_loop S fd [])
       else if length cur + 1 \<ge> MAXSCRIPT - 1 then
         ubind (fprintf S 2 (bytes_of ''script too long\<newline>'') []) (\<lambda>_. uexit 1)
       else script_loop S fd (cur @ [hd (snd r)])
     else ubind (usys (u_close S fd)) (\<lambda>_. uret ())) w"

definition execscript :: "'w sys \<Rightarrow> byte list \<Rightarrow> ('w, unit) prog" where
  "execscript S f = open_script S f (\<lambda>fd. script_loop S fd [])"

section \<open>The main loop\<close>

definition getcmd :: "'w sys \<Rightarrow> ('w, byte list option) prog" where
  "getcmd S =
     ubind (usys (u_write S 2 (bytes_of ''$ ''))) (\<lambda>_.
     ubind (gets S 100) (\<lambda>buf.
     uret (if hd buf = 0 then None else Some (str_at buf 0))))"

partial_function (option) open_console :: "'w sys \<Rightarrow> 'w \<Rightarrow> ('w, unit) ures option" where
  "open_console S w =
     ubind (usys (u_open S (bytes_of ''console'' @ [0]) O_RDWR)) (\<lambda>fd.
     if fd \<ge> 0 then
       if fd \<ge> 3 then ubind (usys (u_close S fd)) (\<lambda>_. uret ()) else open_console S
     else uret ()) w"

text \<open>One command line; the built-in \<open>cd\<close> and the scripts \<open>./f\<close> overwrite the last byte, the newline.\<close>

definition do_line :: "'w sys \<Rightarrow> byte list \<Rightarrow> ('w, unit) prog" where
  "do_line S line =
     (if take 3 line = bytes_of ''cd '' then
        ubind (usys (u_chdir S (drop 3 (butlast line) @ [0]))) (\<lambda>r.
        if r < 0 then fprintf S 2 (bytes_of ''cannot cd %s\<newline>'') [UStr (Some (drop 3 (butlast line) @ [0]))] else uret ())
      else if take 2 line = bytes_of ''./'' then
        ubind (fork1 S) (\<lambda>pid.
        ubind (if pid = 0 then ubind (execscript S (drop 2 (butlast line))) (\<lambda>_. uexit 1) else uret ()) (\<lambda>_.
        ubind (usys (u_wait S)) (\<lambda>_.
        uret ())))
      else
        ubind (fork1 S) (\<lambda>pid.
        ubind (if pid = 0 then run_line S (execscript S) line else uret ()) (\<lambda>_.
        ubind (usys (u_wait S)) (\<lambda>_.
        uret ()))))"

partial_function (option) main_loop :: "'w sys \<Rightarrow> 'w \<Rightarrow> ('w, unit) ures option" where
  "main_loop S w =
     ubind (getcmd S) (\<lambda>r.
     case r of None \<Rightarrow> uret () | Some line \<Rightarrow> ubind (do_line S line) (\<lambda>_. main_loop S)) w"

definition main :: "'w sys \<Rightarrow> ('w, unit) prog" where
  "main S = ubind (open_console S) (\<lambda>_. ubind (main_loop S) (\<lambda>_. uexit 0))"

section \<open>Tokens advance\<close>

definition word_char :: "byte \<Rightarrow> bool" where
  "word_char c \<longleftrightarrow> c \<noteq> 0 \<and> \<not> is_in whitespace c \<and> \<not> is_in symbols c"

lemma is_in_0 [simp]: "is_in whitespace 0 = False" "is_in symbols 0 = False"
  by (simp_all add: is_in_def whitespace_def symbols_def bytes_of_def)

lemma at_nz: "at buf s \<noteq> 0 \<Longrightarrow> s < length buf"
  by (simp add: at_def split: if_splits)

lemma skip_ws_bounds: "s \<le> length buf \<Longrightarrow> s \<le> skip_ws buf s \<and> skip_ws buf s \<le> length buf"
proof (induction buf s rule: skip_ws.induct)
  case (1 buf s)
  show ?case using 1 by (subst (1 2) skip_ws.simps) auto
qed

lemma skip_ws_stop: "\<not> is_in whitespace (at buf (skip_ws buf s))"
proof (induction buf s rule: skip_ws.induct)
  case (1 buf s)
  show ?case using 1 by (subst skip_ws.simps) (auto simp: at_def)
qed

lemma skip_ws_id: "\<not> is_in whitespace (at buf s) \<Longrightarrow> skip_ws buf s = s"
  by (subst skip_ws.simps) simp

lemma skip_word_stop:
  "s \<le> length buf \<Longrightarrow> s \<le> skip_word buf s \<and> skip_word buf s \<le> length buf \<and>
   (\<forall>i. s \<le> i \<and> i < skip_word buf s \<longrightarrow> \<not> is_in whitespace (at buf i) \<and> \<not> is_in symbols (at buf i)) \<and>
   (skip_word buf s < length buf \<longrightarrow> is_in whitespace (at buf (skip_word buf s)) \<or> is_in symbols (at buf (skip_word buf s)))"
proof (induction buf s rule: skip_word.induct)
  case (1 buf s)
  show ?case
  proof (cases "s < length buf \<and> \<not> is_in whitespace (at buf s) \<and> \<not> is_in symbols (at buf s)")
    case True
    then have e: "skip_word buf s = skip_word buf (s + 1)" by (subst skip_word.simps) simp
    have ih: "s + 1 \<le> skip_word buf (s + 1)" "skip_word buf (s + 1) \<le> length buf"
      "\<And>i. s + 1 \<le> i \<Longrightarrow> i < skip_word buf (s + 1) \<Longrightarrow> \<not> is_in whitespace (at buf i) \<and> \<not> is_in symbols (at buf i)"
      "skip_word buf (s + 1) < length buf \<Longrightarrow> is_in whitespace (at buf (skip_word buf (s + 1))) \<or> is_in symbols (at buf (skip_word buf (s + 1)))"
      using 1(1)[OF True] True by simp_all
    have "\<not> is_in whitespace (at buf i) \<and> \<not> is_in symbols (at buf i)" if "s \<le> i" "i < skip_word buf (s + 1)" for i
      using ih(3)[of i] that True by (cases "i = s") auto
    then show ?thesis unfolding e using ih(1,2,4) by auto
  next
    case False
    have "skip_word buf s = s" by (subst skip_word.simps) (simp only: False if_False)
    then show ?thesis using False 1(2) by (simp only:) auto
  qed
qed

text \<open>A word of the line: word characters up to the end or to another character.\<close>

definition word_at :: "byte list \<Rightarrow> nat \<times> nat \<Rightarrow> bool" where
  "word_at buf qe \<longleftrightarrow> fst qe < snd qe \<and> snd qe \<le> length buf \<and> (\<forall>i. fst qe \<le> i \<and> i < snd qe \<longrightarrow> \<not> is_in whitespace (at buf i) \<and> \<not> is_in symbols (at buf i)) \<and>
     (snd qe < length buf \<longrightarrow> is_in whitespace (at buf (snd qe)) \<or> is_in symbols (at buf (snd qe)))"

lemma gettoken_bounds:
  assumes "ps \<le> length buf"
  defines "t \<equiv> gettoken buf ps"
  shows "tk_s t \<le> length buf" and "ps \<le> tk_s t" and "tk_ret t \<noteq> 0 \<Longrightarrow> ps < tk_s t"
    and "tk_ret t = of_char CHR ''a'' \<Longrightarrow> word_at buf (tk_q t, tk_eq t)"
    and "at buf (skip_ws buf ps) \<noteq> 0 \<Longrightarrow> tk_ret t \<noteq> 0"
proof -
  let ?q = "skip_ws buf ps" let ?c = "at buf ?q"
  have q: "ps \<le> ?q" "?q \<le> length buf" using skip_ws_bounds[OF assms(1)] by simp_all
  have ws: "\<not> is_in whitespace ?c" by (rule skip_ws_stop)
  define r where "r = (if ?c = 0 then (?c, ?q)
             else if ?c \<in> set (bytes_of ''|();&<'') then (?c, ?q + 1)
             else if ?c = of_char CHR ''>'' then
               (if at buf (?q + 1) = of_char CHR ''>'' then (of_char CHR ''+'', ?q + 2) else (?c, ?q + 1))
             else (of_char CHR ''a'', skip_word buf ?q))"
  have t: "tk_ret t = fst r" "tk_q t = ?q" "tk_eq t = snd r" "tk_s t = skip_ws buf (snd r)"
    by (simp_all add: t_def gettoken_def Let_def split_beta r_def)
  have sy: "is_in symbols ?c \<longleftrightarrow> ?c \<in> set (bytes_of ''|();&<'') \<or> ?c = of_char CHR ''>''"
    by (auto simp: is_in_def symbols_def bytes_of_def)
  have w: "word_at buf (?q, skip_word buf ?q)" if "?c \<noteq> 0" "\<not> is_in symbols ?c"
  proof -
    have "?q < skip_word buf ?q" using at_nz[OF that(1)] that(2) ws skip_word_stop[of "?q + 1" buf] by (subst skip_word.simps) simp
    then show ?thesis using skip_word_stop[OF q(2)] by (simp add: word_at_def)
  qed
  have g: "at buf (?q + 1) = of_char CHR ''>'' \<Longrightarrow> ?q + 2 \<le> length buf" using at_nz[of buf "?q + 1"] by simp
  have r: "?c = 0 \<and> r = (0, ?q) \<or> ?c \<noteq> 0 \<and> fst r \<noteq> 0 \<and> ?q < snd r \<and> snd r \<le> length buf \<and> (fst r = of_char CHR ''a'' \<longrightarrow> word_at buf (?q, snd r))"
  proof (cases "?c = 0")
    case False
    consider "?c \<in> set (bytes_of ''|();&<'')" | "?c = of_char CHR ''>''" "?c \<notin> set (bytes_of ''|();&<'')" | "\<not> is_in symbols ?c" using sy by blast
    then show ?thesis
    proof cases
      case 1
      then have "r = (?c, ?q + 1)" "?c \<noteq> of_char CHR ''a''" using False by (auto simp: r_def bytes_of_def)
      then show ?thesis using False at_nz[OF False] by simp
    next
      case 2
      then show ?thesis using False at_nz[OF False] g by (auto simp: r_def)
    next
      case 3
      then have "r = (of_char CHR ''a'', skip_word buf ?q)" using False sy by (simp add: r_def)
      then show ?thesis using False w[OF False 3] by (simp add: word_at_def)
    qed
  qed (simp add: r_def)
  have sr: "?q \<le> snd r" "snd r \<le> length buf" using r q(2) by auto
  have b: "snd r \<le> tk_s t" "tk_s t \<le> length buf" using skip_ws_bounds[OF sr(2)] t(4) by simp_all
  show "tk_s t \<le> length buf" by (rule b)
  show "ps \<le> tk_s t" using b q sr by simp
  show "tk_ret t \<noteq> 0 \<Longrightarrow> ps < tk_s t" using r b q t(1) by auto
  show "tk_ret t = of_char CHR ''a'' \<Longrightarrow> word_at buf (tk_q t, tk_eq t)" using r t by auto
  show "?c \<noteq> 0 \<Longrightarrow> tk_ret t \<noteq> 0" using r t by auto
qed

lemma peek_next:
  fixes toks :: "byte list"
  assumes "ps \<le> length buf"
  defines "p \<equiv> peek buf ps toks"
  shows "ps \<le> snd p" and "snd p \<le> length buf" and "fst p \<Longrightarrow> snd p < tk_s (gettoken buf (snd p)) \<and> tk_s (gettoken buf (snd p)) \<le> length buf"
proof -
  let ?s = "skip_ws buf ps"
  have s: "snd p = ?s" "ps \<le> ?s" "?s \<le> length buf" using skip_ws_bounds[OF assms(1)] by (simp_all add: p_def peek_def Let_def)
  then show "ps \<le> snd p" "snd p \<le> length buf" by simp_all
  assume "fst p"
  then have "at buf ?s \<noteq> 0" by (simp add: p_def peek_def Let_def)
  then show "snd p < tk_s (gettoken buf (snd p)) \<and> tk_s (gettoken buf (snd p)) \<le> length buf"
    using gettoken_bounds[OF s(3)] skip_ws_id[OF skip_ws_stop, of buf ps] s(1) by simp
qed

section \<open>The parser returns\<close>

text \<open>A parse that returns: with an error, or with a result satisfying \<open>P\<close> and a position not before \<open>s\<close>.\<close>

definition parses :: "byte list \<Rightarrow> nat \<Rightarrow> ('a \<Rightarrow> bool) \<Rightarrow> 'a parse \<Rightarrow> bool" where
  "parses buf s P r \<longleftrightarrow> (\<exists>e. r = Some (Inl e)) \<or> (\<exists>x s'. r = Some (Inr (x, s')) \<and> s \<le> s' \<and> s' \<le> length buf \<and> P x)"

lemma parses_ret: "P x \<Longrightarrow> s \<le> s' \<Longrightarrow> s' \<le> length buf \<Longrightarrow> parses buf s P (pret x s')"
  by (simp add: parses_def pret_def)

lemma parses_panic: "parses buf s P (ppanic e)"
  by (simp add: parses_def ppanic_def)

lemma parses_bind:
  assumes "parses buf s P m" and "\<And>x s'. P x \<Longrightarrow> s \<le> s' \<Longrightarrow> s' \<le> length buf \<Longrightarrow> parses buf s Q (f x s')"
  shows "parses buf s Q (pbind m f)"
proof -
  consider e where "m = Some (Inl e)" | x s' where "m = Some (Inr (x, s'))" "s \<le> s'" "s' \<le> length buf" "P x"
    using assms(1) unfolding parses_def by blast
  then show ?thesis
  proof cases
    case 1
    then show ?thesis by (simp add: pbind_def parses_def)
  next
    case 2
    then have "pbind m f = f x s'" by (simp add: pbind_def)
    then show ?thesis using assms(2) 2 by simp
  qed
qed

lemma parses_mono: "parses buf s' P m \<Longrightarrow> s \<le> s' \<Longrightarrow> parses buf s P m"
  unfolding parses_def using order_trans by blast

primrec words :: "cmd \<Rightarrow> (nat \<times> nat) list" where
  "words (EXEC args) = args"
| "words (REDIR c f mode fd) = words c @ [f]"
| "words (PIPE l r) = words l @ words r"
| "words (LIST l r) = words l @ words r"
| "words (BACK c) = words c"
| "words (SCRIPT f) = []"

definition redirs_ok :: "byte list \<Rightarrow> redir list \<Rightarrow> bool" where
  "redirs_ok buf rs \<longleftrightarrow> (\<forall>r \<in> set rs. word_at buf (fst r))"

definition cmd_ok :: "byte list \<Rightarrow> cmd \<Rightarrow> bool" where
  "cmd_ok buf c \<longleftrightarrow> (\<forall>a \<in> set (words c). word_at buf a)"

lemma redirs_ok_simps [simp]:
  "redirs_ok buf []" "redirs_ok buf (r # rs) \<longleftrightarrow> word_at buf (fst r) \<and> redirs_ok buf rs"
  "redirs_ok buf (rs @ rs') \<longleftrightarrow> redirs_ok buf rs \<and> redirs_ok buf rs'"
  by (auto simp: redirs_ok_def)

lemma cmd_ok_simps [simp]:
  "cmd_ok buf (EXEC args) \<longleftrightarrow> (\<forall>a \<in> set args. word_at buf a)" "cmd_ok buf (REDIR c f m fd) \<longleftrightarrow> cmd_ok buf c \<and> word_at buf f"
  "cmd_ok buf (PIPE l r) \<longleftrightarrow> cmd_ok buf l \<and> cmd_ok buf r" "cmd_ok buf (LIST l r) \<longleftrightarrow> cmd_ok buf l \<and> cmd_ok buf r"
  "cmd_ok buf (BACK c) \<longleftrightarrow> cmd_ok buf c"
  by (auto simp: cmd_ok_def)

lemma wrap_ok: "cmd_ok buf c \<Longrightarrow> redirs_ok buf rs \<Longrightarrow> cmd_ok buf (wrap c rs)"
  unfolding wrap_def by (induction rs arbitrary: c) simp_all

lemma redir_of_ok: "word_at buf qe \<Longrightarrow> redirs_ok buf (redir_of tok qe)"
  by (simp add: redir_of_def)

lemma parseredirs_ok:
  "ps \<le> length buf \<Longrightarrow> length buf - ps < n \<Longrightarrow> redirs_ok buf rs \<Longrightarrow> parses buf ps (redirs_ok buf) (parseredirs n buf rs ps)"
proof (induction n arbitrary: rs ps)
  case (Suc n)
  obtain more s where p: "peek buf ps (bytes_of ''<>'') = (more, s)" by fastforce
  note b = peek_next[OF Suc.prems(1), of "bytes_of ''<>''", unfolded p fst_conv snd_conv]
  let ?t = "gettoken buf s" let ?f = "gettoken buf (tk_s ?t)"
  show ?case
  proof (cases "more \<and> tk_ret ?f = of_char CHR ''a''")
    case True
    have t: "s < tk_s ?t" "tk_s ?t \<le> length buf" using b(3) True by simp_all
    note f = gettoken_bounds[OF t(2)]
    have "tk_s ?t < tk_s ?f" using f(3) True by simp
    then have "parses buf (tk_s ?f) (redirs_ok buf) (parseredirs n buf (rs @ redir_of (tk_ret ?t) (tk_q ?f, tk_eq ?f)) (tk_s ?f))"
      using Suc.prems(2,3) f(1,4) t b(1) True redir_of_ok by (intro Suc.IH) auto
    then have "parses buf ps (redirs_ok buf) (parseredirs n buf (rs @ redir_of (tk_ret ?t) (tk_q ?f, tk_eq ?f)) (tk_s ?f))"
      by (rule parses_mono) (use b(1) t f(2) in simp)
    then show ?thesis using True by (simp add: p Let_def)
  next
    case False
    then show ?thesis using Suc.prems(3) b(1,2) by (cases more) (simp_all add: p Let_def parses_panic parses_ret)
  qed
qed simp

lemma parseargs_ok:
  "ps \<le> length buf \<Longrightarrow> 2 * (length buf - ps) < n \<Longrightarrow> redirs_ok buf rs \<Longrightarrow> \<forall>a \<in> set args. word_at buf a \<Longrightarrow>
   parses buf ps (cmd_ok buf) (parseargs n buf args rs ps)"
proof (induction n arbitrary: args rs ps)
  case (Suc n)
  obtain stop s where p: "peek buf ps (bytes_of ''|)&;'') = (stop, s)" by fastforce
  note b = peek_next[OF Suc.prems(1), of "bytes_of ''|)&;''", unfolded p fst_conv snd_conv]
  let ?t = "gettoken buf s"
  note t = gettoken_bounds[OF b(2)]
  have fin: "cmd_ok buf (wrap (EXEC args) rs)" using Suc.prems(3,4) by (intro wrap_ok) simp_all
  show ?case
  proof (cases "\<not> stop \<and> tk_ret ?t = of_char CHR ''a'' \<and> length args + 1 < MAXARGS")
    case True
    have w: "word_at buf (tk_q ?t, tk_eq ?t)" using t(4) True by simp
    have lt: "s < tk_s ?t" using t(3) True by simp
    have "parses buf (tk_s ?t) (redirs_ok buf) (parseredirs n buf rs (tk_s ?t))"
      using Suc.prems(2,3) t(1) lt b(1) by (intro parseredirs_ok) auto
    then have "parses buf (tk_s ?t) (cmd_ok buf) (pbind (parseredirs n buf rs (tk_s ?t)) (\<lambda>rs ps. parseargs n buf (args @ [(tk_q ?t, tk_eq ?t)]) rs ps))"
    proof (rule parses_bind)
      fix rs' s' assume r: "redirs_ok buf rs'" "tk_s ?t \<le> s'" "s' \<le> length buf"
      have "parses buf s' (cmd_ok buf) (parseargs n buf (args @ [(tk_q ?t, tk_eq ?t)]) rs' s')"
        using Suc.prems(2,4) r lt b(1) w by (intro Suc.IH) auto
      then show "parses buf (tk_s ?t) (cmd_ok buf) (parseargs n buf (args @ [(tk_q ?t, tk_eq ?t)]) rs' s')"
        using r(2) by (rule parses_mono)
    qed
    then have "parses buf ps (cmd_ok buf) (pbind (parseredirs n buf rs (tk_s ?t)) (\<lambda>rs ps. parseargs n buf (args @ [(tk_q ?t, tk_eq ?t)]) rs ps))"
      by (rule parses_mono) (use b(1) lt in simp)
    then show ?thesis using True by (simp add: p Let_def)
  next
    case False
    then show ?thesis using fin b(1,2) t(1,2)
      by (cases stop; cases "tk_ret ?t = 0") (auto simp: p Let_def parses_panic intro!: parses_ret)
  qed
qed simp

lemma parseback_ok:
  "ps \<le> length buf \<Longrightarrow> length buf - ps < n \<Longrightarrow> cmd_ok buf c \<Longrightarrow> parses buf ps (cmd_ok buf) (parseback n buf c ps)"
proof (induction n arbitrary: c ps)
  case (Suc n)
  obtain more s where p: "peek buf ps (bytes_of ''&'') = (more, s)" by fastforce
  note b = peek_next[OF Suc.prems(1), of "bytes_of ''&''", unfolded p fst_conv snd_conv]
  show ?case
  proof (cases more)
    case True
    then have t: "s < tk_s (gettoken buf s)" "tk_s (gettoken buf s) \<le> length buf" using b(3) by simp_all
    have "parses buf (tk_s (gettoken buf s)) (cmd_ok buf) (parseback n buf (BACK c) (tk_s (gettoken buf s)))"
      using Suc.prems(2,3) t b(1) by (intro Suc.IH) auto
    then have "parses buf ps (cmd_ok buf) (parseback n buf (BACK c) (tk_s (gettoken buf s)))" by (rule parses_mono) (use b(1) t in simp)
    then show ?thesis using True by (simp add: p)
  next
    case False
    then show ?thesis using Suc.prems(3) b(1,2) by (simp add: p parses_ret)
  qed
qed simp

text \<open>A token after a successful \<open>peek\<close>, and what is parsed after it.\<close>

lemma after_token:
  assumes "ps \<le> length buf" and "peek buf ps toks = (True, s)"
    and "\<And>u. s < u \<Longrightarrow> u \<le> length buf \<Longrightarrow> parses buf u P (f u)"
  shows "parses buf ps P (f (tk_s (gettoken buf s)))"
proof -
  have b: "ps \<le> s" "s < tk_s (gettoken buf s)" "tk_s (gettoken buf s) \<le> length buf"
    using peek_next[OF assms(1), of toks] by (simp_all add: assms(2))
  then show ?thesis using parses_mono[OF assms(3)[OF b(2,3)]] by simp
qed

lemma parser_ok:
  "(\<forall>ps \<le> length buf. 4 * (length buf - ps) + 3 < n \<longrightarrow> parses buf ps (cmd_ok buf) (parseline n buf ps)) \<and>
   (\<forall>ps \<le> length buf. 4 * (length buf - ps) + 2 < n \<longrightarrow> parses buf ps (cmd_ok buf) (parsepipe n buf ps)) \<and>
   (\<forall>ps \<le> length buf. 4 * (length buf - ps) + 1 < n \<longrightarrow> parses buf ps (cmd_ok buf) (parseexec n buf ps)) \<and>
   (\<forall>ps \<le> length buf. 4 * (length buf - ps) < n \<longrightarrow> parses buf ps (cmd_ok buf) (parseblock n buf ps))"
proof (induction n)
  case (Suc n)
  have L: "\<And>s. s \<le> length buf \<Longrightarrow> 4 * (length buf - s) + 3 < n \<Longrightarrow> parses buf s (cmd_ok buf) (parseline n buf s)"
    and P: "\<And>s. s \<le> length buf \<Longrightarrow> 4 * (length buf - s) + 2 < n \<Longrightarrow> parses buf s (cmd_ok buf) (parsepipe n buf s)"
    and X: "\<And>s. s \<le> length buf \<Longrightarrow> 4 * (length buf - s) + 1 < n \<Longrightarrow> parses buf s (cmd_ok buf) (parseexec n buf s)"
    and B: "\<And>s. s \<le> length buf \<Longrightarrow> 4 * (length buf - s) < n \<Longrightarrow> parses buf s (cmd_ok buf) (parseblock n buf s)"
    using Suc by blast+
  have tail: "parses buf s (cmd_ok buf) (let (more, s') = peek buf s toks in if more
      then pbind (f (tk_s (gettoken buf s'))) (\<lambda>d s''. pret (C c d) s'') else pret c s')"
    if "s \<le> length buf" "cmd_ok buf c" "\<And>d. cmd_ok buf d \<Longrightarrow> cmd_ok buf (C c d)"
      "\<And>u. s < u \<Longrightarrow> u \<le> length buf \<Longrightarrow> parses buf u (cmd_ok buf) (f u)" for s toks c C f
  proof -
    obtain more s' where p: "peek buf s toks = (more, s')" by fastforce
    note b = peek_next[OF that(1), of toks, unfolded p fst_conv snd_conv]
    show ?thesis
    proof (cases more)
      case True
      have "parses buf s (cmd_ok buf) (f (tk_s (gettoken buf s')))"
        by (rule after_token[OF that(1)]) (use p True that(4) b(1) in auto)
      then show ?thesis using True that(3) by (auto simp: p intro!: parses_bind parses_ret)
    next
      case False
      then show ?thesis using that(2) b by (simp add: p parses_ret)
    qed
  qed
  have line: "parses buf ps (cmd_ok buf) (parseline (Suc n) buf ps)" if h: "ps \<le> length buf" "4 * (length buf - ps) + 3 < Suc n" for ps
    unfolding parseline.simps
  proof (rule parses_bind[OF P])
    fix c s assume c: "cmd_ok buf c" "ps \<le> s" "s \<le> length buf"
    have bk: "parses buf s (cmd_ok buf) (parseback n buf c s)" using c h by (intro parseback_ok) auto
    show "parses buf ps (cmd_ok buf) (pbind (parseback n buf c s) (\<lambda>c ps.
       let (more, ps) = peek buf ps (bytes_of '';'') in if more then pbind (parseline n buf (tk_s (gettoken buf ps))) (\<lambda>d ps. pret (LIST c d) ps) else pret c ps))"
    proof (rule parses_bind[OF parses_mono[OF bk c(2)]])
      fix c' s' assume c': "cmd_ok buf c'" "ps \<le> s'" "s' \<le> length buf"
      show "parses buf ps (cmd_ok buf) (let (more, ps) = peek buf s' (bytes_of '';'') in if more then pbind (parseline n buf (tk_s (gettoken buf ps))) (\<lambda>d ps. pret (LIST c' d) ps) else pret c' ps)"
      proof (rule parses_mono[OF tail[OF c'(3,1), of LIST] c'(2)])
        show "parses buf u (cmd_ok buf) (parseline n buf u)" if "s' < u" "u \<le> length buf" for u
          using that h c'(2) by (intro L) auto
      qed (use c'(1) in simp)
    qed
  qed (use h in auto)
  have pipe: "parses buf ps (cmd_ok buf) (parsepipe (Suc n) buf ps)" if h: "ps \<le> length buf" "4 * (length buf - ps) + 2 < Suc n" for ps
    unfolding parsepipe.simps
  proof (rule parses_bind[OF X])
    fix c s assume c: "cmd_ok buf c" "ps \<le> s" "s \<le> length buf"
    show "parses buf ps (cmd_ok buf) (let (more, ps) = peek buf s (bytes_of ''|'') in if more then pbind (parsepipe n buf (tk_s (gettoken buf ps))) (\<lambda>d ps. pret (PIPE c d) ps) else pret c ps)"
    proof (rule parses_mono[OF tail[OF c(3,1), of PIPE] c(2)])
      show "parses buf u (cmd_ok buf) (parsepipe n buf u)" if "s < u" "u \<le> length buf" for u
        using that h c(2) by (intro P) auto
    qed (use c(1) in simp)
  qed (use h in auto)
  have exec: "parses buf ps (cmd_ok buf) (parseexec (Suc n) buf ps)" if h: "ps \<le> length buf" "4 * (length buf - ps) + 1 < Suc n" for ps
  proof -
    obtain blk s where p: "peek buf ps (bytes_of ''('') = (blk, s)" by fastforce
    note b = peek_next[OF h(1), of "bytes_of ''(''", unfolded p fst_conv snd_conv]
    have "parses buf s (cmd_ok buf) (pbind (parseredirs n buf [] s) (\<lambda>rs ps. parseargs n buf [] rs ps))"
    proof (rule parses_bind[OF parseredirs_ok])
      fix rs s' assume r: "redirs_ok buf rs" "s \<le> s'" "s' \<le> length buf"
      have "parses buf s' (cmd_ok buf) (parseargs n buf [] rs s')" using r h b(1) by (intro parseargs_ok) auto
      then show "parses buf s (cmd_ok buf) (parseargs n buf [] rs s')" using r(2) by (rule parses_mono)
    qed (use b h in auto)
    moreover have "parses buf s (cmd_ok buf) (parseblock n buf s)" using b h by (intro B) auto
    ultimately show ?thesis using b(1) by (cases blk) (simp_all add: p parses_mono)
  qed
  have block: "parses buf ps (cmd_ok buf) (parseblock (Suc n) buf ps)" if h: "ps \<le> length buf" "4 * (length buf - ps) < Suc n" for ps
  proof -
    obtain blk s where p: "peek buf ps (bytes_of ''('') = (blk, s)" by fastforce
    note b = peek_next[OF h(1), of "bytes_of ''(''", unfolded p fst_conv snd_conv]
    show ?thesis
    proof (cases blk)
      case True
      have "parses buf ps (cmd_ok buf) (parseline n buf (tk_s (gettoken buf s)))"
      proof (rule after_token[OF h(1)])
        show "peek buf ps (bytes_of ''('') = (True, s)" using p True by simp
        show "parses buf u (cmd_ok buf) (parseline n buf u)" if "s < u" "u \<le> length buf" for u
          using that h b(1) by (intro L) auto
      qed
      then have "parses buf ps (cmd_ok buf) (pbind (parseline n buf (tk_s (gettoken buf s))) (\<lambda>c ps.
           let (close, ps) = peek buf ps (bytes_of '')'')
           in if \<not> close then ppanic ''syntax - missing )''
              else pbind (parseredirs n buf [] (tk_s (gettoken buf ps))) (\<lambda>rs ps. pret (wrap c rs) ps)))"
      proof (rule parses_bind)
        fix c s' assume c: "cmd_ok buf c" "ps \<le> s'" "s' \<le> length buf"
        obtain close s2 where q: "peek buf s' (bytes_of '')'') = (close, s2)" by fastforce
        note b2 = peek_next[OF c(3), of "bytes_of '')''", unfolded q fst_conv snd_conv]
        have "parses buf s' (redirs_ok buf) (parseredirs n buf [] (tk_s (gettoken buf s2)))" if close
        proof (rule after_token[OF c(3)])
          show "peek buf s' (bytes_of '')'') = (True, s2)" using q that by simp
          show "parses buf u (redirs_ok buf) (parseredirs n buf [] u)" if "s2 < u" "u \<le> length buf" for u
            using that h c(2) b2(1) by (intro parseredirs_ok) auto
        qed
        then have "parses buf s' (cmd_ok buf) (pbind (parseredirs n buf [] (tk_s (gettoken buf s2))) (\<lambda>rs ps. pret (wrap c rs) ps))" if close
          using that c(1) by (auto intro!: parses_bind parses_ret wrap_ok)
        then show "parses buf ps (cmd_ok buf) (let (close, ps) = peek buf s' (bytes_of '')'')
           in if \<not> close then ppanic ''syntax - missing )''
              else pbind (parseredirs n buf [] (tk_s (gettoken buf ps))) (\<lambda>rs ps. pret (wrap c rs) ps))"
          using c(2) by (cases close) (simp_all add: q parses_panic parses_mono)
      qed
      then show ?thesis using True by (simp add: p)
    qed (simp add: p parses_panic)
  qed
  show ?case using line pipe exec block by blast
qed simp

section \<open>Words become strings\<close>

lemma nulterminate_words: "nulterminate c buf = foldl (\<lambda>buf a. buf[snd a := 0]) buf (words c)"
  by (induction c arbitrary: buf) simp_all

lemma nth_terminated:
  "i < length buf \<Longrightarrow> foldl (\<lambda>buf a. buf[snd a := 0]) buf ws ! i = (if i \<in> snd ` set ws then 0 else buf ! i)"
  by (induction ws arbitrary: buf) (auto simp: nth_list_update)

lemma length_terminated: "length (foldl (\<lambda>buf a. buf[snd a := 0]) buf ws) = length buf"
  by (induction ws arbitrary: buf) auto

lemma takeWhile_prefix:
  assumes "n < length xs" and "\<And>i. i < n \<Longrightarrow> P (xs ! i)" and "\<not> P (xs ! n)"
  shows "takeWhile P xs = take n xs"
  using assms takeWhile_eq_take_P_nth[of n xs P] by simp

lemma word_string:
  assumes "0 \<notin> set line" and "cmd_ok line c" and "a \<in> set (words c)"
  shows "str_at (nulterminate c (line @ [0])) (fst a) = take (snd a - fst a) (drop (fst a) line)"
proof -
  let ?t = "nulterminate c (line @ [0])" let ?n = "snd a - fst a"
  have w: "word_at line b" if "b \<in> set (words c)" for b using assms(2) that by (simp add: cmd_ok_def)
  have a: "fst a < snd a" "snd a \<le> length line" using w[OF assms(3)] by (simp_all add: word_at_def)
  have t: "?t ! i = (if i \<in> snd ` set (words c) then 0 else (line @ [0]) ! i)" if "i \<le> length line" for i
    unfolding nulterminate_words using that by (intro nth_terminated) simp
  have len: "length ?t = Suc (length line)" by (simp add: nulterminate_words length_terminated)
  have inside: "?t ! i = line ! i \<and> line ! i \<noteq> 0" if i: "fst a \<le> i" "i < snd a" for i
  proof -
    have "\<not> is_in whitespace (at line i) \<and> \<not> is_in symbols (at line i)" using w[OF assms(3)] i by (simp add: word_at_def)
    then have "i \<notin> snd ` set (words c)" using w i a(2) by (fastforce simp: word_at_def)
    moreover have "line ! i \<noteq> 0" using i a(2) assms(1) by (metis nth_mem order_less_le_trans)
    ultimately show ?thesis using t[of i] i a(2) by (simp add: nth_append)
  qed
  have "takeWhile (\<lambda>x. x \<noteq> 0) (drop (fst a) ?t) = take ?n (drop (fst a) ?t)"
  proof (rule takeWhile_prefix)
    show "?n < length (drop (fst a) ?t)" using a len by simp
    show "drop (fst a) ?t ! i \<noteq> 0" if "i < ?n" for i using inside[of "fst a + i"] that a len by simp
    show "\<not> drop (fst a) ?t ! ?n \<noteq> 0" using t[of "snd a"] a len assms(3) by simp
  qed
  also have "\<dots> = take ?n (drop (fst a) line)"
    by (rule nth_equalityI) (use inside a len in auto)
  finally show ?thesis by (simp add: str_at_def)
qed

text \<open>
  C16: the parser of the shell returns for every command line, with a syntax error or with a command.
  After the terminators are written, each argument and file name of the command, read as a string, is
  exactly a word of the line as typed: a non-empty run of characters that are neither blanks nor
  symbols, cut off neither too early nor too late by the terminators of other words.
\<close>

theorem parsecmd_returns:
  assumes "0 \<notin> set line"
  shows "\<exists>r. parsecmd line = Some r \<and> (\<forall>c buf a. r = Inr (c, buf) \<longrightarrow> a \<in> set (words c) \<longrightarrow>
    word_at line a \<and> str_at buf (fst a) = take (snd a - fst a) (drop (fst a) line))"
proof -
  have "parses line 0 (cmd_ok line) (parseline (parse_fuel line) line 0)"
    using parser_ok[of line "parse_fuel line"] by (simp add: parse_fuel_def)
  then consider e where "parseline (parse_fuel line) line 0 = Some (Inl e)"
    | c s where "parseline (parse_fuel line) line 0 = Some (Inr (c, s))" "cmd_ok line c" unfolding parses_def by blast
  then show ?thesis
  proof cases
    case 1
    then show ?thesis by (simp add: parsecmd_def)
  next
    case 2
    then show ?thesis using word_string[OF assms 2(2)]
      by (auto simp: parsecmd_def cmd_ok_def)
  qed
qed

text \<open>The line \<open>ls >x\<close>.\<close>

lemma parsecmd_returns_witness:
  "\<exists>r. parsecmd [108, 115, 32, 62, 120] = Some r \<and> (\<forall>c buf a. r = Inr (c, buf) \<longrightarrow> a \<in> set (words c) \<longrightarrow>
    str_at buf (fst a) = take (snd a - fst a) (drop (fst a) [108, 115, 32, 62, 120]))"
  using parsecmd_returns[of "[108, 115, 32, 62, 120]"] by auto

end
