(* ===== verification/Spec2Isabelle.thy ===== *)
theory Spec2Isabelle
  imports Log Kalloc Trap Spinlock Crash Vdisk Grep Texttools Umalloc Shell
begin

text \<open>
  A verification development for the xv6-riscv kernel of this repository (\<open>kernel/\<close>) and its user
  library, shell and text tools (\<open>user/\<close>).

  \<^bold>\<open>How code is modelled.\<close> A kernel function is a function from the kernel state to an outcome
  (\<open>Prelude\<close>): it returns (\<open>Ok\<close>), calls \<open>panic\<close> (\<open>Panic\<close>), leaves the running thread through
  \<open>swtch\<close> (\<open>Switch\<close>: sleep, yield, exit), or performs an access the C standard leaves undefined
  (\<open>Undef\<close>). One record \<open>kstate\<close> (\<open>Kstate\<close>) holds the kernel's global variables; C structures are
  records, C integers are words of their width, pointers into static tables are indices, and physical
  memory is a map from addresses to bytes. Loops are structural recursion over the indices they
  visit, or functions with a termination proof. A user program (\<open>User\<close>) takes the system calls as a
  record of functions over an arbitrary world; it ends with a value, with \<open>exit\<close> or with a fault, and a
  loop that may run forever is a \<open>partial_function\<close> whose value is then \<^const>\<open>None\<close>.

  \<^bold>\<open>Foundations.\<close>
  \<^item> \<open>Prelude\<close>: the result monad, frames (\<open>keeps\<close>), total correctness triples, byte arrays and
    little-endian encodings. \<open>Kstate\<close>: constants, structures and the state; spin locks as seen by one
    hart. \<open>Ring\<close>: ring buffers with wrapping counters, and the locale \<open>byte_queue\<close>.
  \<^item> \<open>Memory\<close>, \<open>CString\<close>: byte-addressed memory; \<open>string.c\<close>. \<open>memmove_copies\<close> and
    \<open>safestrcpy_bounded\<close> state what the copies write and what they leave alone.

  \<^bold>\<open>Concurrency.\<close>
  \<^item> \<open>Spinlock\<close> (\<open>spinlock.c\<close>): the atomic steps of \<open>acquire\<close> and \<open>release\<close> on several harts, as a step
    relation. Invariants by rule induction give mutual exclusion, interrupts off while a lock is held, the
    panics on misuse, and a simulation to the view of one hart that all other theories use.
  \<^item> \<open>Sched\<close> (\<open>proc.c\<close>, \<open>sleeplock.c\<close>): sleep, wakeup, kill and sleep locks. \<open>Proc\<close> (\<open>proc.c\<close>):
    allocation, fork, exit, wait, \<open>getprocs\<close> and the scheduler; \<open>scheduler_fair\<close> shows that one pass over the table runs
    every process that stays runnable, for every behaviour of the processes that it runs.

  \<^bold>\<open>Memory management.\<close>
  \<^item> \<open>Kalloc\<close> (\<open>kalloc.c\<close>): the free list inside the pages it links; the locale \<open>page_allocator\<close> states
    the contract and is interpreted on \<open>kalloc\<close> and \<open>kfree\<close>.
  \<^item> \<open>Vm\<close>, \<open>Pagetable\<close>, \<open>Usermem\<close> (\<open>vm.c\<close>): the operations; what a page table translates and that
    \<open>mappages\<close> adds exactly the new translations; user memory through \<open>copyin\<close>, \<open>copyout\<close> and
    \<open>copyinstr\<close>, with the round trip across pages and the fact that no page table makes them panic.

  \<^bold>\<open>Storage, from the bottom up.\<close>
  \<^item> \<open>Block_Cache\<close>: the locale of a block cache with pinned blocks over a disk. \<open>Bio\<close> (\<open>bio.c\<close>):
    buffers, the interpretation of the locale. \<open>Log\<close> (\<open>log.c\<close>): the write-ahead log;
    \<open>commit_crash_safe\<close> covers a power failure after every single block write.
  \<^item> \<open>Fs\<close>, \<open>Dir\<close> (\<open>fs.c\<close>): blocks, inodes, file content, directories and path names. \<open>Trans\<close> is the
    layer of facts about code inside a transaction. \<open>Blocks\<close>: \<open>balloc\<close> and \<open>bfree\<close> on the free map.
    \<open>Inodes\<close>: encoding, \<open>iupdate\<close>, \<open>ilock\<close>. \<open>Filedata\<close>: \<open>bmap\<close>, \<open>readi\<close>, \<open>writei\<close> as operations on the
    bytes of a file. \<open>Crash\<close>: \<open>begin_op\<close>, a write, \<open>end_op\<close>, a crash at any point and recovery
    give the old or the new content of the file.
  \<^item> \<open>File\<close>, \<open>Pipe\<close> (\<open>file.c\<close>, \<open>pipe.c\<close>): open files, and pipes as queues of bytes.

  \<^bold>\<open>Devices, system calls and traps.\<close>
  \<^item> \<open>Uart\<close>, \<open>Console\<close>, \<open>Printf\<close>: the transmit buffer and the console line as queues (interpretations of
    \<open>byte_queue\<close>), number formatting. \<open>Exec\<close>, \<open>Sysarg\<close>, \<open>Sysfile\<close>, \<open>Sysproc\<close>, \<open>Syscall\<close>, \<open>Trap\<close>:
    program loading, argument fetching, every system call handler, the dispatcher, and the trap handlers.

  \<^bold>\<open>User space.\<close>
  \<^item> \<open>User\<close>: programs over system calls, and streams of bytes delivered in pieces of any size.
    \<open>Ulib\<close>, \<open>Uprintf\<close>, \<open>Umalloc\<close> (\<open>ulib.c\<close>, \<open>printf.c\<close>, \<open>umalloc.c\<close>): the library; the allocator keeps a
    sorted circular list of free blocks that do not touch, and its loops end.
  \<^item> \<open>Grep\<close>, \<open>Texttools\<close> (\<open>grep.c\<close>, \<open>sort.c\<close>, \<open>head.c\<close>, \<open>tail.c\<close>, \<open>wc.c\<close>, \<open>cat.c\<close>, \<open>echo.c\<close>): the
    matcher against the language of a pattern, the filter of lines, sorting, bounds of the line tables
    and counting.
  \<^item> \<open>Shell\<close> (\<open>sh.c\<close>): tokenizer, recursive-descent parser, interpreter, scripts and main loop.

  \<^bold>\<open>Bounds and fuel.\<close> Static tables have the sizes of \<open>param.h\<close>. The parser of the shell
  takes fuel \<open>4 * length + 4\<close> for a line: every call of one parsing function by another, and every turn of its loops,
  either consumes input or moves down the four levels of the grammar; \<open>parsecmd_returns\<close> shows that the fuel is
  never exhausted. Indirect file blocks and log blocks are bounded by the constants of \<open>fs.h\<close> and \<open>param.h\<close>.

  \<^bold>\<open>Parameters.\<close> The disk keeps what was last written to a block, one block at a time, also across a
  power failure. The addresses the linker chooses (\<open>end\<close>, \<open>etext\<close>, the assembly entry points) and the value
  of the time register are fields of the state with arbitrary values. System calls are arguments of the user
  programs, with the stream laws of \<open>User\<close> as named hypotheses.

  \<^bold>\<open>Not modelled.\<close> Boot code that sets control registers (\<open>start.c\<close>, \<open>entry.S\<close>); the assembly that saves
  and restores registers; the user programs that only wrap a system call; the tests in user space
  (\<open>usertests.c\<close> and others), which provide no service; \<open>mkfs.c\<close>, which runs on the host. A thread that
  leaves the processor ends the run of the model at that point: what follows its return is the same
  function entered again, except where a theory models the threads explicitly. Interrupts between two
  instructions of kernel code are not interleaved; the locks that make this unobservable are the
  subject of \<open>Spinlock\<close>.
\<close>

end
